(* ===== verification/Wmp_Prelude.thy ===== *)
theory Wmp_Prelude
  imports Main "HOL-Library.AList"
begin

text \<open>
  Shared vocabulary of the development.

  The modelled program is TypeScript. The pieces of the language and its standard library that
  the components use are fixed here once:
  \<^item> a JavaScript \<^verbatim>\<open>Map\<close> is an association list kept in insertion order: \<open>js_get\<close> is
    \<^verbatim>\<open>get\<close>, \<open>js_has\<close> is \<^verbatim>\<open>has\<close>, \<open>js_put\<close> is \<^verbatim>\<open>set\<close> (in place, or
    appended when the key is new), \<open>js_del\<close> is \<^verbatim>\<open>delete\<close>. A list stands for a map
    when its keys are distinct (\<open>js_map_ok\<close>), which every operation keeps;
  \<^item> a JavaScript \<^verbatim>\<open>Set\<close> is a list without repetitions in insertion order;
  \<^item> \<open>js_or\<close> is \<^verbatim>\<open>a || b\<close> on numbers, \<open>js_nullish\<close> is \<^verbatim>\<open>a ?? b\<close>;
  \<^item> a \<^verbatim>\<open>Date\<close> and every other instant is a number of milliseconds, \<^typ>\<open>int\<close>;
    identifiers are \<^typ>\<open>string\<close>.
\<close>

type_synonym ident = string
type_synonym millis = int
type_synonym ('k, 'v) js_map = "('k \<times> 'v) list"
type_synonym 'a js_set = "'a list"

named_theorems js_simps \<open>evaluation rules for the JavaScript idioms\<close>
named_theorems wf_intros \<open>well-formedness is kept by the operations\<close>

subsection \<open>Numbers and null\<close>

definition js_or :: "int \<Rightarrow> int \<Rightarrow> int" where
  "js_or a b = (if a \<noteq> 0 then a else b)"

definition js_nullish :: "'a option \<Rightarrow> 'a \<Rightarrow> 'a" where
  "js_nullish x d = (case x of None \<Rightarrow> d | Some v \<Rightarrow> v)"

lemma js_nullish_simps [simp]:
  "js_nullish None d = d"
  "js_nullish (Some v) d = v"
  by (simp_all add: js_nullish_def)

lemma js_or_simps [js_simps]:
  "a \<noteq> 0 \<Longrightarrow> js_or a b = a"
  "js_or 0 b = b"
  by (simp_all add: js_or_def)

lemma js_or_eq_0 [simp]: "js_or a b = 0 \<longleftrightarrow> a = 0 \<and> b = 0"
  by (simp add: js_or_def)

lemma js_or_neg: "js_or a b \<le> 0 \<longleftrightarrow> a < 0 \<or> a = 0 \<and> b \<le> 0"
  by (auto simp: js_or_def)

subsection \<open>Map\<close>

abbreviation js_get :: "('k, 'v) js_map \<Rightarrow> 'k \<Rightarrow> 'v option" where
  "js_get m k \<equiv> map_of m k"

definition js_has :: "('k, 'v) js_map \<Rightarrow> 'k \<Rightarrow> bool" where
  "js_has m k \<longleftrightarrow> k \<in> fst ` set m"

abbreviation js_put :: "'k \<Rightarrow> 'v \<Rightarrow> ('k, 'v) js_map \<Rightarrow> ('k, 'v) js_map" where
  "js_put k v m \<equiv> AList.update k v m"

abbreviation js_del :: "'k \<Rightarrow> ('k, 'v) js_map \<Rightarrow> ('k, 'v) js_map" where
  "js_del k m \<equiv> AList.delete k m"

abbreviation js_keys :: "('k, 'v) js_map \<Rightarrow> 'k list" where
  "js_keys m \<equiv> map fst m"

abbreviation js_values :: "('k, 'v) js_map \<Rightarrow> 'v list" where
  "js_values m \<equiv> map snd m"

abbreviation js_map_ok :: "('k, 'v) js_map \<Rightarrow> bool" where
  "js_map_ok m \<equiv> distinct (map fst m)"

lemma js_get_put [simp]: "js_get (js_put k v m) k' = (if k' = k then Some v else js_get m k')"
  by (simp add: update_conv')

lemma js_get_del [simp]: "js_get (js_del k m) k' = (if k' = k then None else js_get m k')"
  by (simp add: delete_conv')

lemma js_has_get: "js_has m k \<longleftrightarrow> js_get m k \<noteq> None"
  by (simp add: js_has_def map_of_eq_None_iff)

lemma js_has_put [simp]: "js_has (js_put k v m) k' \<longleftrightarrow> k' = k \<or> js_has m k'"
  by (simp add: js_has_get)

lemma js_has_del [simp]: "js_has (js_del k m) k' \<longleftrightarrow> k' \<noteq> k \<and> js_has m k'"
  by (simp add: js_has_get)

lemma js_has_simps [simp]:
  "js_has [] k \<longleftrightarrow> False"
  "js_has ((k', v) # m) k \<longleftrightarrow> k = k' \<or> js_has m k"
  by (auto simp: js_has_def)

lemma js_map_ok_put [wf_intros, intro]: "js_map_ok m \<Longrightarrow> js_map_ok (js_put k v m)"
  by (rule distinct_update)

lemma js_map_ok_del [wf_intros, intro]: "js_map_ok m \<Longrightarrow> js_map_ok (js_del k m)"
  by (rule distinct_delete)

lemma js_has_keys: "js_has m k \<longleftrightarrow> k \<in> set (js_keys m)"
  by (simp add: js_has_def)

lemma js_get_SomeD: "js_get m k = Some v \<Longrightarrow> (k, v) \<in> set m"
  by (rule map_of_SomeD)

lemma js_map_ok_get: "js_map_ok m \<Longrightarrow> js_get m k = Some v \<longleftrightarrow> (k, v) \<in> set m"
  by (rule map_of_eq_Some_iff)

subsection \<open>Set\<close>

definition js_add :: "'a \<Rightarrow> 'a js_set \<Rightarrow> 'a js_set" where
  "js_add x s = (if x \<in> set s then s else s @ [x])"

lemma set_js_add [simp]: "set (js_add x s) = insert x (set s)"
  by (auto simp: js_add_def)

lemma distinct_js_add [wf_intros, intro]: "distinct s \<Longrightarrow> distinct (js_add x s)"
  by (simp add: js_add_def)

subsection \<open>Lists\<close>

lemma find_append: "find P (xs @ ys) = (case find P xs of None \<Rightarrow> find P ys | Some x \<Rightarrow> Some x)"
  by (induction xs) auto

lemma find_filter: "find P (filter Q xs) = find (\<lambda>x. Q x \<and> P x) xs"
  by (induction xs) auto

lemma find_cong_set: "(\<And>x. x \<in> set xs \<Longrightarrow> P x = Q x) \<Longrightarrow> find P xs = find Q xs"
  by (induction xs) auto

lemma find_Some_in: "find P xs = Some x \<Longrightarrow> x \<in> set xs \<and> P x"
  by (induction xs) (auto split: if_splits)

lemma find_eq_hd_filter: "find P xs = (case filter P xs of [] \<Rightarrow> None | x # _ \<Rightarrow> Some x)"
  by (induction xs) auto

lemma sum_list_map_update:
  fixes f :: "'a \<Rightarrow> int"
  assumes "distinct xs" "k \<in> set xs" "\<And>x. x \<noteq> k \<Longrightarrow> g x = f x"
  shows "(\<Sum>x\<leftarrow>xs. g x) = (\<Sum>x\<leftarrow>xs. f x) - f k + g k"
  using assms
proof (induction xs)
  case (Cons x xs)
  show ?case
  proof (cases "x = k")
    case True
    with Cons.prems have "map g xs = map f xs" by (metis distinct.simps(2) map_eq_conv)
    with True show ?thesis by (simp del: map_eq_conv)
  next
    case False
    with Cons show ?thesis by auto
  qed
qed simp

end
