(* ===== verification/Collation.thy ===== *)
theory Collation
  imports Wmp_Prelude
begin

text \<open>
  Comparison functions and sorting.

  \<^verbatim>\<open>Array.prototype.sort\<close> is a stable sort whenever the comparison function is consistent
  (ECMA-262, 23.1.3.30); \<open>js_sort\<close> is that stable sort. The locale \<open>consistent_comparator\<close> is
  the contract a comparison function has to meet, and holds what the components use about
  \<open>js_sort\<close> under it. \<open>compareCodePoints\<close> is the program's own comparison
  (\<^verbatim>\<open>packages/api/src/lib/canonical-json.ts\<close>); it meets the contract.

  \<^verbatim>\<open>String.prototype.localeCompare\<close> depends on the host's collation tables. It is a parameter
  of the definitions that use it; ECMA-402 promises that it is a consistent comparison
  function, which is the locale's contract again.
\<close>

subsection \<open>The stable sort\<close>

fun js_insert :: "('a \<Rightarrow> 'a \<Rightarrow> int) \<Rightarrow> 'a \<Rightarrow> 'a list \<Rightarrow> 'a list" where
  "js_insert cmp x [] = [x]"
| "js_insert cmp x (y # ys) = (if cmp x y \<le> 0 then x # y # ys else y # js_insert cmp x ys)"

fun js_sort :: "('a \<Rightarrow> 'a \<Rightarrow> int) \<Rightarrow> 'a list \<Rightarrow> 'a list" where
  "js_sort cmp [] = []"
| "js_sort cmp (x # xs) = js_insert cmp x (js_sort cmp xs)"

lemma set_js_insert [simp]: "set (js_insert cmp x xs) = insert x (set xs)"
  by (induction xs) auto

lemma set_js_sort [simp]: "set (js_sort cmp xs) = set xs"
  by (induction xs) auto

lemma length_js_insert [simp]: "length (js_insert cmp x xs) = Suc (length xs)"
  by (induction xs) auto

lemma length_js_sort [simp]: "length (js_sort cmp xs) = length xs"
  by (induction xs) auto

lemma distinct_map_js_insert:
  "distinct (map f (js_insert cmp x xs)) \<longleftrightarrow> f x \<notin> f ` set xs \<and> distinct (map f xs)"
  by (induction xs) auto

lemma distinct_map_js_sort [simp]: "distinct (map f (js_sort cmp xs)) = distinct (map f xs)"
  by (induction xs) (auto simp: distinct_map_js_insert)

lemma js_sort_single [simp]: "js_sort cmp [x] = [x]"
  by simp

lemma map_js_insert:
  "(\<And>y. y \<in> set xs \<Longrightarrow> cmp' (f x) (f y) = cmp x y) \<Longrightarrow>
   map f (js_insert cmp x xs) = js_insert cmp' (f x) (map f xs)"
  by (induction xs) auto

lemma map_js_sort:
  "(\<And>x y. cmp' (f x) (f y) = cmp x y) \<Longrightarrow> map f (js_sort cmp xs) = js_sort cmp' (map f xs)"
  by (induction xs) (simp_all add: map_js_insert [where cmp' = cmp'])

subsection \<open>The contract of a comparison function\<close>

locale consistent_comparator =
  fixes cmp :: "'a \<Rightarrow> 'a \<Rightarrow> int"
  assumes cmp_swap: "sgn (cmp y x) = - sgn (cmp x y)"
    and cmp_trans: "cmp x y \<le> 0 \<Longrightarrow> cmp y z \<le> 0 \<Longrightarrow> cmp x z \<le> 0"
begin

lemma cmp_refl [simp]: "cmp x x = 0"
  using cmp_swap [of x x] by (simp add: sgn_if split: if_splits)

lemma cmp_total: "cmp x y \<le> 0 \<or> cmp y x \<le> 0"
  using cmp_swap [of x y] by (auto simp: sgn_if split: if_splits)

lemma cmp_pos_swap: "0 < cmp x y \<longleftrightarrow> cmp y x < 0"
  using cmp_swap [of y x] by (auto simp: sgn_if split: if_splits)

abbreviation ordered :: "'a list \<Rightarrow> bool" where
  "ordered \<equiv> sorted_wrt (\<lambda>x y. cmp x y \<le> 0)"

lemma ordered_js_insert: "ordered xs \<Longrightarrow> ordered (js_insert cmp x xs)"
proof (induction xs)
  case (Cons y ys)
  then show ?case
    using cmp_total [of x y] by (auto intro: cmp_trans)
qed simp

lemma ordered_js_sort: "ordered (js_sort cmp xs)"
  by (induction xs) (auto intro: ordered_js_insert)

lemma js_insert_ordered: "ordered (x # xs) \<Longrightarrow> js_insert cmp x xs = x # xs"
  by (cases xs) auto

lemma js_sort_ordered: "ordered xs \<Longrightarrow> js_sort cmp xs = xs"
proof (induction xs)
  case (Cons x xs)
  then have "js_sort cmp xs = xs" by simp
  with Cons.prems show ?case by (simp add: js_insert_ordered)
qed simp

lemma ordered_filter: "ordered xs \<Longrightarrow> ordered (filter P xs)"
  by (rule sorted_wrt_filter)

lemma js_sort_filter_ordered: "ordered xs \<Longrightarrow> js_sort cmp (filter P xs) = filter P xs"
  by (intro js_sort_ordered ordered_filter)

lemma filter_js_insert:
  "ordered ys \<Longrightarrow> filter P (js_insert cmp x ys) =
     (if P x then js_insert cmp x (filter P ys) else filter P ys)"
proof (induction ys)
  case (Cons y ys)
  have "js_insert cmp x (filter P ys) = x # filter P ys" if "cmp x y \<le> 0"
  proof (rule js_insert_ordered)
    show "ordered (x # filter P ys)"
      using Cons.prems that by (auto intro: cmp_trans ordered_filter)
  qed
  with Cons show ?case by auto
qed simp

lemma js_sort_filter: "js_sort cmp (filter P xs) = filter P (js_sort cmp xs)"
  by (induction xs) (simp_all add: filter_js_insert ordered_js_sort)

text \<open>Sorting is stable: the elements that compare equal keep their order.\<close>

lemma js_insert_stable:
  assumes "cmp x k = 0"
  shows "filter (\<lambda>y. cmp y k = 0) (js_insert cmp x xs) = x # filter (\<lambda>y. cmp y k = 0) xs"
proof (induction xs)
  case (Cons y ys)
  have "cmp y k \<noteq> 0" if "\<not> cmp x y \<le> 0"
  proof
    assume "cmp y k = 0"
    then have "cmp k y \<le> 0" using cmp_swap [of k y] by (simp add: sgn_if split: if_splits)
    with assms have "cmp x y \<le> 0" by (auto intro: cmp_trans [of x k y])
    with that show False by simp
  qed
  with Cons assms show ?case by auto
qed (use assms in simp)

lemma js_insert_stable_other:
  "cmp x k \<noteq> 0 \<Longrightarrow> filter (\<lambda>y. cmp y k = 0) (js_insert cmp x xs) = filter (\<lambda>y. cmp y k = 0) xs"
  by (induction xs) auto

lemma js_sort_stable: "filter (\<lambda>y. cmp y k = 0) (js_sort cmp xs) = filter (\<lambda>y. cmp y k = 0) xs"
  by (induction xs) (auto simp: js_insert_stable js_insert_stable_other)

end

subsection \<open>Code points\<close>

text \<open>
  A JavaScript string is a sequence of UTF-16 code units; \<^verbatim>\<open>Array.from\<close> walks it by code
  points, joining each high surrogate with the low surrogate that follows it.
\<close>

type_synonym code_units = "nat list"

definition high_surrogate :: "nat \<Rightarrow> bool" where
  "high_surrogate u \<longleftrightarrow> 0xD800 \<le> u \<and> u \<le> 0xDBFF"

definition low_surrogate :: "nat \<Rightarrow> bool" where
  "low_surrogate u \<longleftrightarrow> 0xDC00 \<le> u \<and> u \<le> 0xDFFF"

fun code_points :: "code_units \<Rightarrow> nat list" where
  "code_points [] = []"
| "code_points [u] = [u]"
| "code_points (u # v # us) =
     (if high_surrogate u \<and> low_surrogate v
      then ((u - 0xD800) * 0x400 + (v - 0xDC00) + 0x10000) # code_points us
      else u # code_points (v # us))"

fun compare_lists :: "nat list \<Rightarrow> nat list \<Rightarrow> int" where
  "compare_lists (a # as) (b # bs) =
     (let difference = int a - int b in if difference \<noteq> 0 then difference else compare_lists as bs)"
| "compare_lists as bs = int (length as) - int (length bs)"

definition compareCodePoints :: "code_units \<Rightarrow> code_units \<Rightarrow> int" where
  "compareCodePoints left right = compare_lists (code_points left) (code_points right)"

definition js_units :: "string \<Rightarrow> code_units" where
  "js_units s = map of_char s"

definition compareIdents :: "ident \<Rightarrow> ident \<Rightarrow> int" where
  "compareIdents a b = compareCodePoints (js_units a) (js_units b)"

lemma compare_lists_swap: "compare_lists ys xs = - compare_lists xs ys"
  by (induction xs ys rule: compare_lists.induct) (auto simp: Let_def)

lemma compare_lists_eq_0: "compare_lists xs ys = 0 \<longleftrightarrow> xs = ys"
  by (induction xs ys rule: compare_lists.induct) (auto simp: Let_def)

lemma compare_lists_Nil: "compare_lists [] zs \<le> 0"
  by (cases zs) auto

lemma compare_lists_trans:
  "compare_lists xs ys \<le> 0 \<Longrightarrow> compare_lists ys zs \<le> 0 \<Longrightarrow> compare_lists xs zs \<le> 0"
proof (induction xs ys arbitrary: zs rule: compare_lists.induct)
  case (1 a as b bs)
  then show ?case by (cases zs) (auto simp: Let_def split: if_splits)
qed (simp_all add: compare_lists_Nil)

interpretation code_point_order: consistent_comparator compareCodePoints
proof unfold_locales
  fix x y z
  show "sgn (compareCodePoints y x) = - sgn (compareCodePoints x y)"
    unfolding compareCodePoints_def
    by (subst compare_lists_swap) (simp add: sgn_minus)
  show "compareCodePoints x y \<le> 0 \<Longrightarrow> compareCodePoints y z \<le> 0 \<Longrightarrow> compareCodePoints x z \<le> 0"
    unfolding compareCodePoints_def by (rule compare_lists_trans)
qed

interpretation ident_order: consistent_comparator compareIdents
proof unfold_locales
  fix x y z
  show "sgn (compareIdents y x) = - sgn (compareIdents x y)"
    unfolding compareIdents_def by (rule code_point_order.cmp_swap)
  show "compareIdents x y \<le> 0 \<Longrightarrow> compareIdents y z \<le> 0 \<Longrightarrow> compareIdents x z \<le> 0"
    unfolding compareIdents_def by (rule code_point_order.cmp_trans)
qed

end
