(* ===== verification/Scheduler.thy ===== *)
theory Scheduler
  imports Collation
begin

text \<open>
  The weighted deficit round robin that picks the next class to serve on a physical capacity
  (\<^verbatim>\<open>apps/server/src/model-api/capacity/scheduler.ts\<close>, with the priority classes of
  \<^verbatim>\<open>capacity/types.ts\<close>).

  The class ranks, cursor, deficits and quanta are integers in the code and \<^typ>\<open>int\<close> here;
  a \<^verbatim>\<open>throw new RangeError\<close> is an \<open>Inl\<close> of \<open>schedError\<close>. \<open>lc\<close> is
  \<^verbatim>\<open>String.prototype.localeCompare\<close>.
\<close>

subsection \<open>Priority classes\<close>

datatype priorityClass = BACKGROUND | NORMAL | HIGH

definition PRIORITY_CLASSES :: "priorityClass list" where
  "PRIORITY_CLASSES = [BACKGROUND, NORMAL, HIGH]"

definition PRIORITY_CLASS_COUNT :: int where
  "PRIORITY_CLASS_COUNT = int (length PRIORITY_CLASSES)"

definition NORMAL_PRIORITY_RANK :: int where
  "NORMAL_PRIORITY_RANK = 1"

fun index_of :: "'a \<Rightarrow> 'a list \<Rightarrow> int \<Rightarrow> int" where
  "index_of x [] i = -1"
| "index_of x (y # ys) i = (if x = y then i else index_of x ys (i + 1))"

definition priorityClassRank :: "priorityClass \<Rightarrow> int" where
  "priorityClassRank c = index_of c PRIORITY_CLASSES 0"

datatype schedError =
    BadCursor
  | BadArrays
  | BadQuantum
  | BadPriority

definition assertPriority :: "int \<Rightarrow> schedError + int" where
  "assertPriority priority =
     (if priority < 0 \<or> priority \<ge> PRIORITY_CLASS_COUNT then Inl BadPriority
      else Inr priority)"

lemma PRIORITY_CLASS_COUNT_eq [simp]: "PRIORITY_CLASS_COUNT = 3"
  by (simp add: PRIORITY_CLASS_COUNT_def PRIORITY_CLASSES_def)

subsection \<open>State and decisions\<close>

definition SCHEDULER_VERSION :: int where
  "SCHEDULER_VERSION = 2"

definition PRIORITY_CLASS_QUANTA :: "int list" where
  "PRIORITY_CLASS_QUANTA = [1, 4, 16]"

record schedulerCandidate =
  sc_admissionRequestId :: ident
  sc_waiterId :: ident
  sc_candidateOrder :: int
  sc_priority :: int
  sc_enqueueSequence :: int
  sc_eligible :: bool

record schedulerState =
  ss_cursor :: int
  ss_deficits :: "int list"
  ss_version :: int

record schedulerDecision =
  sd_winner :: "schedulerCandidate option"
  sd_state :: schedulerState

record capacityView =
  cv_physicalLimit :: "int option"
  cv_physicalActive :: int
  cv_memberLimit :: "int option"
  cv_memberActive :: int
  cv_reservedSlots :: int
  cv_reservationOwnerWaiting :: bool
  cv_borrowing :: bool

definition reaches :: "int \<Rightarrow> int option \<Rightarrow> bool" where
  "reaches n limit = (case limit of None \<Rightarrow> False | Some l \<Rightarrow> n \<ge> l)"

definition capacityCandidateEligible :: "capacityView \<Rightarrow> bool" where
  "capacityCandidateEligible v =
     (if reaches (cv_physicalActive v) (cv_physicalLimit v) then False
      else if reaches (cv_memberActive v) (cv_memberLimit v) then False
      else if cv_reservationOwnerWaiting v \<and> cv_borrowing v then False
      else if cv_reservedSlots v > 0 \<and> \<not> cv_borrowing v \<and>
              reaches (cv_physicalActive v)
                (map_option (\<lambda>limit. max 0 (limit - cv_reservedSlots v)) (cv_physicalLimit v))
           then False
      else True)"

definition compareSchedulerCandidates ::
    "(ident \<Rightarrow> ident \<Rightarrow> int) \<Rightarrow> schedulerCandidate \<Rightarrow> schedulerCandidate \<Rightarrow> int" where
  "compareSchedulerCandidates lc a b =
     (if sc_enqueueSequence a \<noteq> sc_enqueueSequence b
      then (if sc_enqueueSequence a < sc_enqueueSequence b then -1 else 1)
      else js_or (lc (sc_admissionRequestId a) (sc_admissionRequestId b))
            (js_or (sc_candidateOrder a - sc_candidateOrder b)
              (lc (sc_waiterId a) (sc_waiterId b))))"

definition defaultPriorityQuanta :: "int list" where
  "defaultPriorityQuanta = PRIORITY_CLASS_QUANTA"

definition validateScheduler :: "schedulerState \<Rightarrow> int list \<Rightarrow> schedError + unit" where
  "validateScheduler state quanta =
     (if ss_cursor state < 0 \<or> ss_cursor state \<ge> PRIORITY_CLASS_COUNT then Inl BadCursor
      else if int (length (ss_deficits state)) \<noteq> PRIORITY_CLASS_COUNT \<or>
              int (length quanta) \<noteq> PRIORITY_CLASS_COUNT then Inl BadArrays
      else if list_ex (\<lambda>quantum. quantum \<le> 0) quanta then Inl BadQuantum
      else Inr ())"

text \<open>The loop that files the eligible candidates by class; an invalid class ends the call.\<close>

fun fileCandidates ::
    "schedulerCandidate list \<Rightarrow> (int, schedulerCandidate list) js_map \<Rightarrow>
     schedError + (int, schedulerCandidate list) js_map" where
  "fileCandidates [] queues = Inr queues"
| "fileCandidates (candidate # rest) queues =
     (case assertPriority (sc_priority candidate) of
        Inl e \<Rightarrow> Inl e
      | Inr priority \<Rightarrow>
          if \<not> sc_eligible candidate then fileCandidates rest queues
          else let queue = js_nullish (js_get queues priority) []
               in fileCandidates rest (js_put priority (queue @ [candidate]) queues))"

text \<open>A class without an eligible candidate loses its remaining deficit.\<close>

fun resetEmpty :: "int list \<Rightarrow> (int, schedulerCandidate list) js_map \<Rightarrow> int list \<Rightarrow> int list" where
  "resetEmpty [] queues deficits = deficits"
| "resetEmpty (priority # rest) queues deficits =
     resetEmpty rest queues
       (if \<not> js_has queues priority then deficits[nat priority := 0] else deficits)"

text \<open>One round from the cursor: the first class with a candidate and a positive deficit wins.\<close>

fun visitClasses ::
    "int list \<Rightarrow> (int, schedulerCandidate list) js_map \<Rightarrow> schedulerState \<Rightarrow> int list \<Rightarrow> int list \<Rightarrow>
     schedulerDecision" where
  "visitClasses [] queues state quanta deficits =
     \<lparr>sd_winner = None,
      sd_state = \<lparr>ss_cursor = ss_cursor state, ss_deficits = deficits, ss_version = SCHEDULER_VERSION\<rparr>\<rparr>"
| "visitClasses (visited # rest) queues state quanta deficits =
     (let priority = (ss_cursor state + visited) mod PRIORITY_CLASS_COUNT;
          p = nat priority
      in case js_nullish (js_get queues priority) [] of
           [] \<Rightarrow> visitClasses rest queues state quanta deficits
         | winner # _ \<Rightarrow>
             let deficits' = (if deficits ! p < 1 then deficits[p := quanta ! p] else deficits)
             in if deficits' ! p < 1 then visitClasses rest queues state quanta deficits'
                else let left = deficits' ! p - 1
                     in \<lparr>sd_winner = Some winner,
                         sd_state =
                           \<lparr>ss_cursor = (if left \<ge> 1 then priority
                                         else (priority + 1) mod PRIORITY_CLASS_COUNT),
                            ss_deficits = deficits'[p := left],
                            ss_version = SCHEDULER_VERSION\<rparr>\<rparr>)"

definition scheduleWeightedDeficitRoundRobin ::
    "(ident \<Rightarrow> ident \<Rightarrow> int) \<Rightarrow> schedulerCandidate list \<Rightarrow> schedulerState \<Rightarrow> int list \<Rightarrow>
     schedError + schedulerDecision" where
  "scheduleWeightedDeficitRoundRobin lc candidates state quanta =
     (case validateScheduler state quanta of
        Inl e \<Rightarrow> Inl e
      | Inr _ \<Rightarrow>
          (case fileCandidates candidates [] of
             Inl e \<Rightarrow> Inl e
           | Inr filed \<Rightarrow>
               let queues = map (\<lambda>(p, queue). (p, js_sort (compareSchedulerCandidates lc) queue)) filed;
                   deficits = resetEmpty [0..PRIORITY_CLASS_COUNT - 1] queues (ss_deficits state)
               in Inr (visitClasses [0..PRIORITY_CLASS_COUNT - 1] queues state quanta deficits)))"

subsection \<open>The queue order\<close>

lemma compareSchedulerCandidates_consistent:
  assumes "consistent_comparator lc"
  shows "consistent_comparator (compareSchedulerCandidates lc)"
proof -
  have swap: "sgn (lc b a) = - sgn (lc a b)" for a b
    using assms by (rule consistent_comparator.cmp_swap)
  have trans: "lc a b \<le> 0 \<Longrightarrow> lc b c \<le> 0 \<Longrightarrow> lc a c \<le> 0" for a b c
    using assms by (rule consistent_comparator.cmp_trans)
  have zero: "lc a b = 0 \<longleftrightarrow> lc b a = 0" for a b
    using swap [of a b] by (auto simp: sgn_if split: if_splits)
  have neg: "lc a b < 0 \<longleftrightarrow> 0 < lc b a" for a b
    using swap [of a b] by (auto simp: sgn_if split: if_splits)
  have strict: "lc a c < 0" if "lc a b \<le> 0" "lc b c \<le> 0" "lc a b < 0 \<or> lc b c < 0" for a b c
    using that trans [of a b c] trans [of b c a] trans [of c a b] neg zero
    by (metis linorder_not_le order_less_le)
  show ?thesis
  proof
    fix x y z
    show "sgn (compareSchedulerCandidates lc y x) = - sgn (compareSchedulerCandidates lc x y)"
      using swap [of "sc_admissionRequestId x" "sc_admissionRequestId y"]
        swap [of "sc_waiterId x" "sc_waiterId y"]
      by (auto simp: compareSchedulerCandidates_def js_or_def sgn_if split: if_splits)
    show "compareSchedulerCandidates lc x z \<le> 0"
      if xy: "compareSchedulerCandidates lc x y \<le> 0" and yz: "compareSchedulerCandidates lc y z \<le> 0"
    proof -
      let ?s = sc_enqueueSequence and ?r = sc_admissionRequestId
        and ?o = sc_candidateOrder and ?w = sc_waiterId
      have le: "compareSchedulerCandidates lc a b \<le> 0 \<longleftrightarrow>
          ?s a < ?s b \<or> ?s a = ?s b \<and>
            (lc (?r a) (?r b) < 0 \<or> lc (?r a) (?r b) = 0 \<and>
              (?o a < ?o b \<or> ?o a = ?o b \<and> lc (?w a) (?w b) \<le> 0))" for a b
        by (auto simp: compareSchedulerCandidates_def js_or_def)
      have r: "lc (?r x) (?r z) < 0" if "lc (?r x) (?r y) < 0" "lc (?r y) (?r z) \<le> 0"
        using that by (intro strict) auto
      have r': "lc (?r x) (?r z) < 0" if "lc (?r x) (?r y) \<le> 0" "lc (?r y) (?r z) < 0"
        using that by (intro strict) auto
      have r0: "lc (?r x) (?r z) = 0" if "lc (?r x) (?r y) = 0" "lc (?r y) (?r z) = 0"
        using that trans [of "?r x" "?r y" "?r z"] trans [of "?r z" "?r y" "?r x"] zero neg
        by (metis le_less linorder_not_less)
      show ?thesis
        using xy yz r r' r0 trans [of "?w x" "?w y" "?w z"] unfolding le by auto
    qed
  qed
qed

locale collation = consistent_comparator lc for lc :: "ident \<Rightarrow> ident \<Rightarrow> int"

sublocale collation \<subseteq> queue_order: consistent_comparator "compareSchedulerCandidates lc"
  by (rule compareSchedulerCandidates_consistent) unfold_locales

interpretation ident_collation: collation compareIdents
  by unfold_locales

subsection \<open>What a decision depends on\<close>

text \<open>
  A decision reads the candidates only through the first one of each class in queue order:
  \<open>drrPick\<close> is the decision over these heads.
\<close>

definition listHead :: "'a list \<Rightarrow> 'a option" where
  "listHead xs = (case xs of [] \<Rightarrow> None | x # _ \<Rightarrow> Some x)"

definition validPriority :: "int \<Rightarrow> bool" where
  "validPriority p \<longleftrightarrow> 0 \<le> p \<and> p < PRIORITY_CLASS_COUNT"

definition classHead ::
    "(ident \<Rightarrow> ident \<Rightarrow> int) \<Rightarrow> schedulerCandidate list \<Rightarrow> int \<Rightarrow> schedulerCandidate option" where
  "classHead lc cs p =
     listHead (js_sort (compareSchedulerCandidates lc)
       (filter (\<lambda>c. sc_eligible c \<and> sc_priority c = p) cs))"

definition headQueues ::
    "(int \<Rightarrow> schedulerCandidate option) \<Rightarrow> (int, schedulerCandidate list) js_map" where
  "headQueues heads =
     concat (map (\<lambda>p. case heads p of None \<Rightarrow> [] | Some c \<Rightarrow> [(p, [c])]) [0..PRIORITY_CLASS_COUNT - 1])"

definition drrPick ::
    "(int \<Rightarrow> schedulerCandidate option) \<Rightarrow> schedulerState \<Rightarrow> int list \<Rightarrow> schedulerDecision" where
  "drrPick heads state quanta =
     visitClasses [0..PRIORITY_CLASS_COUNT - 1] (headQueues heads) state quanta
       (resetEmpty [0..PRIORITY_CLASS_COUNT - 1] (headQueues heads) (ss_deficits state))"

lemma listHead_simps [simp]:
  "listHead [] = None"
  "listHead (x # xs) = Some x"
  by (simp_all add: listHead_def)

lemma listHead_eq_None [simp]: "listHead xs = None \<longleftrightarrow> xs = []"
  by (cases xs) auto

lemma upto_0_2 [simp]: "[0..2::int] = [0, 1, 2]"
  by (simp add: upto.simps)

lemma assertPriority_eq: "assertPriority p = (if validPriority p then Inr p else Inl BadPriority)"
  by (auto simp: assertPriority_def validPriority_def)

lemma fileCandidates_bad:
  "\<exists>c \<in> set cs. \<not> validPriority (sc_priority c) \<Longrightarrow> fileCandidates cs queues = Inl BadPriority"
  by (induction cs arbitrary: queues) (auto simp: assertPriority_eq Let_def)

lemma fileCandidates_ok:
  assumes "\<forall>c \<in> set cs. validPriority (sc_priority c)"
  obtains filed where "fileCandidates cs queues = Inr filed"
    "\<And>p. js_get filed p =
       (let f = filter (\<lambda>c. sc_eligible c \<and> sc_priority c = p) cs
        in if f = [] then js_get queues p else Some (js_nullish (js_get queues p) [] @ f))"
  using assms
proof (induction cs arbitrary: queues thesis)
  case (Cons c cs)
  show ?case
  proof (cases "sc_eligible c")
    case True
    define queues' where
      "queues' = js_put (sc_priority c) (js_nullish (js_get queues (sc_priority c)) [] @ [c]) queues"
    obtain filed where f: "fileCandidates cs queues' = Inr filed"
      and g: "\<And>p. js_get filed p =
       (let f = filter (\<lambda>c. sc_eligible c \<and> sc_priority c = p) cs
        in if f = [] then js_get queues' p else Some (js_nullish (js_get queues' p) [] @ f))"
      using Cons.IH [of queues'] Cons.prems(2) by auto
    show ?thesis
    proof (rule Cons.prems(1))
      show "fileCandidates (c # cs) queues = Inr filed"
        using True f Cons.prems(2) by (simp add: assertPriority_eq queues'_def Let_def)
    qed (use True in \<open>auto simp: g queues'_def Let_def\<close>)
  next
    case False
    with Cons show ?thesis by (auto simp: assertPriority_eq)
  qed
qed simp

lemma visitClasses_cong:
  assumes "\<And>p. listHead (js_nullish (js_get q p) []) = listHead (js_nullish (js_get q' p) [])"
  shows "visitClasses vs q st quanta ds = visitClasses vs q' st quanta ds"
proof (induction vs arbitrary: ds)
  case (Cons v vs)
  define p where "p = (ss_cursor st + v) mod PRIORITY_CLASS_COUNT"
  show ?case
  proof (cases "js_nullish (js_get q p) []")
    case Nil
    moreover have "js_nullish (js_get q' p) [] = []"
      using assms [of p] Nil by (metis listHead_eq_None)
    ultimately show ?thesis
      using Cons.IH by (simp only: visitClasses.simps Let_def p_def [symmetric] list.simps)
  next
    case (Cons c cs)
    moreover obtain cs' where "js_nullish (js_get q' p) [] = c # cs'"
      using assms [of p] Cons by (cases "js_nullish (js_get q' p) []") auto
    ultimately show ?thesis
      using Cons.IH by (simp only: visitClasses.simps Let_def p_def [symmetric] list.simps)
  qed
qed simp

lemma resetEmpty_cong:
  "(\<And>p. p \<in> set ps \<Longrightarrow> js_has q p = js_has q' p) \<Longrightarrow> resetEmpty ps q ds = resetEmpty ps q' ds"
  by (induction ps arbitrary: ds) auto

lemma headQueues_get:
  "js_get (headQueues heads) p =
     (if validPriority p then map_option (\<lambda>c. [c]) (heads p) else None)"
proof -
  have "validPriority p \<longleftrightarrow> p = 0 \<or> p = 1 \<or> p = 2"
    by (auto simp: validPriority_def)
  then show ?thesis by (auto simp: headQueues_def split: option.splits)
qed

lemma scheduleWeightedDeficitRoundRobin_drrPick:
  "scheduleWeightedDeficitRoundRobin lc cs st quanta =
     (case validateScheduler st quanta of
        Inl e \<Rightarrow> Inl e
      | Inr _ \<Rightarrow> if \<exists>c \<in> set cs. \<not> validPriority (sc_priority c) then Inl BadPriority
                 else Inr (drrPick (classHead lc cs) st quanta))"
proof (cases "\<exists>c \<in> set cs. \<not> validPriority (sc_priority c)")
  case True
  then show ?thesis
    by (auto simp: scheduleWeightedDeficitRoundRobin_def fileCandidates_bad split: sum.splits)
next
  case False
  then obtain filed where filed: "fileCandidates cs [] = Inr filed"
    and get: "\<And>p. js_get filed p =
       (let f = filter (\<lambda>c. sc_eligible c \<and> sc_priority c = p) cs
        in if f = [] then js_get [] p else Some (js_nullish (js_get [] p) [] @ f))"
    using fileCandidates_ok [of cs "[]"] by blast
  define q where "q = map (\<lambda>(p, queue). (p, js_sort (compareSchedulerCandidates lc) queue)) filed"
  have q_get: "js_get q p = map_option (js_sort (compareSchedulerCandidates lc)) (js_get filed p)" for p
    by (simp add: q_def map_of_map)
  have invalid: "filter (\<lambda>c. sc_eligible c \<and> sc_priority c = p) cs = []" if "\<not> validPriority p" for p
    using False that by (auto simp: filter_empty_conv)
  have head: "listHead (js_nullish (js_get q p) []) =
      listHead (js_nullish (js_get (headQueues (classHead lc cs)) p) [])" for p
    using invalid [of p]
    by (auto simp: q_get get headQueues_get classHead_def Let_def listHead_def split: list.splits)
  have has: "js_has q p = js_has (headQueues (classHead lc cs)) p" for p
  proof (cases "filter (\<lambda>c. sc_eligible c \<and> sc_priority c = p) cs")
    case Nil
    then show ?thesis by (simp add: js_has_get q_get get headQueues_get classHead_def)
  next
    case (Cons c l)
    with invalid [of p] have "validPriority p" by auto
    moreover have "classHead lc cs p \<noteq> None"
      unfolding classHead_def Cons listHead_eq_None
      by (metis length_js_sort length_0_conv list.distinct(1))
    ultimately show ?thesis using Cons by (simp add: js_has_get q_get get headQueues_get)
  qed
  have visit: "visitClasses vs q st quanta ds = visitClasses vs (headQueues (classHead lc cs)) st quanta ds"
    for vs ds by (rule visitClasses_cong) (rule head)
  have reset: "resetEmpty ps q ds = resetEmpty ps (headQueues (classHead lc cs)) ds" for ps ds
    by (rule resetEmpty_cong) (rule has)
  show ?thesis
    unfolding scheduleWeightedDeficitRoundRobin_def filed sum.case q_def [symmetric] Let_def
      visit reset drrPick_def [symmetric]
    using False by (simp split: sum.splits)
qed

subsection \<open>Invariant and fairness\<close>

definition schedulerInv :: "int list \<Rightarrow> schedulerState \<Rightarrow> bool" where
  "schedulerInv quanta st \<longleftrightarrow>
     0 \<le> ss_cursor st \<and> ss_cursor st < PRIORITY_CLASS_COUNT \<and>
     length (ss_deficits st) = 3 \<and> length quanta = 3 \<and>
     (\<forall>i < 3. 0 < quanta ! i \<and> 0 \<le> ss_deficits st ! i \<and> ss_deficits st ! i \<le> quanta ! i)"

lemma all_less_3: "(\<forall>i < 3. P i) \<longleftrightarrow> P 0 \<and> P 1 \<and> P (2::nat)"
  by (auto simp: numeral_3_eq_3 less_Suc_eq numeral_2_eq_2)

lemma schedulerInv_shape:
  assumes "schedulerInv quanta st"
  obtains c d0 d1 d2 q0 q1 q2 v where
    "st = \<lparr>ss_cursor = c, ss_deficits = [d0, d1, d2], ss_version = v\<rparr>" "quanta = [q0, q1, q2]"
    "c = 0 \<or> c = 1 \<or> c = 2"
    "0 < q0" "0 < q1" "0 < q2" "0 \<le> d0" "0 \<le> d1" "0 \<le> d2" "d0 \<le> q0" "d1 \<le> q1" "d2 \<le> q2"
proof -
  from assms have "length (ss_deficits st) = 3" "length quanta = 3"
    by (simp_all add: schedulerInv_def)
  then obtain d0 d1 d2 q0 q1 q2 where "ss_deficits st = [d0, d1, d2]" "quanta = [q0, q1, q2]"
    by (auto simp: numeral_3_eq_3 length_Suc_conv)
  moreover from assms have "ss_cursor st = 0 \<or> ss_cursor st = 1 \<or> ss_cursor st = 2"
    by (auto simp: schedulerInv_def)
  ultimately show ?thesis
    using that [of "ss_cursor st" d0 d1 d2 "ss_version st" q0 q1 q2] assms
    by (auto simp: schedulerInv_def all_less_3)
qed

lemma schedulerInv_valid: "schedulerInv quanta st \<Longrightarrow> validateScheduler st quanta = Inr ()"
  by (erule schedulerInv_shape) (auto simp: validateScheduler_def)

definition waitBound :: "int list \<Rightarrow> int \<Rightarrow> schedulerState \<Rightarrow> int" where
  "waitBound quanta p st =
     (let c = ss_cursor st; n = (c + 1) mod 3; d = ss_deficits st ! nat c
      in if c = p then 0
         else (if d < 1 then quanta ! nat c else d) + (if n = p then 0 else quanta ! nat n))"

lemma headQueues_has: "js_has (headQueues heads) p \<longleftrightarrow> validPriority p \<and> heads p \<noteq> None"
  by (simp add: js_has_get headQueues_get)

lemma resetEmpty_heads:
  "resetEmpty [0, 1, 2] (headQueues heads) [d0, d1, d2] =
     [if heads 0 = None then 0 else d0, if heads 1 = None then 0 else d1,
      if heads 2 = None then 0 else d2]"
  by (simp add: headQueues_has validPriority_def nat_numeral)

lemma visitClasses_heads:
  assumes "k = (ss_cursor st + v) mod 3" "length ds = 3" "1 \<le> quanta ! nat k"
  shows "visitClasses (v # vs) (headQueues heads) st quanta ds =
    (case heads k of
       None \<Rightarrow> visitClasses vs (headQueues heads) st quanta ds
     | Some w \<Rightarrow>
         let left = (if ds ! nat k < 1 then quanta ! nat k else ds ! nat k) - 1
         in \<lparr>sd_winner = Some w,
             sd_state = \<lparr>ss_cursor = (if left \<ge> 1 then k else (k + 1) mod 3),
               ss_deficits = ds[nat k := left], ss_version = SCHEDULER_VERSION\<rparr>\<rparr>)"
proof -
  have "0 \<le> k" "k < 3" using assms(1) by auto
  then have "validPriority k" "nat k < length ds" using assms(2) by (auto simp: validPriority_def)
  then show ?thesis
    using assms by (auto simp: headQueues_get Let_def split: option.splits)
qed

text \<open>Class \<open>k\<close> spends one unit of its deficit on \<open>w\<close>.\<close>

definition serveClass :: "int list \<Rightarrow> int list \<Rightarrow> int \<Rightarrow> schedulerCandidate \<Rightarrow> schedulerDecision" where
  "serveClass quanta ds k w =
     (let left = (if ds ! nat k < 1 then quanta ! nat k else ds ! nat k) - 1
      in \<lparr>sd_winner = Some w,
          sd_state = \<lparr>ss_cursor = (if left \<ge> 1 then k else (k + 1) mod 3),
            ss_deficits = ds[nat k := left], ss_version = SCHEDULER_VERSION\<rparr>\<rparr>)"

lemma mod_3_cases: "(i::int) mod 3 = 0 \<or> i mod 3 = 1 \<or> i mod 3 = 2"
  by presburger

lemma resetEmpty_length [simp]: "length (resetEmpty ps q ds) = length ds"
  by (induction ps arbitrary: ds) auto

lemma drrPick_serves:
  assumes inv: "schedulerInv quanta st" and "heads p \<noteq> None" and p: "p = 0 \<or> p = 1 \<or> p = 2"
  defines "c \<equiv> ss_cursor st"
    and "ds \<equiv> resetEmpty [0, 1, 2] (headQueues heads) (ss_deficits st)"
  shows "\<exists>k w. heads k = Some w \<and> drrPick heads st quanta = serveClass quanta ds k w \<and>
     (k = c \<or> heads c = None \<and>
       (k = (c + 1) mod 3 \<or> heads ((c + 1) mod 3) = None \<and> k = (c + 2) mod 3))"
proof -
  have q: "1 \<le> quanta ! nat (i mod 3)" for i
    using inv mod_3_cases [of i] by (auto simp: schedulerInv_def all_less_3)
  have c: "c = 0 \<or> c = 1 \<or> c = 2"
    using inv by (auto simp: schedulerInv_def c_def)
  have len: "length ds = 3" using inv by (simp add: ds_def schedulerInv_def)
  have visit: "visitClasses (v # vs) (headQueues heads) st quanta ds =
    (case heads ((c + v) mod 3) of
       None \<Rightarrow> visitClasses vs (headQueues heads) st quanta ds
     | Some w \<Rightarrow> serveClass quanta ds ((c + v) mod 3) w)" for v vs
    unfolding serveClass_def c_def by (rule visitClasses_heads [OF refl len q])
  have pick: "drrPick heads st quanta = visitClasses [0, 1, 2] (headQueues heads) st quanta ds"
    by (simp only: drrPick_def ds_def PRIORITY_CLASS_COUNT_eq) simp
  have c0: "(c + 0) mod 3 = c" using c by auto
  have "heads c \<noteq> None \<or> heads ((c + 1) mod 3) \<noteq> None \<or> heads ((c + 2) mod 3) \<noteq> None"
    using c p assms(2) by auto
  then show ?thesis
    unfolding pick visit c0 by (auto split: option.splits)
qed

lemma serveClass_step:
  assumes inv: "schedulerInv quanta st" and k: "heads k = Some w"
    and near: "k = ss_cursor st \<or> heads (ss_cursor st) = None \<and>
       (k = (ss_cursor st + 1) mod 3 \<or>
        heads ((ss_cursor st + 1) mod 3) = None \<and> k = (ss_cursor st + 2) mod 3)"
    and p: "p = 0 \<or> p = 1 \<or> p = 2" and some: "heads p \<noteq> None"
  defines "ds \<equiv> resetEmpty [0, 1, 2] (headQueues heads) (ss_deficits st)"
  defines "st' \<equiv> sd_state (serveClass quanta ds k w)"
  shows "schedulerInv quanta st' \<and> (k = p \<or> waitBound quanta p st' < waitBound quanta p st)"
  using inv
proof (rule schedulerInv_shape)
  fix c d0 d1 d2 q0 q1 q2 v
  assume st: "st = \<lparr>ss_cursor = c, ss_deficits = [d0, d1, d2], ss_version = v\<rparr>"
    and quanta: "quanta = [q0, q1, q2]" and c: "c = 0 \<or> c = 1 \<or> c = 2"
    and pos: "0 < q0" "0 < q1" "0 < q2" "0 \<le> d0" "0 \<le> d1" "0 \<le> d2" "d0 \<le> q0" "d1 \<le> q1" "d2 \<le> q2"
  have ds: "ds = [if heads 0 = None then 0 else d0, if heads 1 = None then 0 else d1,
      if heads 2 = None then 0 else d2]"
    unfolding ds_def st schedulerState.simps by (rule resetEmpty_heads)
  show ?thesis
    using c p some k near pos unfolding st'_def ds st quanta schedulerState.simps
    by (elim disjE conjE)
      (simp_all add: serveClass_def waitBound_def schedulerInv_def all_less_3 Let_def nat_numeral)
qed

lemma waitBound_bounds:
  assumes "schedulerInv quanta st" "p = 0 \<or> p = 1 \<or> p = 2"
  shows "0 \<le> waitBound quanta p st" "waitBound quanta p st \<le> sum_list quanta - quanta ! nat p"
  using assms
  by (auto elim!: schedulerInv_shape simp: waitBound_def Let_def nat_numeral)

lemma listHead_in_set: "listHead xs = Some x \<Longrightarrow> x \<in> set xs"
  by (cases xs) auto

lemma classHead_priority:
  "classHead lc cs k = Some c \<Longrightarrow> c \<in> set cs \<and> sc_eligible c \<and> sc_priority c = k"
  unfolding classHead_def by (drule listHead_in_set) simp

lemma classHead_None: "classHead lc cs k = None \<longleftrightarrow> (\<forall>c \<in> set cs. \<not> (sc_eligible c \<and> sc_priority c = k))"
proof -
  have "classHead lc cs k = None \<longleftrightarrow> filter (\<lambda>c. sc_eligible c \<and> sc_priority c = k) cs = []"
    unfolding classHead_def listHead_eq_None by (metis length_0_conv length_js_sort)
  then show ?thesis by (simp add: filter_empty_conv)
qed

lemma schedule_serves:
  assumes inv: "schedulerInv quanta st"
    and valid: "\<forall>c \<in> set cs. validPriority (sc_priority c)"
    and waiting: "\<exists>c \<in> set cs. sc_eligible c \<and> sc_priority c = p"
  obtains d w where "scheduleWeightedDeficitRoundRobin lc cs st quanta = Inr d"
    "sd_winner d = Some w" "classHead lc cs (sc_priority w) = Some w"
    "schedulerInv quanta (sd_state d)"
    "sc_priority w = p \<or> waitBound quanta p (sd_state d) < waitBound quanta p st"
proof -
  let ?heads = "classHead lc cs"
  define ds where "ds = resetEmpty [0, 1, 2] (headQueues ?heads) (ss_deficits st)"
  have some: "?heads p \<noteq> None" using waiting by (auto simp: classHead_None)
  have p: "p = 0 \<or> p = 1 \<or> p = 2"
    using waiting valid by (auto simp: validPriority_def)
  obtain k w where k: "?heads k = Some w" and pick: "drrPick ?heads st quanta = serveClass quanta ds k w"
    and near: "k = ss_cursor st \<or> ?heads (ss_cursor st) = None \<and>
       (k = (ss_cursor st + 1) mod 3 \<or>
        ?heads ((ss_cursor st + 1) mod 3) = None \<and> k = (ss_cursor st + 2) mod 3)"
    using drrPick_serves [of quanta st ?heads p] inv some p unfolding ds_def by blast
  have eq: "scheduleWeightedDeficitRoundRobin lc cs st quanta = Inr (serveClass quanta ds k w)"
    using valid by (auto simp: scheduleWeightedDeficitRoundRobin_drrPick schedulerInv_valid [OF inv] pick)
  have "schedulerInv quanta (sd_state (serveClass quanta ds k w))"
    "k = p \<or> waitBound quanta p (sd_state (serveClass quanta ds k w)) < waitBound quanta p st"
    using serveClass_step [OF inv k near p some] unfolding ds_def by blast+
  moreover have "sd_winner (serveClass quanta ds k w) = Some w"
    by (simp add: serveClass_def Let_def)
  ultimately show thesis
    using that [OF eq] classHead_priority [OF k] k by auto
qed

text \<open>Successive decisions on one capacity, each from the state the last one left.\<close>

fun scheduleRun ::
    "(ident \<Rightarrow> ident \<Rightarrow> int) \<Rightarrow> int list \<Rightarrow> schedulerState \<Rightarrow> schedulerCandidate list list \<Rightarrow>
     schedError + schedulerCandidate option list" where
  "scheduleRun lc quanta st [] = Inr []"
| "scheduleRun lc quanta st (cs # css) =
     (case scheduleWeightedDeficitRoundRobin lc cs st quanta of
        Inl e \<Rightarrow> Inl e
      | Inr d \<Rightarrow> map_sum id (\<lambda>ws. sd_winner d # ws) (scheduleRun lc quanta (sd_state d) css))"

lemma scheduleRun_serves:
  assumes "schedulerInv quanta st" and p: "p = 0 \<or> p = 1 \<or> p = 2"
    and "\<And>cs. cs \<in> set css \<Longrightarrow> (\<forall>c \<in> set cs. validPriority (sc_priority c)) \<and>
           (\<exists>c \<in> set cs. sc_eligible c \<and> sc_priority c = p)"
  shows "\<exists>ws. scheduleRun lc quanta st css = Inr ws \<and> length ws = length css \<and>
     (waitBound quanta p st < int (length css) \<longrightarrow> (\<exists>w. Some w \<in> set ws \<and> sc_priority w = p))"
  using assms(1,3)
proof (induction css arbitrary: st)
  case Nil
  then show ?case using waitBound_bounds(1) [OF Nil.prems(1) p] by simp
next
  case (Cons cs css)
  obtain d w where d: "scheduleWeightedDeficitRoundRobin lc cs st quanta = Inr d"
    "sd_winner d = Some w" "schedulerInv quanta (sd_state d)"
    "sc_priority w = p \<or> waitBound quanta p (sd_state d) < waitBound quanta p st"
    by (rule schedule_serves [OF Cons.prems(1), of cs p lc]) (use Cons.prems(2) [of cs] in auto)
  obtain ws where "scheduleRun lc quanta (sd_state d) css = Inr ws" "length ws = length css"
    "waitBound quanta p (sd_state d) < int (length css) \<longrightarrow> (\<exists>w. Some w \<in> set ws \<and> sc_priority w = p)"
    using Cons.IH [OF d(3)] Cons.prems(2) by (meson list.set_intros(2))
  with d show ?case by auto
qed

text \<open>
  C2: no priority class starves. From any well-formed state, if every decision of a run has an
  eligible candidate of class \<open>p\<close>, no decision throws and one of the first
  \<open>sum of the other classes' quanta + 1\<close> decisions goes to class \<open>p\<close>, whatever else is waiting.
\<close>

theorem drr_bounded_wait:
  assumes "schedulerInv quanta st" and "validPriority p"
    and "\<And>cs. cs \<in> set css \<Longrightarrow> (\<forall>c \<in> set cs. validPriority (sc_priority c)) \<and>
           (\<exists>c \<in> set cs. sc_eligible c \<and> sc_priority c = p)"
    and "int (length css) > sum_list quanta - quanta ! nat p"
  shows "\<exists>ws. scheduleRun lc quanta st css = Inr ws \<and> length ws = length css \<and>
     (\<exists>w. Some w \<in> set ws \<and> sc_priority w = p)"
proof -
  have p: "p = 0 \<or> p = 1 \<or> p = 2" using assms(2) by (auto simp: validPriority_def)
  show ?thesis
    using scheduleRun_serves [OF assms(1) p assms(3), where lc = lc]
      waitBound_bounds(2) [OF assms(1) p] assms(4) by force
qed

definition demoCandidate :: "ident \<Rightarrow> int \<Rightarrow> int \<Rightarrow> schedulerCandidate" where
  "demoCandidate w p s =
     \<lparr>sc_admissionRequestId = w, sc_waiterId = w, sc_candidateOrder = 0, sc_priority = p,
      sc_enqueueSequence = s, sc_eligible = True\<rparr>"

definition demoState :: schedulerState where
  "demoState = \<lparr>ss_cursor = 1, ss_deficits = [0, 0, 0], ss_version = SCHEDULER_VERSION\<rparr>"

lemma demoState_inv: "schedulerInv PRIORITY_CLASS_QUANTA demoState"
  by (simp add: schedulerInv_def demoState_def PRIORITY_CLASS_QUANTA_def all_less_3)

theorem drr_bounded_wait_witness:
  "\<exists>ws. scheduleRun compareIdents PRIORITY_CLASS_QUANTA demoState
       (replicate 21 [demoCandidate ''a'' 2 1, demoCandidate ''b'' 1 2, demoCandidate ''c'' 0 3]) =
     Inr ws \<and> length ws = 21 \<and> (\<exists>w. Some w \<in> set ws \<and> sc_priority w = 0)"
  using drr_bounded_wait [of PRIORITY_CLASS_QUANTA demoState 0
      "replicate 21 [demoCandidate ''a'' 2 1, demoCandidate ''b'' 1 2, demoCandidate ''c'' 0 3]"
      compareIdents] demoState_inv
  by (simp add: validPriority_def demoCandidate_def PRIORITY_CLASS_QUANTA_def)

context collation
begin

lemma classHead_first:
  assumes "classHead lc cs p = Some w" "c \<in> set cs" "sc_eligible c" "sc_priority c = p"
  shows "compareSchedulerCandidates lc w c \<le> 0"
proof -
  let ?q = "js_sort (compareSchedulerCandidates lc) (filter (\<lambda>c. sc_eligible c \<and> sc_priority c = p) cs)"
  obtain rest where q: "?q = w # rest"
    using assms(1) by (cases ?q) (auto simp: classHead_def)
  have "queue_order.ordered (w # rest)"
    using queue_order.ordered_js_sort unfolding q [symmetric] .
  moreover have "c \<in> set (w # rest)"
    using assms unfolding q [symmetric] by simp
  ultimately show ?thesis
    using queue_order.cmp_refl [of w] by auto
qed

end

text \<open>
  C3: a decision is work conserving, first come first served within a class, and keeps the state
  well formed: when any valid candidate is eligible, an eligible one wins, no eligible candidate of
  the winner's class precedes it in queue order, and the state written back satisfies the
  invariant again.
\<close>

theorem drr_fifo_within_class:
  assumes "consistent_comparator lc" "schedulerInv quanta st"
    and "\<forall>c \<in> set cs. validPriority (sc_priority c)" "\<exists>c \<in> set cs. sc_eligible c"
  shows "\<exists>w st'. scheduleWeightedDeficitRoundRobin lc cs st quanta =
      Inr \<lparr>sd_winner = Some w, sd_state = st'\<rparr> \<and> w \<in> set cs \<and> sc_eligible w \<and> schedulerInv quanta st' \<and>
      (\<forall>c \<in> set cs. sc_eligible c \<longrightarrow> sc_priority c = sc_priority w \<longrightarrow>
         compareSchedulerCandidates lc w c \<le> 0)"
proof -
  obtain p where p: "\<exists>c \<in> set cs. sc_eligible c \<and> sc_priority c = p"
    using assms(4) by auto
  obtain d w where d: "scheduleWeightedDeficitRoundRobin lc cs st quanta = Inr d"
    "sd_winner d = Some w" "classHead lc cs (sc_priority w) = Some w" "schedulerInv quanta (sd_state d)"
    by (rule schedule_serves [OF assms(2,3) p, of lc]) auto
  have "d = \<lparr>sd_winner = Some w, sd_state = sd_state d\<rparr>"
    using d(2) by (cases d) simp
  moreover have "\<forall>c \<in> set cs. sc_eligible c \<longrightarrow> sc_priority c = sc_priority w \<longrightarrow>
      compareSchedulerCandidates lc w c \<le> 0"
    using collation.classHead_first [OF collation.intro [OF assms(1)] d(3)] by blast
  ultimately show ?thesis
    using d(1,4) classHead_priority [OF d(3)] by metis
qed

theorem drr_fifo_within_class_witness:
  "\<exists>w st'. scheduleWeightedDeficitRoundRobin compareIdents
        [demoCandidate ''a'' 2 7, demoCandidate ''b'' 2 2, demoCandidate ''c'' 0 3] demoState
        PRIORITY_CLASS_QUANTA = Inr \<lparr>sd_winner = Some w, sd_state = st'\<rparr> \<and>
      schedulerInv PRIORITY_CLASS_QUANTA st'"
  using drr_fifo_within_class [OF ident_order.consistent_comparator_axioms demoState_inv,
      of "[demoCandidate ''a'' 2 7, demoCandidate ''b'' 2 2, demoCandidate ''c'' 0 3]"]
  by (auto simp: validPriority_def demoCandidate_def)

end
