(* ===== verification/AdmissionReference.thy ===== *)
theory AdmissionReference
  imports Scheduler
begin

text \<open>
  Who gets a free slot of a physical capacity: the data of the admission planner
  (\<^verbatim>\<open>apps/server/src/model-api/capacity/admission-planner.ts\<close>), the direct statement of its
  rules (\<^verbatim>\<open>admission-planner.reference.ts\<close>), and the abstract admission rules that every
  plan is shown to obey.

  \<^verbatim>\<open>Number.POSITIVE_INFINITY\<close> as the default of \<^verbatim>\<open>maxGrants\<close> is the absence of a bound.
  Candidate objects are compared by identity in the code; waiter ids are primary keys, so the
  model compares the records.
\<close>

subsection \<open>Data\<close>

record plannerWaiter =
  pw_waiterId :: ident
  pw_admissionRequestId :: ident
  pw_candidateOrder :: int
  pw_enqueueSequence :: int
  pw_priority :: int
  pw_notBefore :: "millis option"
  pw_deadlineAt :: "millis option"
  pw_requestDeadlineAt :: "millis option"
  pw_ownerKey :: ident
  pw_scopeLimits :: "(ident \<times> int) list"
  pw_borrowReserved :: bool
  pw_leaseScopeKeys :: "ident list"

record admissionSnapshot =
  as_capacityLimit :: "int option"
  as_active :: int
  as_activeByOwner :: "(ident, int) js_map"
  as_reservationsByOwner :: "(ident, int) js_map"
  as_scopeActive :: "(ident, int) js_map"
  as_waiters :: "plannerWaiter list"
  as_scheduler :: schedulerState

record plannerOptions =
  po_requestId :: "ident option"
  po_creatingRequestId :: "ident option"
  po_lastChanceWaiterIds :: "ident list"
  po_maxGrants :: "int option"

record plannedGrant =
  pg_waiterId :: ident
  pg_admissionRequestId :: ident
  pg_borrowed :: bool
  pg_reservationClass :: int
  pg_schedulerAfter :: schedulerState

datatype stoppedBy = StopRequested | StopNone | StopLimit | StopMaxGrants | StopProgress

record grantPlan =
  gp_grants :: "plannedGrant list"
  gp_scheduler :: schedulerState
  gp_stoppedBy :: stoppedBy

record entry =
  en_waiter :: plannerWaiter
  en_candidate :: schedulerCandidate

subsection \<open>The tests both planners share\<close>

definition inWindow :: "plannerWaiter \<Rightarrow> millis \<Rightarrow> ident option \<Rightarrow> ident js_set \<Rightarrow> bool" where
  "inWindow waiter now creatingRequestId lastChance =
     (let creating = (creatingRequestId = Some (pw_admissionRequestId waiter));
          waiterOpen =
            (case pw_deadlineAt waiter of
               None \<Rightarrow> True
             | Some deadlineAt \<Rightarrow>
                 deadlineAt > now \<or> creating \<and> deadlineAt \<ge> now \<or>
                 pw_waiterId waiter \<in> set lastChance);
          requestOpen =
            (case pw_requestDeadlineAt waiter of
               None \<Rightarrow> True
             | Some requestDeadlineAt \<Rightarrow> requestDeadlineAt > now \<or> creating)
      in waiterOpen \<and> requestOpen)"

definition notBeforePassed :: "millis \<Rightarrow> plannerWaiter \<Rightarrow> bool" where
  "notBeforePassed now waiter =
     (case pw_notBefore waiter of None \<Rightarrow> True | Some notBefore \<Rightarrow> notBefore \<le> now)"

definition toEntry :: "plannerWaiter \<Rightarrow> entry" where
  "toEntry waiter =
     \<lparr>en_waiter = waiter,
      en_candidate =
        \<lparr>sc_admissionRequestId = pw_admissionRequestId waiter,
         sc_waiterId = pw_waiterId waiter,
         sc_candidateOrder = pw_candidateOrder waiter,
         sc_priority = pw_priority waiter,
         sc_enqueueSequence = pw_enqueueSequence waiter,
         sc_eligible = True\<rparr>\<rparr>"

definition compareEntries :: "(ident \<Rightarrow> ident \<Rightarrow> int) \<Rightarrow> entry \<Rightarrow> entry \<Rightarrow> int" where
  "compareEntries lc a b = compareSchedulerCandidates lc (en_candidate a) (en_candidate b)"

definition scopeHasRoom :: "(ident, int) js_map \<Rightarrow> plannerWaiter \<Rightarrow> bool" where
  "scopeHasRoom scopeActive waiter =
     list_all (\<lambda>(key, limit). js_nullish (js_get scopeActive key) 0 < limit) (pw_scopeLimits waiter)"

definition MAX_SAFE_INTEGER :: int where
  "MAX_SAFE_INTEGER = 9007199254740991"

text \<open>
  Whether a grant takes a slot another owner keeps, from the owner's own unmet reservation and
  the total of the unmet ones.
\<close>

definition takesKeptSlot :: "int option \<Rightarrow> int \<Rightarrow> int \<Rightarrow> int \<Rightarrow> bool" where
  "takesKeptSlot limit active ownerRemaining reservedRemainingTotal =
     (let reservedForOthers =
            min (js_nullish limit MAX_SAFE_INTEGER) (reservedRemainingTotal - ownerRemaining)
      in case limit of
           None \<Rightarrow> False
         | Some l \<Rightarrow> ownerRemaining = 0 \<and> reservedForOthers > 0 \<and> l - active \<le> reservedForOthers)"

text \<open>\<^verbatim>\<open>scopeActive\<close> after a grant: the counts of the keys it already has grow by one each.\<close>

fun bumpScopes :: "ident list \<Rightarrow> (ident, int) js_map \<Rightarrow> (ident, int) js_map" where
  "bumpScopes [] scopeActive = scopeActive"
| "bumpScopes (key # keys) scopeActive =
     bumpScopes keys
       (if js_has scopeActive key
        then js_put key (js_nullish (js_get scopeActive key) 0 + 1) scopeActive
        else scopeActive)"

subsection \<open>The reference planner\<close>

record refState =
  rs_entries :: "entry list"
  rs_active :: int
  rs_activeByOwner :: "(ident, int) js_map"
  rs_scopeActive :: "(ident, int) js_map"
  rs_scheduler :: schedulerState
  rs_grants :: "plannedGrant list"

definition ownerActive :: "(ident, int) js_map \<Rightarrow> ident \<Rightarrow> int" where
  "ownerActive activeByOwner owner = js_nullish (js_get activeByOwner owner) 0"

definition ownerRemaining :: "(ident, int) js_map \<Rightarrow> (ident, int) js_map \<Rightarrow> ident \<Rightarrow> int" where
  "ownerRemaining reservations activeByOwner owner =
     max 0 (js_nullish (js_get reservations owner) 0 - ownerActive activeByOwner owner)"

definition refReservedTotal :: "(ident, int) js_map \<Rightarrow> (ident, int) js_map \<Rightarrow> int" where
  "refReservedTotal reservations activeByOwner =
     sum_list (map (ownerRemaining reservations activeByOwner) (js_keys reservations))"

fun refNeedyOwners ::
    "(ident, int) js_map \<Rightarrow> millis \<Rightarrow> refState \<Rightarrow> entry list \<Rightarrow> ident js_set \<Rightarrow> ident js_set" where
  "refNeedyOwners reservations now st [] needy = needy"
| "refNeedyOwners reservations now st (e # es) needy =
     (let owner = pw_ownerKey (en_waiter e)
      in if \<not> notBeforePassed now (en_waiter e) then refNeedyOwners reservations now st es needy
         else if js_nullish (js_get reservations owner) 0 \<le> ownerActive (rs_activeByOwner st) owner
           then refNeedyOwners reservations now st es needy
         else if \<not> scopeHasRoom (rs_scopeActive st) (en_waiter e)
           then refNeedyOwners reservations now st es needy
         else refNeedyOwners reservations now st es (js_add owner needy))"

definition waitingBesides :: "ident js_set \<Rightarrow> ident \<Rightarrow> bool" where
  "waitingBesides needyOwners ownerKey = list_ex (\<lambda>owner. owner \<noteq> ownerKey) needyOwners"

fun refEligible ::
    "admissionSnapshot \<Rightarrow> millis \<Rightarrow> refState \<Rightarrow> ident js_set \<Rightarrow> entry list \<Rightarrow> (entry \<times> bool) list" where
  "refEligible snap now st needy [] = []"
| "refEligible snap now st needy (e # es) =
     (let waiter = en_waiter e;
          reservations = as_reservationsByOwner snap;
          borrowed = takesKeptSlot (as_capacityLimit snap) (rs_active st)
            (ownerRemaining reservations (rs_activeByOwner st) (pw_ownerKey waiter))
            (refReservedTotal reservations (rs_activeByOwner st))
      in if \<not> notBeforePassed now waiter then refEligible snap now st needy es
         else if \<not> scopeHasRoom (rs_scopeActive st) waiter then refEligible snap now st needy es
         else if borrowed \<and> waitingBesides needy (pw_ownerKey waiter)
           then refEligible snap now st needy es
         else if borrowed \<and> \<not> pw_borrowReserved waiter then refEligible snap now st needy es
         else (e, borrowed) # refEligible snap now st needy es)"

text \<open>\<^verbatim>\<open>borrowedByWaiter\<close>: the last entry of a waiter id sets its value.\<close>

definition borrowedByWaiter :: "(entry \<times> bool) list \<Rightarrow> (ident, bool) js_map" where
  "borrowedByWaiter eligible =
     foldl (\<lambda>m (e, borrowed). js_put (pw_waiterId (en_waiter e)) borrowed m) [] eligible"

definition grantOf :: "entry \<Rightarrow> (entry \<times> bool) list \<Rightarrow> schedulerState \<Rightarrow> plannedGrant" where
  "grantOf winner eligible after =
     \<lparr>pg_waiterId = pw_waiterId (en_waiter winner),
      pg_admissionRequestId = pw_admissionRequestId (en_waiter winner),
      pg_borrowed = js_nullish (js_get (borrowedByWaiter eligible) (pw_waiterId (en_waiter winner))) False,
      pg_reservationClass = pw_priority (en_waiter winner),
      pg_schedulerAfter = after\<rparr>"

datatype 's planStep =
    PlanThrow schedError
  | PlanStop stoppedBy 's
  | PlanNext 's

definition refApply :: "refState \<Rightarrow> entry \<Rightarrow> (entry \<times> bool) list \<Rightarrow> schedulerState \<Rightarrow> refState" where
  "refApply st winner eligible after =
     (let w = en_waiter winner; owner = pw_ownerKey w
      in \<lparr>rs_entries =
            filter (\<lambda>e. pw_admissionRequestId (en_waiter e) \<noteq> pw_admissionRequestId w) (rs_entries st),
          rs_active = rs_active st + 1,
          rs_activeByOwner =
            js_put owner (ownerActive (rs_activeByOwner st) owner + 1) (rs_activeByOwner st),
          rs_scopeActive = bumpScopes (pw_leaseScopeKeys w) (rs_scopeActive st),
          rs_scheduler = after,
          rs_grants = rs_grants st @ [grantOf winner eligible after]\<rparr>)"

definition refStep ::
    "(ident \<Rightarrow> ident \<Rightarrow> int) \<Rightarrow> admissionSnapshot \<Rightarrow> millis \<Rightarrow> plannerOptions \<Rightarrow> refState \<Rightarrow>
     refState planStep" where
  "refStep lc snap now options st =
     (if reaches (int (length (rs_grants st))) (po_maxGrants options) then PlanStop StopMaxGrants st
      else if reaches (rs_active st) (as_capacityLimit snap) then PlanStop StopLimit st
      else if rs_entries st = [] then PlanStop StopNone st
      else
        let needy = refNeedyOwners (as_reservationsByOwner snap) now st (rs_entries st) [];
            eligible = refEligible snap now st needy (rs_entries st)
        in if eligible = [] then PlanStop StopNone st
           else (case scheduleWeightedDeficitRoundRobin lc (map (en_candidate \<circ> fst) eligible)
                        (rs_scheduler st) defaultPriorityQuanta of
                   Inl err \<Rightarrow> PlanThrow err
                 | Inr decision \<Rightarrow>
                     (case Option.bind (sd_winner decision)
                             (\<lambda>c. find (\<lambda>e. en_candidate e = c) (map fst eligible)) of
                        None \<Rightarrow> PlanStop StopNone st
                      | Some winner \<Rightarrow>
                          let st' = refApply st winner eligible (sd_state decision)
                          in if po_requestId options = Some (pw_admissionRequestId (en_waiter winner))
                             then PlanStop StopRequested st' else PlanNext st')))"

definition refPlan :: "refState \<Rightarrow> stoppedBy \<Rightarrow> grantPlan" where
  "refPlan st why =
     \<lparr>gp_grants = rs_grants st, gp_scheduler = rs_scheduler st, gp_stoppedBy = why\<rparr>"

fun refLoop ::
    "(ident \<Rightarrow> ident \<Rightarrow> int) \<Rightarrow> admissionSnapshot \<Rightarrow> millis \<Rightarrow> plannerOptions \<Rightarrow> nat \<Rightarrow> refState \<Rightarrow>
     schedError + grantPlan" where
  "refLoop lc snap now options 0 st = Inr (refPlan st StopProgress)"
| "refLoop lc snap now options (Suc steps) st =
     (case refStep lc snap now options st of
        PlanThrow err \<Rightarrow> Inl err
      | PlanStop why st' \<Rightarrow> Inr (refPlan st' why)
      | PlanNext st' \<Rightarrow> refLoop lc snap now options steps st')"

definition refInit ::
    "(ident \<Rightarrow> ident \<Rightarrow> int) \<Rightarrow> admissionSnapshot \<Rightarrow> millis \<Rightarrow> plannerOptions \<Rightarrow> refState" where
  "refInit lc snap now options =
     \<lparr>rs_entries =
        js_sort (compareEntries lc)
          (map toEntry
            (filter (\<lambda>w. inWindow w now (po_creatingRequestId options) (po_lastChanceWaiterIds options))
              (as_waiters snap))),
      rs_active = as_active snap,
      rs_activeByOwner = as_activeByOwner snap,
      rs_scopeActive = as_scopeActive snap,
      rs_scheduler = as_scheduler snap,
      rs_grants = []\<rparr>"

definition referencePlanGrants ::
    "(ident \<Rightarrow> ident \<Rightarrow> int) \<Rightarrow> admissionSnapshot \<Rightarrow> millis \<Rightarrow> plannerOptions \<Rightarrow> schedError + grantPlan" where
  "referencePlanGrants lc snap now options =
     refLoop lc snap now options (length (as_waiters snap) + 1) (refInit lc snap now options)"

subsection \<open>The admission rules\<close>

text \<open>
  The rules as the documentation of the planner states them, over the waiters granted so far
  (\<open>pre\<close>, in the order of their grants).
\<close>

definition afterOwner :: "admissionSnapshot \<Rightarrow> plannerWaiter list \<Rightarrow> ident \<Rightarrow> int" where
  "afterOwner snap pre owner =
     ownerActive (as_activeByOwner snap) owner +
     int (length (filter (\<lambda>w. pw_ownerKey w = owner) pre))"

definition afterScope :: "admissionSnapshot \<Rightarrow> plannerWaiter list \<Rightarrow> ident \<Rightarrow> int" where
  "afterScope snap pre key =
     (case js_get (as_scopeActive snap) key of
        None \<Rightarrow> 0
      | Some n \<Rightarrow> n + int (sum_list (map (\<lambda>w. count_list (pw_leaseScopeKeys w) key) pre)))"

definition unmetAfter :: "admissionSnapshot \<Rightarrow> plannerWaiter list \<Rightarrow> ident \<Rightarrow> int" where
  "unmetAfter snap pre owner =
     max 0 (js_nullish (js_get (as_reservationsByOwner snap) owner) 0 - afterOwner snap pre owner)"

definition unmetOthers :: "admissionSnapshot \<Rightarrow> plannerWaiter list \<Rightarrow> ident \<Rightarrow> int" where
  "unmetOthers snap pre owner =
     sum_list (map (unmetAfter snap pre) (js_keys (as_reservationsByOwner snap))) -
     unmetAfter snap pre owner"

definition liveWaiter ::
    "admissionSnapshot \<Rightarrow> millis \<Rightarrow> plannerOptions \<Rightarrow> plannerWaiter list \<Rightarrow> plannerWaiter \<Rightarrow> bool" where
  "liveWaiter snap now options pre w \<longleftrightarrow>
     w \<in> set (as_waiters snap) \<and>
     inWindow w now (po_creatingRequestId options) (po_lastChanceWaiterIds options) \<and>
     notBeforePassed now w \<and>
     pw_admissionRequestId w \<notin> pw_admissionRequestId ` set pre \<and>
     (\<forall>(key, limit) \<in> set (pw_scopeLimits w). afterScope snap pre key < limit)"

definition borrowsAfter :: "admissionSnapshot \<Rightarrow> plannerWaiter list \<Rightarrow> plannerWaiter \<Rightarrow> bool" where
  "borrowsAfter snap pre w \<longleftrightarrow>
     (\<exists>limit. as_capacityLimit snap = Some limit \<and> unmetAfter snap pre (pw_ownerKey w) = 0 \<and>
        0 < min limit (unmetOthers snap pre (pw_ownerKey w)) \<and>
        limit - (as_active snap + int (length pre)) \<le> min limit (unmetOthers snap pre (pw_ownerKey w)))"

definition mayGrant ::
    "admissionSnapshot \<Rightarrow> millis \<Rightarrow> plannerOptions \<Rightarrow> plannerWaiter list \<Rightarrow> plannerWaiter \<Rightarrow> bool" where
  "mayGrant snap now options pre w \<longleftrightarrow>
     liveWaiter snap now options pre w \<and>
     (borrowsAfter snap pre w \<longrightarrow>
        pw_borrowReserved w \<and>
        \<not> (\<exists>w'. liveWaiter snap now options pre w' \<and> 0 < unmetAfter snap pre (pw_ownerKey w') \<and>
              pw_ownerKey w' \<noteq> pw_ownerKey w))"

text \<open>One admissible grant after another: every step obeys the rules at its moment.\<close>

inductive admitted ::
    "(ident \<Rightarrow> ident \<Rightarrow> int) \<Rightarrow> admissionSnapshot \<Rightarrow> millis \<Rightarrow> plannerOptions \<Rightarrow>
     plannerWaiter list \<Rightarrow> plannedGrant list \<Rightarrow> bool"
  for lc snap now options where
    admitted_Nil: "admitted lc snap now options [] []"
  | admitted_grant:
      "admitted lc snap now options pre gs \<Longrightarrow>
       \<not> reaches (as_active snap + int (length pre)) (as_capacityLimit snap) \<Longrightarrow>
       \<not> reaches (int (length pre)) (po_maxGrants options) \<Longrightarrow>
       mayGrant snap now options pre w \<Longrightarrow>
       (\<And>w'. mayGrant snap now options pre w' \<Longrightarrow> pw_priority w' = pw_priority w \<Longrightarrow>
          compareEntries lc (toEntry w) (toEntry w') \<le> 0) \<Longrightarrow>
       pg_waiterId g = pw_waiterId w \<Longrightarrow>
       pg_admissionRequestId g = pw_admissionRequestId w \<Longrightarrow>
       pg_reservationClass g = pw_priority w \<Longrightarrow>
       pg_borrowed g = borrowsAfter snap pre w \<Longrightarrow>
       admitted lc snap now options (pre @ [w]) (gs @ [g])"

definition wfSnapshot :: "admissionSnapshot \<Rightarrow> bool" where
  "wfSnapshot snap \<longleftrightarrow>
     distinct (map pw_waiterId (as_waiters snap)) \<and>
     js_map_ok (as_reservationsByOwner snap) \<and>
     (\<forall>(owner, n) \<in> set (as_activeByOwner snap). 0 \<le> n)"

definition validSnapshot :: "admissionSnapshot \<Rightarrow> bool" where
  "validSnapshot snap \<longleftrightarrow>
     wfSnapshot snap \<and> schedulerInv PRIORITY_CLASS_QUANTA (as_scheduler snap) \<and>
     (\<forall>w \<in> set (as_waiters snap). validPriority (pw_priority w))"

subsection \<open>A state of the reference planner after some grants\<close>

definition refAt ::
    "(ident \<Rightarrow> ident \<Rightarrow> int) \<Rightarrow> admissionSnapshot \<Rightarrow> millis \<Rightarrow> plannerOptions \<Rightarrow>
     plannerWaiter list \<Rightarrow> refState \<Rightarrow> bool" where
  "refAt lc snap now options pre st \<longleftrightarrow>
     rs_entries st =
       filter (\<lambda>e. pw_admissionRequestId (en_waiter e) \<notin> pw_admissionRequestId ` set pre)
         (rs_entries (refInit lc snap now options)) \<and>
     rs_active st = as_active snap + int (length pre) \<and>
     (\<forall>owner. ownerActive (rs_activeByOwner st) owner = afterOwner snap pre owner) \<and>
     (\<forall>key. js_nullish (js_get (rs_scopeActive st) key) 0 = afterScope snap pre key \<and>
        js_has (rs_scopeActive st) key = js_has (as_scopeActive snap) key)"

lemma en_toEntry [simp]:
  "en_waiter (toEntry w) = w"
  "sc_admissionRequestId (en_candidate (toEntry w)) = pw_admissionRequestId w"
  "sc_waiterId (en_candidate (toEntry w)) = pw_waiterId w"
  "sc_priority (en_candidate (toEntry w)) = pw_priority w"
  "sc_eligible (en_candidate (toEntry w)) = True"
  by (simp_all add: toEntry_def)

lemma bumpScopes_has [simp]: "js_has (bumpScopes keys m) key = js_has m key"
  by (induction keys arbitrary: m) auto

lemma bumpScopes_get:
  "js_nullish (js_get (bumpScopes keys m) key) 0 =
     (case js_get m key of None \<Rightarrow> 0 | Some n \<Rightarrow> n + int (count_list keys key))"
  by (induction keys arbitrary: m) (auto simp: js_has_get split: option.splits)

lemma refAt_init: "refAt lc snap now options [] (refInit lc snap now options)"
  by (auto simp: refAt_def refInit_def afterOwner_def afterScope_def split: option.splits)

lemma refAt_apply:
  assumes "refAt lc snap now options pre st"
  shows "refAt lc snap now options (pre @ [en_waiter e]) (refApply st e eligible after)"
proof -
  have "afterScope snap (pre @ [w]) key = (case js_get (rs_scopeActive st) key of
      None \<Rightarrow> 0 | Some n \<Rightarrow> n + int (count_list (pw_leaseScopeKeys w) key))" for w key
  proof -
    have "js_nullish (js_get (rs_scopeActive st) key) 0 = afterScope snap pre key"
      "js_has (rs_scopeActive st) key = js_has (as_scopeActive snap) key"
      using assms by (auto simp: refAt_def)
    then show ?thesis
      by (auto simp: afterScope_def js_has_get split: option.splits)
  qed
  then show ?thesis
    using assms
    by (auto simp: refAt_def refApply_def Let_def bumpScopes_get afterOwner_def ownerActive_def
        intro: filter_cong)
qed

lemma refEntries_set:
  "set (rs_entries (refInit lc snap now options)) =
     toEntry ` {w \<in> set (as_waiters snap).
       inWindow w now (po_creatingRequestId options) (po_lastChanceWaiterIds options)}"
  by (simp add: refInit_def image_Collect) 


lemma refAt_live:
  assumes "refAt lc snap now options pre st"
  shows "w \<in> set (as_waiters snap) \<and> toEntry w \<in> set (rs_entries st) \<and> notBeforePassed now w \<and>
      scopeHasRoom (rs_scopeActive st) w \<longleftrightarrow> liveWaiter snap now options pre w"
proof -
  have "toEntry w \<in> toEntry ` A \<longleftrightarrow> w \<in> A" for A
    by (metis en_toEntry(1) image_iff)
  moreover have "scopeHasRoom (rs_scopeActive st) w \<longleftrightarrow>
      (\<forall>(key, limit) \<in> set (pw_scopeLimits w). afterScope snap pre key < limit)"
    using assms by (auto simp: scopeHasRoom_def list_all_iff refAt_def)
  ultimately show ?thesis
    using assms by (auto simp: refAt_def refEntries_set liveWaiter_def)
qed

lemma refAt_entry:
  assumes "refAt lc snap now options pre st" "e \<in> set (rs_entries st)"
  shows "e = toEntry (en_waiter e)" "en_waiter e \<in> set (as_waiters snap)"
  using assms by (auto simp: refAt_def refEntries_set)

lemma refAt_remaining:
  assumes "refAt lc snap now options pre st"
  shows "ownerRemaining (as_reservationsByOwner snap) (rs_activeByOwner st) = unmetAfter snap pre"
  using assms by (auto simp: refAt_def ownerRemaining_def unmetAfter_def)

lemma set_refNeedyOwners:
  "set (refNeedyOwners reservations now st es needy) =
     set needy \<union> {pw_ownerKey (en_waiter e) | e. e \<in> set es \<and> notBeforePassed now (en_waiter e) \<and>
       0 < ownerRemaining reservations (rs_activeByOwner st) (pw_ownerKey (en_waiter e)) \<and>
       scopeHasRoom (rs_scopeActive st) (en_waiter e)}"
  by (induction es arbitrary: needy) (auto simp: Let_def ownerRemaining_def)

lemma refEligible_filter:
  "refEligible snap now st needy es =
     map (\<lambda>e. (e, takesKeptSlot (as_capacityLimit snap) (rs_active st)
            (ownerRemaining (as_reservationsByOwner snap) (rs_activeByOwner st) (pw_ownerKey (en_waiter e)))
            (refReservedTotal (as_reservationsByOwner snap) (rs_activeByOwner st))))
       (filter (\<lambda>e. notBeforePassed now (en_waiter e) \<and> scopeHasRoom (rs_scopeActive st) (en_waiter e) \<and>
          (takesKeptSlot (as_capacityLimit snap) (rs_active st)
            (ownerRemaining (as_reservationsByOwner snap) (rs_activeByOwner st) (pw_ownerKey (en_waiter e)))
            (refReservedTotal (as_reservationsByOwner snap) (rs_activeByOwner st)) \<longrightarrow>
           pw_borrowReserved (en_waiter e) \<and> \<not> waitingBesides needy (pw_ownerKey (en_waiter e)))) es)"
  by (induction es) (auto simp: Let_def)

lemma refAt_borrows:
  assumes "refAt lc snap now options pre st"
  shows "takesKeptSlot (as_capacityLimit snap) (rs_active st)
      (ownerRemaining (as_reservationsByOwner snap) (rs_activeByOwner st) (pw_ownerKey w))
      (refReservedTotal (as_reservationsByOwner snap) (rs_activeByOwner st)) = borrowsAfter snap pre w"
proof -
  have "rs_active st = as_active snap + int (length pre)"
    using assms by (simp add: refAt_def)
  then show ?thesis
    unfolding refReservedTotal_def refAt_remaining [OF assms] takesKeptSlot_def borrowsAfter_def
      unmetOthers_def Let_def
    by (auto split: option.splits)
qed

lemma refAt_besides:
  assumes "refAt lc snap now options pre st"
  shows "waitingBesides (refNeedyOwners (as_reservationsByOwner snap) now st (rs_entries st) []) owner \<longleftrightarrow>
     (\<exists>w'. liveWaiter snap now options pre w' \<and> 0 < unmetAfter snap pre (pw_ownerKey w') \<and>
        pw_ownerKey w' \<noteq> owner)"
proof -
  have "waitingBesides (refNeedyOwners (as_reservationsByOwner snap) now st (rs_entries st) []) owner \<longleftrightarrow>
     (\<exists>e \<in> set (rs_entries st). notBeforePassed now (en_waiter e) \<and>
       0 < unmetAfter snap pre (pw_ownerKey (en_waiter e)) \<and>
       scopeHasRoom (rs_scopeActive st) (en_waiter e) \<and> pw_ownerKey (en_waiter e) \<noteq> owner)"
    by (auto simp: waitingBesides_def list_ex_iff set_refNeedyOwners refAt_remaining [OF assms])
  also have "\<dots> \<longleftrightarrow> (\<exists>w'. liveWaiter snap now options pre w' \<and>
      0 < unmetAfter snap pre (pw_ownerKey w') \<and> pw_ownerKey w' \<noteq> owner)"
    using refAt_live [OF assms] refAt_entry [OF assms] by (metis en_toEntry(1))
  finally show ?thesis .
qed

lemma refAt_eligible:
  assumes "refAt lc snap now options pre st"
  shows "refEligible snap now st
      (refNeedyOwners (as_reservationsByOwner snap) now st (rs_entries st) []) (rs_entries st) =
    map (\<lambda>e. (e, borrowsAfter snap pre (en_waiter e)))
      (filter (\<lambda>e. mayGrant snap now options pre (en_waiter e)) (rs_entries st))"
proof -
  have "filter (\<lambda>e. notBeforePassed now (en_waiter e) \<and> scopeHasRoom (rs_scopeActive st) (en_waiter e) \<and>
        (borrowsAfter snap pre (en_waiter e) \<longrightarrow>
          pw_borrowReserved (en_waiter e) \<and>
          \<not> waitingBesides (refNeedyOwners (as_reservationsByOwner snap) now st (rs_entries st) [])
            (pw_ownerKey (en_waiter e)))) (rs_entries st) =
      filter (\<lambda>e. mayGrant snap now options pre (en_waiter e)) (rs_entries st)"
  proof (rule filter_cong)
    fix e assume "e \<in> set (rs_entries st)"
    then have "notBeforePassed now (en_waiter e) \<and> scopeHasRoom (rs_scopeActive st) (en_waiter e) \<longleftrightarrow>
        liveWaiter snap now options pre (en_waiter e)"
      using refAt_live [OF assms, of "en_waiter e"] refAt_entry [OF assms] by metis
    then show "(notBeforePassed now (en_waiter e) \<and> scopeHasRoom (rs_scopeActive st) (en_waiter e) \<and>
        (borrowsAfter snap pre (en_waiter e) \<longrightarrow>
          pw_borrowReserved (en_waiter e) \<and>
          \<not> waitingBesides (refNeedyOwners (as_reservationsByOwner snap) now st (rs_entries st) [])
            (pw_ownerKey (en_waiter e)))) = mayGrant snap now options pre (en_waiter e)"
      unfolding mayGrant_def refAt_besides [OF assms] by blast
  qed simp
  then show ?thesis
    unfolding refEligible_filter refAt_borrows [OF assms] by simp
qed

lemma borrowedByWaiter_get:
  assumes "distinct (map (\<lambda>e. pw_waiterId (en_waiter e)) es)" "e \<in> set es"
  shows "js_get (borrowedByWaiter (map (\<lambda>e. (e, B e)) es)) (pw_waiterId (en_waiter e)) = Some (B e)"
proof -
  let ?f = "\<lambda>m (e, b). js_put (pw_waiterId (en_waiter e)) b m"
  have other: "js_get (foldl ?f m (map (\<lambda>e. (e, B e)) es)) k = js_get m k"
    if "k \<notin> (\<lambda>e. pw_waiterId (en_waiter e)) ` set es" for k m es
    using that by (induction es arbitrary: m) auto
  have "js_get (foldl ?f m (map (\<lambda>e. (e, B e)) es)) (pw_waiterId (en_waiter e)) = Some (B e)"
    if "distinct (map (\<lambda>e. pw_waiterId (en_waiter e)) es)" "e \<in> set es" for m es
    using that
  proof (induction es arbitrary: m)
    case (Cons a es)
    then show ?case by (cases "e = a") (auto simp: other)
  qed simp
  then show ?thesis using assms unfolding borrowedByWaiter_def by blast
qed


lemma refAt_distinct:
  assumes "refAt lc snap now options pre st" "wfSnapshot snap"
  shows "distinct (map (\<lambda>e. pw_waiterId (en_waiter e)) (rs_entries st))"
proof -
  have "distinct (map (\<lambda>e. pw_waiterId (en_waiter e)) (rs_entries (refInit lc snap now options)))"
    using assms(2) by (simp add: refInit_def wfSnapshot_def distinct_map_filter comp_def)
  then show ?thesis using assms(1) by (simp add: refAt_def distinct_map_filter)
qed

lemma find_candidate:
  assumes "e \<in> set es" "\<And>e. e \<in> set es \<Longrightarrow> e = toEntry (en_waiter e)"
    and "distinct (map (\<lambda>e. pw_waiterId (en_waiter e)) es)"
  shows "find (\<lambda>x. en_candidate x = en_candidate e) es = Some e"
  using assms
proof (induction es)
  case (Cons a es)
  have "a = e" if "en_candidate a = en_candidate e"
  proof -
    have "pw_waiterId (en_waiter a) = pw_waiterId (en_waiter e)"
      using that Cons.prems(1,2) by (metis en_toEntry(3) list.set_intros(1))
    then show ?thesis using Cons.prems(1,3) by auto
  qed
  with Cons show ?case by auto
qed simp

text \<open>The waiters the rules allow are what the scheduler chooses from.\<close>

definition refAllowed ::
    "admissionSnapshot \<Rightarrow> millis \<Rightarrow> plannerOptions \<Rightarrow> plannerWaiter list \<Rightarrow> refState \<Rightarrow> entry list" where
  "refAllowed snap now options pre st =
     filter (\<lambda>e. mayGrant snap now options pre (en_waiter e)) (rs_entries st)"

lemma refAllowed_in:
  assumes "refAt lc snap now options pre st" "mayGrant snap now options pre w"
  shows "toEntry w \<in> set (refAllowed snap now options pre st)"
  using assms refAt_live [OF assms(1), of w] by (simp add: refAllowed_def mayGrant_def)

lemma refAllowed_entry:
  assumes "refAt lc snap now options pre st" "e \<in> set (refAllowed snap now options pre st)"
  shows "e = toEntry (en_waiter e)" "en_waiter e \<in> set (as_waiters snap)"
    "mayGrant snap now options pre (en_waiter e)"
  using assms(2) refAt_entry [OF assms(1)] by (simp_all add: refAllowed_def)

lemma refAllowed_distinct:
  assumes "refAt lc snap now options pre st" "wfSnapshot snap"
  shows "distinct (map (\<lambda>e. pw_waiterId (en_waiter e)) (refAllowed snap now options pre st))"
  using refAt_distinct [OF assms] by (simp add: refAllowed_def distinct_map_filter)

lemma refAllowed_scheduled:
  assumes lc: "consistent_comparator lc" and valid: "validSnapshot snap"
    and at: "refAt lc snap now options pre st"
    and inv: "schedulerInv PRIORITY_CLASS_QUANTA (rs_scheduler st)"
    and some: "refAllowed snap now options pre st \<noteq> []"
  obtains d e where
    "scheduleWeightedDeficitRoundRobin lc (map en_candidate (refAllowed snap now options pre st))
       (rs_scheduler st) defaultPriorityQuanta = Inr d"
    "sd_winner d = Some (en_candidate e)" "e \<in> set (refAllowed snap now options pre st)"
    "schedulerInv PRIORITY_CLASS_QUANTA (sd_state d)"
    "\<And>w. mayGrant snap now options pre w \<Longrightarrow> pw_priority w = pw_priority (en_waiter e) \<Longrightarrow>
       compareEntries lc (toEntry (en_waiter e)) (toEntry w) \<le> 0"
proof -
  let ?es = "refAllowed snap now options pre st"
  note entry = refAllowed_entry [OF at]
  have pri: "validPriority (sc_priority (en_candidate e)) \<and> sc_eligible (en_candidate e)" if "e \<in> set ?es" for e
    using entry [OF that] valid by (metis en_toEntry(4,5) validSnapshot_def)
  obtain p where p: "\<exists>c \<in> set (map en_candidate ?es). sc_eligible c \<and> sc_priority c = p"
    using some pri by (cases ?es) auto
  obtain d c where d: "scheduleWeightedDeficitRoundRobin lc (map en_candidate ?es) (rs_scheduler st)
      defaultPriorityQuanta = Inr d" "sd_winner d = Some c"
    "classHead lc (map en_candidate ?es) (sc_priority c) = Some c"
    "schedulerInv PRIORITY_CLASS_QUANTA (sd_state d)"
    unfolding defaultPriorityQuanta_def
    by (rule schedule_serves [OF inv _ p]) (use pri in auto)
  obtain e where e: "e \<in> set ?es" "c = en_candidate e"
    using classHead_priority [OF d(3)] by auto
  have "compareEntries lc (toEntry (en_waiter e)) (toEntry w) \<le> 0"
    if "mayGrant snap now options pre w" "pw_priority w = pw_priority (en_waiter e)" for w
  proof -
    have "en_candidate (toEntry w) \<in> set (map en_candidate ?es)"
      using refAllowed_in [OF at that(1)] by simp
    moreover have "sc_priority c = pw_priority w"
      using e(2) entry(1) [OF e(1)] that(2) by (metis en_toEntry(4))
    ultimately have "compareSchedulerCandidates lc c (en_candidate (toEntry w)) \<le> 0"
      using collation.classHead_first [OF collation.intro [OF lc] d(3)] by simp
    then show ?thesis using entry(1) [OF e(1)] unfolding compareEntries_def e(2) by metis
  qed
  with d e show thesis by (intro that) auto
qed

lemma refStep_cases:
  assumes lc: "consistent_comparator lc" and valid: "validSnapshot snap"
    and at: "refAt lc snap now options pre st"
    and inv: "schedulerInv PRIORITY_CLASS_QUANTA (rs_scheduler st)"
    and len: "length (rs_grants st) = length pre"
  obtains
      (max) "refStep lc snap now options st = PlanStop StopMaxGrants st"
      "reaches (int (length pre)) (po_maxGrants options)"
    | (limit) "refStep lc snap now options st = PlanStop StopLimit st"
      "reaches (as_active snap + int (length pre)) (as_capacityLimit snap)"
    | (none) "refStep lc snap now options st = PlanStop StopNone st"
      "\<And>w. \<not> mayGrant snap now options pre w"
    | (grant) w st' g where
      "refStep lc snap now options st =
         (if po_requestId options = Some (pw_admissionRequestId w) then PlanStop StopRequested st'
          else PlanNext st')"
      "refAt lc snap now options (pre @ [w]) st'"
      "schedulerInv PRIORITY_CLASS_QUANTA (rs_scheduler st')"
      "rs_grants st' = rs_grants st @ [g] \<and> rs_scheduler st' = pg_schedulerAfter g"
      "\<And>gs. admitted lc snap now options pre gs \<Longrightarrow>
         admitted lc snap now options (pre @ [w]) (gs @ [g])"
proof -
  let ?es = "refAllowed snap now options pre st"
  define eligible where "eligible = map (\<lambda>e. (e, borrowsAfter snap pre (en_waiter e))) ?es"
  have el: "refEligible snap now st
      (refNeedyOwners (as_reservationsByOwner snap) now st (rs_entries st) []) (rs_entries st) = eligible"
    unfolding eligible_def refAllowed_def by (rule refAt_eligible [OF at])
  have act: "rs_active st = as_active snap + int (length pre)" using at by (simp add: refAt_def)
  have wf: "wfSnapshot snap" using valid by (simp add: validSnapshot_def)
  consider "reaches (int (length pre)) (po_maxGrants options)"
    | "\<not> reaches (int (length pre)) (po_maxGrants options)"
      "reaches (as_active snap + int (length pre)) (as_capacityLimit snap)"
    | "\<not> reaches (int (length pre)) (po_maxGrants options)"
      "\<not> reaches (as_active snap + int (length pre)) (as_capacityLimit snap)" "?es = []"
    | "\<not> reaches (int (length pre)) (po_maxGrants options)"
      "\<not> reaches (as_active snap + int (length pre)) (as_capacityLimit snap)" "?es \<noteq> []"
    by blast
  then show thesis
  proof cases
    case 1
    then show thesis by (intro max) (simp_all add: refStep_def len)
  next
    case 2
    then show thesis by (intro limit) (simp_all add: refStep_def len act)
  next
    case 3
    then have "refStep lc snap now options st = PlanStop StopNone st"
      by (simp add: refStep_def len act el eligible_def)
    then show thesis using refAllowed_in [OF at] 3(3) by (intro none) auto
  next
    case 4
    obtain d e where d: "scheduleWeightedDeficitRoundRobin lc (map en_candidate ?es) (rs_scheduler st)
        defaultPriorityQuanta = Inr d" "sd_winner d = Some (en_candidate e)"
      and e: "e \<in> set ?es" and inv': "schedulerInv PRIORITY_CLASS_QUANTA (sd_state d)"
      and first: "\<And>w. mayGrant snap now options pre w \<Longrightarrow> pw_priority w = pw_priority (en_waiter e) \<Longrightarrow>
        compareEntries lc (toEntry (en_waiter e)) (toEntry w) \<le> 0"
      using refAllowed_scheduled [OF lc valid at inv 4(3)] by blast
    have found: "find (\<lambda>x. en_candidate x = en_candidate e) ?es = Some e"
      by (rule find_candidate [OF e refAllowed_entry(1) [OF at] refAllowed_distinct [OF at wf]])
    have ne: "eligible \<noteq> []" "rs_entries st \<noteq> []" using 4(3) by (auto simp: eligible_def refAllowed_def)
    have borrowed: "js_get (borrowedByWaiter eligible) (pw_waiterId (en_waiter e)) =
        Some (borrowsAfter snap pre (en_waiter e))"
      unfolding eligible_def by (rule borrowedByWaiter_get [OF refAllowed_distinct [OF at wf] e])
    show thesis
    proof (rule grant)
      show "refStep lc snap now options st =
         (if po_requestId options = Some (pw_admissionRequestId (en_waiter e))
          then PlanStop StopRequested (refApply st e eligible (sd_state d))
          else PlanNext (refApply st e eligible (sd_state d)))"
        using 4 ne found d by (simp add: refStep_def len act el eligible_def comp_def)
      show "admitted lc snap now options (pre @ [en_waiter e]) (gs @ [grantOf e eligible (sd_state d)])"
        if "admitted lc snap now options pre gs" for gs
        by (rule admitted_grant [OF that 4(2) 4(1) refAllowed_entry(3) [OF at e] first])
          (simp_all add: grantOf_def borrowed)
    qed (simp_all add: refAt_apply [OF at], simp_all add: refApply_def grantOf_def Let_def inv')
  qed
qed


subsection \<open>Every plan obeys the rules\<close>

definition stopJustified ::
    "admissionSnapshot \<Rightarrow> millis \<Rightarrow> plannerOptions \<Rightarrow> plannerWaiter list \<Rightarrow> stoppedBy \<Rightarrow> bool" where
  "stopJustified snap now options ws why =
     (case why of
        StopRequested \<Rightarrow>
          ws \<noteq> [] \<and> po_requestId options = Some (pw_admissionRequestId (last ws))
      | StopNone \<Rightarrow> \<not> (\<exists>w. mayGrant snap now options ws w)
      | StopLimit \<Rightarrow> reaches (as_active snap + int (length ws)) (as_capacityLimit snap)
      | StopMaxGrants \<Rightarrow> reaches (int (length ws)) (po_maxGrants options)
      | StopProgress \<Rightarrow> False)"

definition obeysRules ::
    "(ident \<Rightarrow> ident \<Rightarrow> int) \<Rightarrow> admissionSnapshot \<Rightarrow> millis \<Rightarrow> plannerOptions \<Rightarrow>
     plannerWaiter list \<Rightarrow> grantPlan \<Rightarrow> bool" where
  "obeysRules lc snap now options ws plan \<longleftrightarrow>
     admitted lc snap now options ws (gp_grants plan) \<and>
     stopJustified snap now options ws (gp_stoppedBy plan) \<and>
     schedulerInv PRIORITY_CLASS_QUANTA (gp_scheduler plan) \<and>
     gp_scheduler plan =
       (if gp_grants plan = [] then as_scheduler snap else pg_schedulerAfter (last (gp_grants plan)))"

lemma admitted_waiters:
  "admitted lc snap now options ws gs \<Longrightarrow>
     set ws \<subseteq> set (as_waiters snap) \<and> distinct (map pw_admissionRequestId ws) \<and> length gs = length ws"
  by (induction rule: admitted.induct) (auto simp: mayGrant_def liveWaiter_def)

lemma admitted_length: "admitted lc snap now options ws gs \<Longrightarrow> length ws \<le> length (as_waiters snap)"
  using admitted_waiters [of lc snap now options ws gs]
  by (metis card_length card_mono distinct_card distinct_map finite_set le_trans)

lemma refLoop_obeys:
  assumes lc: "consistent_comparator lc" and valid: "validSnapshot snap"
    and "refAt lc snap now options pre st" "schedulerInv PRIORITY_CLASS_QUANTA (rs_scheduler st)"
    and "admitted lc snap now options pre (rs_grants st)"
    and "rs_scheduler st =
       (if rs_grants st = [] then as_scheduler snap else pg_schedulerAfter (last (rs_grants st)))"
    and "length (as_waiters snap) < length pre + steps"
  shows "\<exists>ws plan. refLoop lc snap now options steps st = Inr plan \<and> obeysRules lc snap now options ws plan"
  using assms(3-)
proof (induction steps arbitrary: pre st)
  case 0
  then show ?case using admitted_length by fastforce
next
  case (Suc steps)
  have stop: "\<exists>ws plan. refLoop lc snap now options (Suc steps) st = Inr plan \<and>
      obeysRules lc snap now options ws plan"
    if "refStep lc snap now options st = PlanStop why st" "stopJustified snap now options pre why" for why
    using that Suc.prems by (intro exI [of _ pre]) (simp add: obeysRules_def refPlan_def)
  have len: "length (rs_grants st) = length pre" using admitted_waiters [OF Suc.prems(3)] by simp
  show ?case
    using lc valid Suc.prems(1,2) len
  proof (cases rule: refStep_cases)
    case max
    then show ?thesis by (intro stop) (auto simp: stopJustified_def)
  next
    case limit
    then show ?thesis by (intro stop) (auto simp: stopJustified_def)
  next
    case none
    then show ?thesis by (intro stop) (auto simp: stopJustified_def)
  next
    case (grant w st' g)
    note adm = grant(5) [OF Suc.prems(3), folded conjunct1 [OF grant(4)]]
    show ?thesis
    proof (cases "po_requestId options = Some (pw_admissionRequestId w)")
      case True
      then show ?thesis
        using grant adm
        by (intro exI [of _ "pre @ [w]"]) (simp add: obeysRules_def refPlan_def stopJustified_def)
    next
      case False
      then show ?thesis
        using grant Suc.IH [OF grant(2,3) adm] Suc.prems(5) by simp
    qed
  qed
qed

lemma reference_obeys:
  assumes "consistent_comparator lc" "validSnapshot snap"
  obtains ws plan where "referencePlanGrants lc snap now options = Inr plan"
    "obeysRules lc snap now options ws plan"
proof -
  have "schedulerInv PRIORITY_CLASS_QUANTA (rs_scheduler (refInit lc snap now options))"
    using assms(2) by (simp add: refInit_def validSnapshot_def)
  then show thesis
    using refLoop_obeys [OF assms refAt_init, of now options "length (as_waiters snap) + 1"] that
    by (auto simp: referencePlanGrants_def refInit_def admitted_Nil)
qed

lemma admitted_nth:
  assumes "admitted lc snap now options ws gs" "i < length ws"
  shows "mayGrant snap now options (take i ws) (ws ! i) \<and>
    \<not> reaches (as_active snap + int i) (as_capacityLimit snap) \<and>
    (\<forall>w'. mayGrant snap now options (take i ws) w' \<longrightarrow> pw_priority w' = pw_priority (ws ! i) \<longrightarrow>
       compareEntries lc (toEntry (ws ! i)) (toEntry w') \<le> 0) \<and>
    pg_waiterId (gs ! i) = pw_waiterId (ws ! i) \<and>
    pg_admissionRequestId (gs ! i) = pw_admissionRequestId (ws ! i) \<and>
    pg_reservationClass (gs ! i) = pw_priority (ws ! i) \<and>
    pg_borrowed (gs ! i) = borrowsAfter snap (take i ws) (ws ! i)"
  using assms
proof (induction rule: admitted.induct)
  case (admitted_grant pre gs w g)
  have len: "length gs = length pre" using admitted_waiters [OF admitted_grant.hyps(1)] by simp
  show ?case
  proof (cases "i < length pre")
    case True
    with admitted_grant.IH len show ?thesis by (simp add: nth_append)
  next
    case False
    with admitted_grant.prems have "i = length pre" by simp
    with admitted_grant.hyps len show ?thesis by (simp add: nth_append)
  qed
qed simp

lemma admitted_limit:
  "admitted lc snap now options ws gs \<Longrightarrow> as_capacityLimit snap = Some limit \<Longrightarrow>
     as_active snap + int (length gs) \<le> max (as_active snap) limit"
  by (induction rule: admitted.induct) (auto simp: reaches_def dest: admitted_waiters)

end
