(* ===== verification/AdmissionPlanner.thy ===== *)
theory AdmissionPlanner
  imports AdmissionReference
begin

text \<open>
  The planner the store runs (\<^verbatim>\<open>planGrants\<close> in
  \<^verbatim>\<open>apps/server/src/model-api/capacity/admission-planner.ts\<close>) and its equivalence with
  the reference planner.

  It indexes the waiters once: per priority class and per owner with unmet kept slots a linked
  queue (\<^verbatim>\<open>entries\<close>, \<^verbatim>\<open>head\<close>, \<^verbatim>\<open>next\<close>) whose dead entries are unlinked as a
  scan meets them. The two loops that follow the links end only because the links point forward;
  they are partial functions, and \<open>None\<close> is a loop that does not end.
\<close>

subsection \<open>Linked queues\<close>

record queue =
  q_entries :: "entry list"
  q_head :: nat
  q_next :: "nat list"

definition emptyQueue :: queue where
  "emptyQueue = \<lparr>q_entries = [], q_head = 0, q_next = []\<rparr>"

definition pushEntry :: "entry \<Rightarrow> queue \<Rightarrow> queue" where
  "pushEntry e queue =
     queue\<lparr>q_entries := q_entries queue @ [e],
           q_next := q_next queue @ [length (q_entries queue) + 1]\<rparr>"

definition deadEntry :: "ident js_set \<Rightarrow> (ident, int) js_map \<Rightarrow> entry \<Rightarrow> bool" where
  "deadEntry takenRequests scopeActive e \<longleftrightarrow>
     pw_admissionRequestId (en_waiter e) \<in> set takenRequests \<or>
     \<not> scopeHasRoom scopeActive (en_waiter e)"

partial_function (option) pruneHead :: "(entry \<Rightarrow> bool) \<Rightarrow> queue \<Rightarrow> queue option" where
  "pruneHead dead queue =
     (if q_head queue < length (q_entries queue) \<and> dead (q_entries queue ! q_head queue)
      then pruneHead dead (queue\<lparr>q_head := q_next queue ! q_head queue\<rparr>)
      else Some queue)"

subsection \<open>State\<close>

record planState =
  ps_active :: int
  ps_activeByOwner :: "(ident, int) js_map"
  ps_scopeActive :: "(ident, int) js_map"
  ps_scheduler :: schedulerState
  ps_grants :: "plannedGrant list"
  ps_classes :: "(int, queue) js_map"
  ps_ownerQueues :: "(ident, queue) js_map"
  ps_takenRequests :: "ident js_set"
  ps_remaining :: "(ident, int) js_map"
  ps_reservedRemainingTotal :: int

text \<open>The unmet kept slots of each owner, and their total.\<close>

fun initRemaining ::
    "(ident, int) js_map \<Rightarrow> (ident, int) js_map \<Rightarrow> (ident, int) js_map \<Rightarrow> int \<Rightarrow> (ident, int) js_map \<times> int" where
  "initRemaining activeByOwner [] remaining summed = (remaining, summed)"
| "initRemaining activeByOwner ((owner, reserved) # rest) remaining summed =
     (let slots = max 0 (reserved - ownerActive activeByOwner owner)
      in initRemaining activeByOwner rest
           (if slots > 0 then js_put owner slots remaining else remaining) (summed + slots))"

fun indexEntries ::
    "(ident, int) js_map \<Rightarrow> entry list \<Rightarrow> (int, queue) js_map \<Rightarrow> (ident, queue) js_map \<Rightarrow>
     (int, queue) js_map \<times> (ident, queue) js_map" where
  "indexEntries remaining [] classes ownerQueues = (classes, ownerQueues)"
| "indexEntries remaining (e # es) classes ownerQueues =
     (let priority = pw_priority (en_waiter e);
          owner = pw_ownerKey (en_waiter e);
          classes' = js_put priority (pushEntry e (js_nullish (js_get classes priority) emptyQueue)) classes
      in if \<not> js_has remaining owner then indexEntries remaining es classes' ownerQueues
         else indexEntries remaining es classes'
                (js_put owner (pushEntry e (js_nullish (js_get ownerQueues owner) emptyQueue)) ownerQueues))"

subsection \<open>One step\<close>

text \<open>At most two owners with unmet kept slots and a live waiter.\<close>

fun findNeedy ::
    "(entry \<Rightarrow> bool) \<Rightarrow> ident list \<Rightarrow> (ident, queue) js_map \<Rightarrow> ident list \<Rightarrow>
     (ident list \<times> (ident, queue) js_map) option" where
  "findNeedy dead [] ownerQueues needy = Some (needy, ownerQueues)"
| "findNeedy dead (owner # rest) ownerQueues needy =
     (case js_get ownerQueues owner of
        None \<Rightarrow> findNeedy dead rest ownerQueues needy
      | Some queue \<Rightarrow>
          (case pruneHead dead queue of
             None \<Rightarrow> None
           | Some queue' \<Rightarrow>
               let ownerQueues' = js_put owner queue' ownerQueues
               in if \<not> q_head queue' < length (q_entries queue')
                  then findNeedy dead rest ownerQueues' needy
                  else if length (needy @ [owner]) = 2 then Some (needy @ [owner], ownerQueues')
                  else findNeedy dead rest ownerQueues' (needy @ [owner])))"

text \<open>The memoised question whether another owner waits for a kept slot.\<close>

definition ownerWaitingBesides ::
    "(entry \<Rightarrow> bool) \<Rightarrow> ident list \<Rightarrow> ident \<Rightarrow> ident list option \<Rightarrow> (ident, queue) js_map \<Rightarrow>
     (bool \<times> ident list option \<times> (ident, queue) js_map) option" where
  "ownerWaitingBesides dead owners ownerKey needyOwners ownerQueues =
     (case needyOwners of
        Some needy \<Rightarrow> Some (waitingBesides needy ownerKey, Some needy, ownerQueues)
      | None \<Rightarrow>
          (case findNeedy dead owners ownerQueues [] of
             None \<Rightarrow> None
           | Some (needy, ownerQueues') \<Rightarrow>
               Some (waitingBesides needy ownerKey, Some needy, ownerQueues')))"

text \<open>
  The scan of one class for its first eligible entry: dead entries are unlinked, entries that
  would borrow a kept slot and may not are passed over.
\<close>

partial_function (option) scanClass ::
    "(entry \<Rightarrow> bool) \<Rightarrow> (plannerWaiter \<Rightarrow> bool) \<Rightarrow> ident list \<Rightarrow> queue \<Rightarrow> nat option \<Rightarrow> nat \<Rightarrow>
     ident list option \<Rightarrow> (ident, queue) js_map \<Rightarrow>
     (queue \<times> ident list option \<times> (ident, queue) js_map \<times> (entry \<times> bool) option) option" where
  "scanClass dead borrows owners queue previous index needy ownerQueues =
     (if \<not> index < length (q_entries queue) then Some (queue, needy, ownerQueues, None)
      else
        let e = q_entries queue ! index; next = q_next queue ! index
        in if dead e
           then scanClass dead borrows owners
                  (case previous of
                     None \<Rightarrow> queue\<lparr>q_head := next\<rparr>
                   | Some p \<Rightarrow> queue\<lparr>q_next := (q_next queue)[p := next]\<rparr>)
                  previous next needy ownerQueues
           else if \<not> borrows (en_waiter e) then Some (queue, needy, ownerQueues, Some (e, False))
           else if \<not> pw_borrowReserved (en_waiter e)
             then scanClass dead borrows owners queue (Some index) next needy ownerQueues
           else (case ownerWaitingBesides dead owners (pw_ownerKey (en_waiter e)) needy ownerQueues of
                   None \<Rightarrow> None
                 | Some (waiting, needy', ownerQueues') \<Rightarrow>
                     if waiting
                     then scanClass dead borrows owners queue (Some index) next needy' ownerQueues'
                     else Some (queue, needy', ownerQueues', Some (e, True))))"

fun scanClasses ::
    "(entry \<Rightarrow> bool) \<Rightarrow> (plannerWaiter \<Rightarrow> bool) \<Rightarrow> ident list \<Rightarrow> (int, queue) js_map \<Rightarrow>
     ident list option \<Rightarrow> (ident, queue) js_map \<Rightarrow>
     ((int, queue) js_map \<times> (ident, queue) js_map \<times> (entry \<times> bool) list) option" where
  "scanClasses dead borrows owners [] needy ownerQueues = Some ([], ownerQueues, [])"
| "scanClasses dead borrows owners ((priority, queue) # rest) needy ownerQueues =
     (case pruneHead dead queue of
        None \<Rightarrow> None
      | Some pruned \<Rightarrow>
          (case scanClass dead borrows owners pruned None (q_head pruned) needy ownerQueues of
             None \<Rightarrow> None
           | Some (queue', needy', ownerQueues', found) \<Rightarrow>
               (case scanClasses dead borrows owners rest needy' ownerQueues' of
                  None \<Rightarrow> None
                | Some (rest', ownerQueues'', eligible) \<Rightarrow>
                    Some ((priority, queue') # rest', ownerQueues'',
                      (case found of None \<Rightarrow> eligible | Some x \<Rightarrow> x # eligible)))))"

definition planApply :: "planState \<Rightarrow> entry \<Rightarrow> (entry \<times> bool) list \<Rightarrow> schedulerState \<Rightarrow> planState" where
  "planApply st winner eligible after =
     (let w = en_waiter winner; owner = pw_ownerKey w;
          slots = js_nullish (js_get (ps_remaining st) owner) 0
      in st\<lparr>ps_active := ps_active st + 1,
            ps_activeByOwner :=
              js_put owner (ownerActive (ps_activeByOwner st) owner + 1) (ps_activeByOwner st),
            ps_scopeActive := bumpScopes (pw_leaseScopeKeys w) (ps_scopeActive st),
            ps_scheduler := after,
            ps_grants := ps_grants st @ [grantOf winner eligible after],
            ps_takenRequests := js_add (pw_admissionRequestId w) (ps_takenRequests st),
            ps_remaining :=
              (if slots > 0
               then (if slots = 1 then js_del owner (ps_remaining st)
                     else js_put owner (slots - 1) (ps_remaining st))
               else ps_remaining st),
            ps_reservedRemainingTotal :=
              (if slots > 0 then ps_reservedRemainingTotal st - 1 else ps_reservedRemainingTotal st)\<rparr>)"

definition planBorrows :: "admissionSnapshot \<Rightarrow> planState \<Rightarrow> plannerWaiter \<Rightarrow> bool" where
  "planBorrows snap st w =
     takesKeptSlot (as_capacityLimit snap) (ps_active st)
       (js_nullish (js_get (ps_remaining st) (pw_ownerKey w)) 0) (ps_reservedRemainingTotal st)"

definition planStepOnce ::
    "(ident \<Rightarrow> ident \<Rightarrow> int) \<Rightarrow> admissionSnapshot \<Rightarrow> plannerOptions \<Rightarrow> entry list \<Rightarrow> planState \<Rightarrow>
     planState planStep option" where
  "planStepOnce lc snap options entries st =
     (if reaches (int (length (ps_grants st))) (po_maxGrants options) then Some (PlanStop StopMaxGrants st)
      else if reaches (ps_active st) (as_capacityLimit snap) then Some (PlanStop StopLimit st)
      else if entries = [] then Some (PlanStop StopNone st)
      else
        (case scanClasses (deadEntry (ps_takenRequests st) (ps_scopeActive st)) (planBorrows snap st)
                (js_keys (ps_remaining st)) (ps_classes st) None (ps_ownerQueues st) of
           None \<Rightarrow> None
         | Some (classes, ownerQueues, eligible) \<Rightarrow>
             let st1 = st\<lparr>ps_classes := classes, ps_ownerQueues := ownerQueues\<rparr>
             in if eligible = [] then Some (PlanStop StopNone st1)
                else Some (case scheduleWeightedDeficitRoundRobin lc (map (en_candidate \<circ> fst) eligible)
                             (ps_scheduler st1) defaultPriorityQuanta of
                        Inl err \<Rightarrow> PlanThrow err
                      | Inr decision \<Rightarrow>
                          (case Option.bind (sd_winner decision)
                                  (\<lambda>c. find (\<lambda>e. en_candidate e = c) (map fst eligible)) of
                             None \<Rightarrow> PlanStop StopNone st1
                           | Some winner \<Rightarrow>
                               let st' = planApply st1 winner eligible (sd_state decision)
                               in if po_requestId options =
                                     Some (pw_admissionRequestId (en_waiter winner))
                                  then PlanStop StopRequested st' else PlanNext st'))))"

fun planLoop ::
    "(ident \<Rightarrow> ident \<Rightarrow> int) \<Rightarrow> admissionSnapshot \<Rightarrow> plannerOptions \<Rightarrow> entry list \<Rightarrow> nat \<Rightarrow> planState \<Rightarrow>
     (schedError + grantPlan) option" where
  "planLoop lc snap options entries 0 st =
     Some (Inr \<lparr>gp_grants = ps_grants st, gp_scheduler = ps_scheduler st, gp_stoppedBy = StopProgress\<rparr>)"
| "planLoop lc snap options entries (Suc steps) st =
     (case planStepOnce lc snap options entries st of
        None \<Rightarrow> None
      | Some (PlanThrow err) \<Rightarrow> Some (Inl err)
      | Some (PlanStop why st') \<Rightarrow>
          Some (Inr \<lparr>gp_grants = ps_grants st', gp_scheduler = ps_scheduler st', gp_stoppedBy = why\<rparr>)
      | Some (PlanNext st') \<Rightarrow> planLoop lc snap options entries steps st')"

definition planEntries ::
    "(ident \<Rightarrow> ident \<Rightarrow> int) \<Rightarrow> admissionSnapshot \<Rightarrow> millis \<Rightarrow> plannerOptions \<Rightarrow> entry list" where
  "planEntries lc snap now options =
     js_sort (compareEntries lc)
       (map toEntry
         (filter (\<lambda>w. inWindow w now (po_creatingRequestId options) (po_lastChanceWaiterIds options) \<and>
             notBeforePassed now w) (as_waiters snap)))"

definition planInit :: "admissionSnapshot \<Rightarrow> entry list \<Rightarrow> planState" where
  "planInit snap entries =
     (let (remaining, reservedTotal) =
            initRemaining (as_activeByOwner snap) (as_reservationsByOwner snap) [] 0;
          (classes, ownerQueues) = indexEntries remaining entries [] []
      in \<lparr>ps_active = as_active snap, ps_activeByOwner = as_activeByOwner snap,
          ps_scopeActive = as_scopeActive snap, ps_scheduler = as_scheduler snap, ps_grants = [],
          ps_classes = classes, ps_ownerQueues = ownerQueues, ps_takenRequests = [],
          ps_remaining = remaining, ps_reservedRemainingTotal = reservedTotal\<rparr>)"

definition planGrants ::
    "(ident \<Rightarrow> ident \<Rightarrow> int) \<Rightarrow> admissionSnapshot \<Rightarrow> millis \<Rightarrow> plannerOptions \<Rightarrow>
     (schedError + grantPlan) option" where
  "planGrants lc snap now options =
     (let entries = planEntries lc snap now options
      in planLoop lc snap options entries (length (as_waiters snap) + 1) (planInit snap entries))"

subsection \<open>Queue invariant\<close>

text \<open>Links point forward, and whatever the head or a link skips is dead.\<close>

definition queueOk :: "(entry \<Rightarrow> bool) \<Rightarrow> queue \<Rightarrow> bool" where
  "queueOk dead q \<longleftrightarrow>
     length (q_next q) = length (q_entries q) \<and> q_head q \<le> length (q_entries q) \<and>
     (\<forall>j < q_head q. dead (q_entries q ! j)) \<and>
     (\<forall>i < length (q_entries q). i < q_next q ! i \<and> q_next q ! i \<le> length (q_entries q) \<and>
        (\<forall>j. i < j \<and> j < q_next q ! i \<longrightarrow> dead (q_entries q ! j)))"

definition queuesOk :: "(entry \<Rightarrow> bool) \<Rightarrow> ('k, queue) js_map \<Rightarrow> bool" where
  "queuesOk dead m \<longleftrightarrow> (\<forall>k q. js_get m k = Some q \<longrightarrow> queueOk dead q)"

lemma queueOk_mono: "queueOk dead q \<Longrightarrow> (\<And>e. dead e \<Longrightarrow> dead' e) \<Longrightarrow> queueOk dead' q"
  by (auto simp: queueOk_def)

lemma queuesOk_mono: "queuesOk dead m \<Longrightarrow> (\<And>e. dead e \<Longrightarrow> dead' e) \<Longrightarrow> queuesOk dead' m"
  unfolding queuesOk_def by (blast intro: queueOk_mono)

lemma queuesOk_put [wf_intros]: "queuesOk dead m \<Longrightarrow> queueOk dead q \<Longrightarrow> queuesOk dead (js_put k q m)"
  by (simp add: queuesOk_def)

lemma queueOk_skip:
  assumes "queueOk dead q" "q_head q < length (q_entries q)" "dead (q_entries q ! q_head q)"
  shows "queueOk dead (q\<lparr>q_head := q_next q ! q_head q\<rparr>)"
  using assms unfolding queueOk_def by (auto simp: not_less) (metis linorder_neqE_nat)

lemma queueOk_unlink:
  assumes "queueOk dead q" "p < i" "i < length (q_entries q)" "q_next q ! p = i" "dead (q_entries q ! i)"
  shows "queueOk dead (q\<lparr>q_next := (q_next q)[p := q_next q ! i]\<rparr>)"
proof -
  have i: "i < q_next q ! i" "q_next q ! i \<le> length (q_entries q)"
    "\<And>j. i < j \<Longrightarrow> j < q_next q ! i \<Longrightarrow> dead (q_entries q ! j)"
    using assms by (auto simp: queueOk_def)
  have p: "dead (q_entries q ! j)" if "p < j" "j < i" for j
    using assms(1,2,3,4) that unfolding queueOk_def by (metis order.strict_trans)
  have "dead (q_entries q ! j)" if "p < j" "j < q_next q ! i" for j
    using i(3) p that assms(5) by (metis linorder_neqE_nat)
  with i assms show ?thesis by (auto simp: queueOk_def nth_list_update)
qed

lemma pruneHead_ok:
  assumes "queueOk dead q"
  shows "\<exists>q'. pruneHead dead q = Some q' \<and> queueOk dead q' \<and> q_entries q' = q_entries q \<and>
    (q_head q' < length (q_entries q) \<longleftrightarrow> (\<exists>e \<in> set (q_entries q). \<not> dead e))"
  using assms
proof (induction "length (q_entries q) - q_head q" arbitrary: q rule: less_induct)
  case less
  show ?case
  proof (cases "q_head q < length (q_entries q) \<and> dead (q_entries q ! q_head q)")
    case True
    define q1 where "q1 = q\<lparr>q_head := q_next q ! q_head q\<rparr>"
    have "queueOk dead q1" unfolding q1_def using less.prems True by (intro queueOk_skip) auto
    moreover have "q_head q < q_next q ! q_head q" using less.prems True by (auto simp: queueOk_def)
    then have "length (q_entries q1) - q_head q1 < length (q_entries q) - q_head q"
      using True by (simp add: q1_def diff_less_mono2)
    ultimately have "\<exists>q'. pruneHead dead q1 = Some q' \<and> queueOk dead q' \<and> q_entries q' = q_entries q1 \<and>
      (q_head q' < length (q_entries q1) \<longleftrightarrow> (\<exists>e \<in> set (q_entries q1). \<not> dead e))"
      using less.hyps by blast
    moreover have "pruneHead dead q = pruneHead dead q1" "q_entries q1 = q_entries q"
      using True by (subst pruneHead.simps) (simp_all add: q1_def)
    ultimately show ?thesis by simp
  next
    case False
    then have "pruneHead dead q = Some q" by (subst pruneHead.simps) auto
    moreover have "q_head q < length (q_entries q) \<longleftrightarrow> (\<exists>e \<in> set (q_entries q). \<not> dead e)"
      using False less.prems unfolding queueOk_def
      by (metis in_set_conv_nth nth_mem le_less_linear order.strict_trans2)
    ultimately show ?thesis using less.prems by blast
  qed
qed

subsection \<open>Owners that wait for a kept slot\<close>

text \<open>\<open>E\<close> gives the entries of each owner's queue; pruning never changes them.\<close>

abbreviation entriesOf :: "('k, queue) js_map \<Rightarrow> 'k \<Rightarrow> entry list option" where
  "entriesOf m k \<equiv> map_option q_entries (js_get m k)"

definition liveIn :: "(entry \<Rightarrow> bool) \<Rightarrow> ('k \<Rightarrow> entry list option) \<Rightarrow> 'k \<Rightarrow> bool" where
  "liveIn dead E k \<longleftrightarrow> (\<exists>es. E k = Some es \<and> (\<exists>e \<in> set es. \<not> dead e))"

definition needyInv ::
    "(entry \<Rightarrow> bool) \<Rightarrow> ident list \<Rightarrow> (ident \<Rightarrow> entry list option) \<Rightarrow> ident list option \<Rightarrow>
     (ident, queue) js_map \<Rightarrow> bool" where
  "needyInv dead owners E needy m \<longleftrightarrow>
     queuesOk dead m \<and> entriesOf m = E \<and>
     (\<forall>ns. needy = Some ns \<longrightarrow>
        (\<forall>k. waitingBesides ns k \<longleftrightarrow> (\<exists>owner \<in> set owners. owner \<noteq> k \<and> liveIn dead E owner)))"

lemma findNeedy_ok:
  assumes "queuesOk dead m" "length acc < 2"
  shows "\<exists>m'. findNeedy dead owners m acc =
      Some (take 2 (acc @ filter (liveIn dead (entriesOf m)) owners), m') \<and>
      queuesOk dead m' \<and> entriesOf m' = entriesOf m"
  using assms
proof (induction owners arbitrary: m acc)
  case (Cons owner owners)
  show ?case
  proof (cases "js_get m owner")
    case None
    then show ?thesis using Cons by (simp add: liveIn_def)
  next
    case (Some q)
    obtain q' where q': "pruneHead dead q = Some q'" "queueOk dead q'" "q_entries q' = q_entries q"
      "q_head q' < length (q_entries q) \<longleftrightarrow> (\<exists>e \<in> set (q_entries q). \<not> dead e)"
      using pruneHead_ok Cons.prems(1) Some unfolding queuesOk_def by metis
    define m1 where "m1 = js_put owner q' m"
    have m1: "queuesOk dead m1" "entriesOf m1 = entriesOf m"
      using Cons.prems(1) q' Some by (auto simp: m1_def fun_eq_iff intro: wf_intros)
    have live: "liveIn dead (entriesOf m) owner \<longleftrightarrow> q_head q' < length (q_entries q')"
      using q' Some by (simp add: liveIn_def)
    consider "\<not> liveIn dead (entriesOf m) owner" | "liveIn dead (entriesOf m) owner" "acc = []"
      | a where "liveIn dead (entriesOf m) owner" "acc = [a]"
      using Cons.prems(2) by (cases acc) (auto simp: numeral_2_eq_2)
    then show ?thesis
    proof cases
      case 1
      then show ?thesis
        using Cons.IH [OF m1(1) Cons.prems(2)] Some q'(1) live m1(2)
        by (simp add: m1_def [symmetric] Let_def)
    next
      case 2
      then show ?thesis
        using Cons.IH [OF m1(1), of "[owner]"] Some q'(1) live m1(2)
        by (simp add: m1_def [symmetric] Let_def)
    next
      case 3
      then show ?thesis using Some q'(1) live m1 by (simp add: m1_def [symmetric] Let_def)
    qed
  qed
qed simp

lemma take_2_other:
  assumes "distinct xs"
  shows "(\<exists>x \<in> set (take 2 xs). x \<noteq> k) \<longleftrightarrow> (\<exists>x \<in> set xs. x \<noteq> k)"
proof (cases xs)
  case (Cons a ys)
  with assms show ?thesis by (cases ys) auto
qed simp

lemma ownerWaitingBesides_ok:
  assumes "needyInv dead owners E needy m" "distinct owners"
  obtains ns m' where "ownerWaitingBesides dead owners k needy m =
      Some ((\<exists>owner \<in> set owners. owner \<noteq> k \<and> liveIn dead E owner), Some ns, m')"
    "needyInv dead owners E (Some ns) m'"
proof (cases needy)
  case None
  have E: "E = entriesOf m" "queuesOk dead m" using assms(1) by (auto simp: needyInv_def)
  obtain m' where m': "findNeedy dead owners m [] = Some (take 2 (filter (liveIn dead E) owners), m')"
    "queuesOk dead m'" "entriesOf m' = E"
    using findNeedy_ok [OF E(2), of "[]" owners] E(1) by auto
  have "waitingBesides (take 2 (filter (liveIn dead E) owners)) k \<longleftrightarrow>
      (\<exists>owner \<in> set owners. owner \<noteq> k \<and> liveIn dead E owner)" for k
    using take_2_other [of "filter (liveIn dead E) owners" k] assms(2)
    by (auto simp: waitingBesides_def list_ex_iff)
  with m' None show thesis
    by (intro that) (auto simp: ownerWaitingBesides_def needyInv_def)
next
  case (Some ns)
  with assms(1) show thesis
    by (intro that [of ns m]) (auto simp: ownerWaitingBesides_def needyInv_def)
qed


subsection \<open>The scan of a class\<close>

text \<open>What the scan of a class looks for.\<close>

definition unblocked ::
    "(entry \<Rightarrow> bool) \<Rightarrow> (plannerWaiter \<Rightarrow> bool) \<Rightarrow> ident list \<Rightarrow> (ident \<Rightarrow> entry list option) \<Rightarrow> entry \<Rightarrow> bool" where
  "unblocked dead borrows owners E e \<longleftrightarrow>
     \<not> dead e \<and>
     (borrows (en_waiter e) \<longrightarrow> pw_borrowReserved (en_waiter e) \<and>
        \<not> (\<exists>owner \<in> set owners. owner \<noteq> pw_ownerKey (en_waiter e) \<and> liveIn dead E owner))"

definition scanPos :: "queue \<Rightarrow> nat option \<Rightarrow> nat \<Rightarrow> bool" where
  "scanPos q previous index \<longleftrightarrow>
     index \<le> length (q_entries q) \<and>
     (case previous of None \<Rightarrow> q_head q = index | Some p \<Rightarrow> p < index \<and> q_next q ! p = index)"

definition scanResult ::
    "(entry \<Rightarrow> bool) \<Rightarrow> (plannerWaiter \<Rightarrow> bool) \<Rightarrow> ident list \<Rightarrow> (ident \<Rightarrow> entry list option) \<Rightarrow> queue \<Rightarrow>
     (queue \<times> ident list option \<times> (ident, queue) js_map \<times> (entry \<times> bool) option) option \<Rightarrow> bool" where
  "scanResult dead borrows owners E q r \<longleftrightarrow>
     (\<exists>q' needy' m'. r = Some (q', needy', m',
          map_option (\<lambda>e. (e, borrows (en_waiter e))) (find (unblocked dead borrows owners E) (q_entries q))) \<and>
        queueOk dead q' \<and> q_entries q' = q_entries q \<and> needyInv dead owners E needy' m')"

lemma find_at:
  "i < length xs \<Longrightarrow> P (xs ! i) \<Longrightarrow> (\<And>j. j < i \<Longrightarrow> \<not> P (xs ! j)) \<Longrightarrow> find P xs = Some (xs ! i)"
  by (auto simp: find_Some_iff)

lemma queueOk_next:
  "queueOk dead q \<Longrightarrow> i < length (q_entries q) \<Longrightarrow>
     i < q_next q ! i \<and> q_next q ! i \<le> length (q_entries q) \<and>
     (\<forall>j. i < j \<and> j < q_next q ! i \<longrightarrow> dead (q_entries q ! j))"
  by (simp add: queueOk_def)

lemma scanResult_same: "q_entries q1 = q_entries q \<Longrightarrow>
    scanResult dead borrows owners E q1 r \<Longrightarrow> scanResult dead borrows owners E q r"
  by (simp add: scanResult_def)

lemma scanClass_ok:
  assumes "queueOk dead q" "needyInv dead owners E needy m" "distinct owners"
    and "scanPos q previous index" "\<And>j. j < index \<Longrightarrow> \<not> unblocked dead borrows owners E (q_entries q ! j)"
  shows "scanResult dead borrows owners E q (scanClass dead borrows owners q previous index needy m)"
  using assms
proof (induction "length (q_entries q) - index" arbitrary: q previous index needy m rule: less_induct)
  case less
  let ?scan = "scanClass dead borrows owners" and ?ok = "unblocked dead borrows owners E"
  let ?e = "q_entries q ! index" and ?next = "q_next q ! index"
  show ?case
  proof (cases "index < length (q_entries q)")
    case False
    then have "find ?ok (q_entries q) = None"
      using less.prems(4,5) by (auto simp: find_None_iff in_set_conv_nth scanPos_def)
    with False less.prems show ?thesis
      by (subst scanClass.simps) (simp add: scanResult_def)
  next
    case True
    note link = queueOk_next [OF less.prems(1) True]
    have shorter: "length (q_entries q) - ?next < length (q_entries q) - index"
      using link True by auto
    have skip: "\<not> ?ok (q_entries q ! j)" if "\<not> ?ok ?e" "j < ?next" for j
    proof -
      consider "j < index" | "j = index" | "index < j" by linarith
      then show ?thesis
        using that less.prems(5) link by cases (auto simp: unblocked_def)
    qed
    have next_step: "scanResult dead borrows owners E q (?scan q1 previous1 ?next needy1 m1)"
      if "q_entries q1 = q_entries q" "queueOk dead q1" "needyInv dead owners E needy1 m1"
        "scanPos q1 previous1 ?next" "\<not> ?ok ?e" for q1 previous1 needy1 m1
      by (rule scanResult_same [OF that(1)], rule less.hyps)
        (use that shorter skip less.prems(3) in auto)
    consider (dead) "dead ?e" | (free) "\<not> dead ?e" "\<not> borrows (en_waiter ?e)"
      | (refused) "\<not> dead ?e" "borrows (en_waiter ?e)" "\<not> pw_borrowReserved (en_waiter ?e)"
      | (borrower) "\<not> dead ?e" "borrows (en_waiter ?e)" "pw_borrowReserved (en_waiter ?e)"
      by blast
    then show ?thesis
    proof cases
      case dead
      define q1 where "q1 = (case previous of None \<Rightarrow> q\<lparr>q_head := ?next\<rparr>
          | Some p \<Rightarrow> q\<lparr>q_next := (q_next q)[p := ?next]\<rparr>)"
      have eq: "?scan q previous index needy m = ?scan q1 previous ?next needy m"
        using True dead by (subst scanClass.simps) (simp add: q1_def Let_def)
      have "queueOk dead q1"
        using less.prems(1,4) True dead queueOk_skip [of dead q]
        by (auto simp: q1_def scanPos_def intro: queueOk_unlink split: option.splits)
      moreover have "scanPos q1 previous ?next"
        using less.prems(1,4) True link
        by (auto simp: q1_def scanPos_def queueOk_def split: option.splits)
      ultimately show ?thesis
        unfolding eq using less.prems(2) dead
        by (intro next_step) (auto simp: q1_def unblocked_def split: option.splits)
    next
      case free
      then have "find ?ok (q_entries q) = Some ?e"
        using True less.prems(5) by (intro find_at) (auto simp: unblocked_def)
      with True free less.prems(1,2) show ?thesis
        by (subst scanClass.simps) (simp add: scanResult_def)
    next
      case refused
      then have "?scan q previous index needy m = ?scan q (Some index) ?next needy m"
        using True by (subst scanClass.simps) simp
      with refused less.prems(1,2) link show ?thesis
        by (auto intro!: next_step simp: scanPos_def unblocked_def)
    next
      case borrower
      obtain ns m' where w: "ownerWaitingBesides dead owners (pw_ownerKey (en_waiter ?e)) needy m =
          Some ((\<exists>owner \<in> set owners. owner \<noteq> pw_ownerKey (en_waiter ?e) \<and> liveIn dead E owner), Some ns, m')"
        and inv: "needyInv dead owners E (Some ns) m'"
        by (rule ownerWaitingBesides_ok [OF less.prems(2,3)])
      show ?thesis
      proof (cases "?ok ?e")
        case True
        then have "?scan q previous index needy m = Some (q, Some ns, m', Some (?e, True))"
          using \<open>index < length (q_entries q)\<close> borrower w
          by (subst scanClass.simps) (auto simp: unblocked_def Let_def)
        moreover have "find ?ok (q_entries q) = Some ?e"
          using True \<open>index < length (q_entries q)\<close> less.prems(5) by (intro find_at) auto
        ultimately show ?thesis using less.prems(1) inv borrower by (simp add: scanResult_def)
      next
        case False
        then have "?scan q previous index needy m = ?scan q (Some index) ?next (Some ns) m'"
          using \<open>index < length (q_entries q)\<close> borrower w
          by (subst scanClass.simps) (auto simp: unblocked_def Let_def)
        with False less.prems(1) inv link show ?thesis
          by (auto intro!: next_step simp: scanPos_def)
      qed
    qed
  qed
qed

definition firstOf ::
    "(entry \<Rightarrow> bool) \<Rightarrow> (plannerWaiter \<Rightarrow> bool) \<Rightarrow> ident list \<Rightarrow> (ident \<Rightarrow> entry list option) \<Rightarrow>
     (int, queue) js_map \<Rightarrow> entry list" where
  "firstOf dead borrows owners E classes =
     List.map_filter (\<lambda>(p, q). find (unblocked dead borrows owners E) (q_entries q)) classes"

lemma scanClasses_ok:
  assumes "\<forall>(p, q) \<in> set classes. queueOk dead q" "needyInv dead owners E needy m" "distinct owners"
  shows "\<exists>classes' m' needy'. scanClasses dead borrows owners classes needy m =
      Some (classes', m', map (\<lambda>e. (e, borrows (en_waiter e))) (firstOf dead borrows owners E classes)) \<and>
      (\<forall>(p, q) \<in> set classes'. queueOk dead q) \<and>
      map (\<lambda>(p, q). (p, q_entries q)) classes' = map (\<lambda>(p, q). (p, q_entries q)) classes \<and>
      needyInv dead owners E needy' m'"
  using assms
proof (induction classes arbitrary: needy m)
  case Nil
  then show ?case by (auto simp: firstOf_def map_filter_simps)
next
  case (Cons pq classes)
  obtain p q where pq: "pq = (p, q)" by (cases pq)
  obtain q1 where q1: "pruneHead dead q = Some q1" "queueOk dead q1" "q_entries q1 = q_entries q"
    using pruneHead_ok Cons.prems(1) pq by fastforce
  have pos: "scanPos q1 None (q_head q1)" using q1(2) by (simp add: scanPos_def queueOk_def)
  have "\<not> unblocked dead borrows owners E (q_entries q1 ! j)" if "j < q_head q1" for j
    using that q1(2) by (auto simp: queueOk_def unblocked_def)
  then have "scanResult dead borrows owners E q1 (scanClass dead borrows owners q1 None (q_head q1) needy m)"
    using scanClass_ok [OF q1(2) Cons.prems(2,3) pos] by blast
  then obtain q2 needy2 m2 where s: "scanClass dead borrows owners q1 None (q_head q1) needy m =
      Some (q2, needy2, m2, map_option (\<lambda>e. (e, borrows (en_waiter e)))
        (find (unblocked dead borrows owners E) (q_entries q1)))"
    "queueOk dead q2" "q_entries q2 = q_entries q1" "needyInv dead owners E needy2 m2"
    by (auto simp: scanResult_def)
  have rest: "\<forall>(p, q) \<in> set classes. queueOk dead q" using Cons.prems(1) by simp
  obtain classes' m' needy' where r: "scanClasses dead borrows owners classes needy2 m2 =
      Some (classes', m', map (\<lambda>e. (e, borrows (en_waiter e))) (firstOf dead borrows owners E classes))"
      "\<forall>(p, q) \<in> set classes'. queueOk dead q"
      "map (\<lambda>(p, q). (p, q_entries q)) classes' = map (\<lambda>(p, q). (p, q_entries q)) classes"
      "needyInv dead owners E needy' m'"
    using Cons.IH [OF rest s(4) Cons.prems(3)] by blast
  show ?case
    using pq q1 s r
    by (intro exI [of _ "(p, q2) # classes'"] exI [of _ m'] exI [of _ needy'])
      (auto simp: firstOf_def map_filter_simps split: option.splits)
qed

subsection \<open>Building the index\<close>

lemma queueOk_push: "queueOk dead q \<Longrightarrow> queueOk dead (pushEntry e q)"
  by (auto simp: queueOk_def pushEntry_def nth_append less_Suc_eq)

lemma queueOk_empty [simp]: "queueOk dead emptyQueue"
  by (simp add: queueOk_def emptyQueue_def)

lemma queuesOk_index_step:
  "queuesOk dead m \<Longrightarrow> queuesOk dead (js_put k (pushEntry e (js_nullish (js_get m k) emptyQueue)) m)"
  by (cases "js_get m k") (auto intro!: queuesOk_put queueOk_push simp: queuesOk_def)

lemma q_entries_push [simp]: "q_entries (pushEntry e q) = q_entries q @ [e]"
  by (simp add: pushEntry_def)

lemma q_entries_empty [simp]: "q_entries emptyQueue = []"
  by (simp add: emptyQueue_def)

definition noneIfEmpty :: "'a list \<Rightarrow> 'a list option" where
  "noneIfEmpty xs = (if xs = [] then None else Some xs)"

definition indexed :: "('k, queue) js_map \<Rightarrow> ('k \<Rightarrow> entry \<Rightarrow> bool) \<Rightarrow> entry list \<Rightarrow> ('k \<Rightarrow> bool) \<Rightarrow> bool" where
  "indexed m key es keep \<longleftrightarrow>
     js_map_ok m \<and> (\<forall>dead. queuesOk dead m) \<and>
     (\<forall>k. entriesOf m k = (if keep k then noneIfEmpty (filter (key k) es) else None))"

lemma indexed_get:
  "indexed m key es keep \<Longrightarrow> entriesOf m k = (if keep k then noneIfEmpty (filter (key k) es) else None)"
  by (simp add: indexed_def)

lemma noneIfEmpty_snoc: "noneIfEmpty (xs @ [x]) = Some (xs @ [x])"
  by (simp add: noneIfEmpty_def)

lemma indexed_push:
  assumes "indexed m (\<lambda>k e. f e = k) es keep" "keep (f e)"
  shows "indexed (js_put (f e) (pushEntry e (js_nullish (js_get m (f e)) emptyQueue)) m)
    (\<lambda>k e. f e = k) (es @ [e]) keep"
proof -
  let ?m = "js_put (f e) (pushEntry e (js_nullish (js_get m (f e)) emptyQueue)) m"
  have q: "q_entries (js_nullish (js_get m (f e)) emptyQueue) = filter (\<lambda>x. f x = f e) es"
    using indexed_get [OF assms(1), of "f e"] assms(2)
    by (cases "js_get m (f e)") (simp_all add: noneIfEmpty_def split: if_splits)
  have "js_map_ok ?m" "\<forall>dead. queuesOk dead ?m"
    using assms(1) by (auto simp: indexed_def intro: wf_intros queuesOk_index_step)
  moreover have "entriesOf ?m k = (if keep k then noneIfEmpty (filter (\<lambda>x. f x = k) (es @ [e])) else None)" for k
    using indexed_get [OF assms(1), of k] assms(2) q by (cases "k = f e") (auto simp: noneIfEmpty_snoc)
  ultimately show ?thesis unfolding indexed_def by blast
qed

lemma indexed_skip:
  "indexed m (\<lambda>k e. f e = k) es keep \<Longrightarrow> \<not> keep (f e) \<Longrightarrow> indexed m (\<lambda>k e. f e = k) (es @ [e]) keep"
  by (auto simp: indexed_def)

lemma indexEntries_ok:
  assumes "indexed classes (\<lambda>k e. pw_priority (en_waiter e) = k) done (\<lambda>_. True)"
    and "indexed owners (\<lambda>k e. pw_ownerKey (en_waiter e) = k) done (js_has remaining)"
  shows "\<exists>classes' owners'. indexEntries remaining es classes owners = (classes', owners') \<and>
     indexed classes' (\<lambda>k e. pw_priority (en_waiter e) = k) (done @ es) (\<lambda>_. True) \<and>
     indexed owners' (\<lambda>k e. pw_ownerKey (en_waiter e) = k) (done @ es) (js_has remaining)"
  using assms
proof (induction es arbitrary: classes owners "done")
  case (Cons e es)
  note c = indexed_push [OF Cons.prems(1), of e, simplified]
  show ?case
  proof (cases "js_has remaining (pw_ownerKey (en_waiter e))")
    case True
    from Cons.IH [OF c indexed_push [OF Cons.prems(2) True]] True show ?thesis
      by (simp add: Let_def)
  next
    case False
    from Cons.IH [OF c indexed_skip [OF Cons.prems(2) False]] False show ?thesis
      by (simp add: Let_def)
  qed
qed simp

lemma indexed_Nil: "indexed [] key [] keep"
  by (simp add: indexed_def queuesOk_def noneIfEmpty_def)

definition remainingOk :: "(ident, int) js_map \<Rightarrow> (ident \<Rightarrow> int) \<Rightarrow> bool" where
  "remainingOk remaining left \<longleftrightarrow>
     js_map_ok remaining \<and> (\<forall>owner. js_get remaining owner = (if 0 < left owner then Some (left owner) else None))"

definition unmetSlots :: "(ident, int) js_map \<Rightarrow> ident \<times> int \<Rightarrow> int" where
  "unmetSlots act on = max 0 (snd on - ownerActive act (fst on))"

lemma initRemaining_ok:
  assumes "js_map_ok res" "\<forall>owner \<in> set (js_keys res). js_get remaining owner = None" "js_map_ok remaining"
  shows "\<exists>remaining'. initRemaining act res remaining summed =
      (remaining', summed + sum_list (map (unmetSlots act) res)) \<and> js_map_ok remaining' \<and>
      (\<forall>owner. js_get remaining' owner =
         (case js_get res owner of
            None \<Rightarrow> js_get remaining owner
          | Some n \<Rightarrow> if 0 < unmetSlots act (owner, n) then Some (unmetSlots act (owner, n)) else None))"
  using assms
proof (induction res arbitrary: remaining summed)
  case (Cons on res)
  obtain ow n where on: "on = (ow, n)" by (cases on)
  define slots where "slots = unmetSlots act on"
  define r1 where "r1 = (if slots > 0 then js_put ow slots remaining else remaining)"
  have new: "ow \<notin> set (js_keys res)" "js_get remaining ow = None" using Cons.prems on by auto
  have r1: "\<forall>owner \<in> set (js_keys res). js_get r1 owner = None" "js_map_ok r1"
    using Cons.prems on new by (auto simp: r1_def js_map_ok_put)
  have step: "initRemaining act (on # res) remaining summed = initRemaining act res r1 (summed + slots)"
    by (simp add: on r1_def slots_def unmetSlots_def Let_def)
  have ok: "js_map_ok res" using Cons.prems(1) by simp
  obtain r' where r': "initRemaining act res r1 (summed + slots) =
      (r', summed + slots + sum_list (map (unmetSlots act) res))" "js_map_ok r'"
    "\<forall>owner. js_get r' owner = (case js_get res owner of None \<Rightarrow> js_get r1 owner
        | Some n \<Rightarrow> if 0 < unmetSlots act (owner, n) then Some (unmetSlots act (owner, n)) else None)"
    using Cons.IH [OF ok r1] by blast
  have "js_get res ow = None" using new by (simp add: map_of_eq_None_iff)
  then have "js_get r' owner = (case js_get (on # res) owner of None \<Rightarrow> js_get remaining owner
        | Some n \<Rightarrow> if 0 < unmetSlots act (owner, n) then Some (unmetSlots act (owner, n)) else None)" for owner
    using r'(3) new(2) by (cases "owner = ow") (simp_all add: on r1_def slots_def split: option.splits)
  then show ?case unfolding step r'(1) using r'(2) by (auto simp: slots_def)
qed simp

subsection \<open>First of each class\<close>

lemma filter_map_filter:
  assumes "\<And>x y. x \<in> set xs \<Longrightarrow> g x = Some y \<Longrightarrow> P y = Q x"
  shows "filter P (List.map_filter g xs) = List.map_filter g (filter Q xs)"
  using assms by (induction xs) (auto simp: map_filter_simps split: option.splits)

lemma filter_key: "js_map_ok m \<Longrightarrow> filter (\<lambda>(k, v). k = k0) m = (case js_get m k0 of None \<Rightarrow> [] | Some v \<Rightarrow> [(k0, v)])"
proof (induction m)
  case (Cons kv m)
  obtain k v where kv: "kv = (k, v)" by (cases kv)
  show ?case
  proof (cases "k = k0")
    case True
    have "filter (\<lambda>(k, v). k = k0) m = []"
      using Cons.prems True kv by (force simp: filter_empty_conv)
    with True kv show ?thesis by simp
  next
    case False
    with Cons kv show ?thesis by (simp split: option.splits)
  qed
qed simp

text \<open>The list of the first entry that meets \<open>ok\<close> of every class.\<close>

definition firstsOf :: "(entry \<Rightarrow> bool) \<Rightarrow> entry list \<Rightarrow> entry list \<Rightarrow> bool" where
  "firstsOf ok es fs \<longleftrightarrow>
     (\<forall>p. filter (\<lambda>e. pw_priority (en_waiter e) = p) fs =
        (case find (\<lambda>e. ok e \<and> pw_priority (en_waiter e) = p) es of None \<Rightarrow> [] | Some e \<Rightarrow> [e]))"

lemma firstOf_firsts:
  assumes ok: "js_map_ok classes"
    and get: "\<And>p. entriesOf classes p = noneIfEmpty (filter (\<lambda>e. pw_priority (en_waiter e) = p) es)"
  shows "firstsOf (unblocked dead borrows owners E) es (firstOf dead borrows owners E classes)"
  unfolding firstsOf_def
proof
  fix p
  let ?ok = "unblocked dead borrows owners E"
  have q: "q_entries q = filter (\<lambda>e. pw_priority (en_waiter e) = k) es" if "(k, q) \<in> set classes" for k q
    using get [of k] that ok by (auto simp: noneIfEmpty_def split: if_splits)
  have "filter (\<lambda>e. pw_priority (en_waiter e) = p) (firstOf dead borrows owners E classes) =
      List.map_filter (\<lambda>(p, q). find ?ok (q_entries q)) (filter (\<lambda>(k, q). k = p) classes)"
    unfolding firstOf_def by (rule filter_map_filter) (auto simp: q dest!: find_Some_in)
  also have "\<dots> = (case find (\<lambda>e. ?ok e \<and> pw_priority (en_waiter e) = p) es of None \<Rightarrow> [] | Some e \<Rightarrow> [e])"
  proof (cases "js_get classes p")
    case None
    then have "filter (\<lambda>e. pw_priority (en_waiter e) = p) es = []"
      using get [of p] by (auto simp: noneIfEmpty_def split: if_splits)
    then have "find (\<lambda>e. ?ok e \<and> pw_priority (en_waiter e) = p) es = None"
      by (auto simp: find_None_iff filter_empty_conv)
    with None show ?thesis by (simp add: filter_key [OF ok] map_filter_simps)
  next
    case (Some q)
    then have "find ?ok (q_entries q) = find (\<lambda>e. ?ok e \<and> pw_priority (en_waiter e) = p) es"
      using q [of p q] by (simp add: map_of_SomeD find_filter conj_commute)
    with Some show ?thesis by (simp add: filter_key [OF ok] map_filter_simps split: option.splits)
  qed
  finally show "filter (\<lambda>e. pw_priority (en_waiter e) = p) (firstOf dead borrows owners E classes) =
    (case find (\<lambda>e. ?ok e \<and> pw_priority (en_waiter e) = p) es of None \<Rightarrow> [] | Some e \<Rightarrow> [e])" .
qed

lemma firstsOf_in:
  assumes "firstsOf ok es fs" "e \<in> set fs"
  shows "e \<in> set es" "ok e"
proof -
  have "e \<in> set (filter (\<lambda>x. pw_priority (en_waiter x) = pw_priority (en_waiter e)) fs)"
    using assms(2) by simp
  then have "find (\<lambda>x. ok x \<and> pw_priority (en_waiter x) = pw_priority (en_waiter e)) es = Some e"
    using assms(1) unfolding firstsOf_def by (auto split: option.splits)
  then show "e \<in> set es" "ok e" by (auto dest: find_Some_in)
qed

lemma firstsOf_class:
  assumes "firstsOf ok es fs" "e \<in> set es" "ok e"
  obtains e' where "e' \<in> set fs" "pw_priority (en_waiter e') = pw_priority (en_waiter e)"
proof -
  obtain e' where "find (\<lambda>x. ok x \<and> pw_priority (en_waiter x) = pw_priority (en_waiter e)) es = Some e'"
    using assms(2,3) by (cases "find (\<lambda>x. ok x \<and> pw_priority (en_waiter x) = pw_priority (en_waiter e)) es")
      (auto simp: find_None_iff)
  then have "filter (\<lambda>x. pw_priority (en_waiter x) = pw_priority (en_waiter e)) fs = [e']"
    using assms(1) unfolding firstsOf_def by simp
  then have "e' \<in> set (filter (\<lambda>x. pw_priority (en_waiter x) = pw_priority (en_waiter e)) fs)" by simp
  then show thesis using that [of e'] by auto
qed

lemma firstsOf_Nil: "firstsOf ok es fs \<Longrightarrow> fs = [] \<longleftrightarrow> filter ok es = []"
  using firstsOf_in [of ok es fs] firstsOf_class [of ok es fs]
  by (cases fs) (auto simp: filter_empty_conv)

lemma distinct_by_class: "(\<And>p. length (filter (\<lambda>x. f x = p) xs) \<le> 1) \<Longrightarrow> distinct xs"
proof (induction xs)
  case (Cons x xs)
  have "length (filter (\<lambda>y. f y = p) xs) \<le> 1" for p
    using Cons.prems [of p] by (auto split: if_splits)
  moreover have "x \<notin> set xs"
    using Cons.prems [of "f x"] by (auto simp: filter_empty_conv)
  ultimately show ?case using Cons.IH by simp
qed simp

lemma firstsOf_distinct:
  assumes "firstsOf ok es fs" "distinct (map g es)"
  shows "distinct (map g fs)"
proof -
  have "length (filter (\<lambda>e. pw_priority (en_waiter e) = p) fs) \<le> 1" for p
    using assms(1) by (auto simp: firstsOf_def split: option.splits)
  then have "distinct fs" by (rule distinct_by_class)
  moreover have "set fs \<subseteq> set es" using firstsOf_in [OF assms(1)] by blast
  ultimately show ?thesis using assms(2) by (auto simp: distinct_map intro: inj_on_subset)
qed

lemma listHead_map_filter: "listHead (map f (filter P xs)) = map_option f (find P xs)"
  by (induction xs) auto

subsection \<open>The decision reads only the first of each class\<close>

lemma compareEntries_consistent:
  assumes "consistent_comparator lc"
  shows "consistent_comparator (compareEntries lc)"
proof -
  note cmp = compareSchedulerCandidates_consistent [OF assms]
  show ?thesis
    unfolding compareEntries_def
    by unfold_locales (fact consistent_comparator.cmp_swap [OF cmp], fact consistent_comparator.cmp_trans [OF cmp])
qed

abbreviation entriesOrdered :: "(ident \<Rightarrow> ident \<Rightarrow> int) \<Rightarrow> entry list \<Rightarrow> bool" where
  "entriesOrdered lc \<equiv> sorted_wrt (\<lambda>a b. compareEntries lc a b \<le> 0)"

lemma classHead_entries:
  assumes lc: "consistent_comparator lc" and "entriesOrdered lc es" "\<forall>e \<in> set es. e = toEntry (en_waiter e)"
  shows "classHead lc (map en_candidate es) p =
    map_option en_candidate (find (\<lambda>e. pw_priority (en_waiter e) = p) es)"
proof -
  have "filter (\<lambda>c. sc_eligible c \<and> sc_priority c = p) (map en_candidate es) =
      map en_candidate (filter (\<lambda>e. pw_priority (en_waiter e) = p) es)"
    unfolding filter_map comp_def
    by (rule arg_cong [where f = "map en_candidate"], rule filter_cong)
      (use assms(3) in \<open>metis en_toEntry(4,5)\<close>)+
  moreover have "js_sort (compareSchedulerCandidates lc) (map en_candidate xs) = map en_candidate xs"
    if "entriesOrdered lc xs" for xs
    using that consistent_comparator.js_sort_ordered [OF compareSchedulerCandidates_consistent [OF lc]]
    by (simp add: sorted_wrt_map compareEntries_def)
  ultimately show ?thesis
    using assms(2) by (simp add: classHead_def sorted_wrt_filter listHead_map_filter)
qed

lemma classHead_firsts:
  assumes lc: "consistent_comparator lc" and "entriesOrdered lc es" "\<forall>e \<in> set es. e = toEntry (en_waiter e)"
    and fs: "firstsOf ok es fs"
  shows "classHead lc (map en_candidate fs) = classHead lc (map en_candidate (filter ok es))"
proof
  fix p
  have "\<forall>e \<in> set (filter ok es). e = toEntry (en_waiter e)" using assms(3) by simp
  then have ref: "classHead lc (map en_candidate (filter ok es)) p =
      map_option en_candidate (find (\<lambda>e. ok e \<and> pw_priority (en_waiter e) = p) es)"
    using classHead_entries [OF lc sorted_wrt_filter [OF assms(2)]] by (simp add: find_filter)
  have cand: "sc_eligible (en_candidate e) \<and> sc_priority (en_candidate e) = pw_priority (en_waiter e)"
    if "e \<in> set fs" for e
    using firstsOf_in(1) [OF fs that] assms(3) by (metis en_toEntry(4,5))
  have "filter (\<lambda>c. sc_eligible c \<and> sc_priority c = p) (map en_candidate fs) =
      map en_candidate (filter (\<lambda>e. pw_priority (en_waiter e) = p) fs)"
    unfolding filter_map comp_def
    by (rule arg_cong [where f = "map en_candidate"], rule filter_cong) (simp_all add: cand)
  also have "\<dots> = (case find (\<lambda>e. ok e \<and> pw_priority (en_waiter e) = p) es of
      None \<Rightarrow> [] | Some e \<Rightarrow> [en_candidate e])"
    using fs unfolding firstsOf_def by (simp split: option.splits)
  finally show "classHead lc (map en_candidate fs) p = classHead lc (map en_candidate (filter ok es)) p"
    unfolding ref by (simp add: classHead_def split: option.splits)
qed

lemma schedule_firsts:
  assumes "consistent_comparator lc" "entriesOrdered lc es" "\<forall>e \<in> set es. e = toEntry (en_waiter e)"
    and fs: "firstsOf ok es fs"
  shows "scheduleWeightedDeficitRoundRobin lc (map en_candidate fs) st quanta =
    scheduleWeightedDeficitRoundRobin lc (map en_candidate (filter ok es)) st quanta"
proof -
  have cand: "sc_priority (en_candidate e) = pw_priority (en_waiter e)" if "e \<in> set es" for e
    using that assms(3) by (metis en_toEntry(4))
  have bad: "(\<exists>c \<in> set (map en_candidate fs). \<not> validPriority (sc_priority c)) \<longleftrightarrow>
      (\<exists>c \<in> set (map en_candidate (filter ok es)). \<not> validPriority (sc_priority c))" (is "?l \<longleftrightarrow> ?r")
  proof
    show "?l \<Longrightarrow> ?r" using firstsOf_in [OF fs] by auto
    show "?r \<Longrightarrow> ?l"
    proof clarsimp
      fix e assume "e \<in> set es" "ok e" "\<not> validPriority (sc_priority (en_candidate e))"
      moreover from this obtain e' where "e' \<in> set fs" "pw_priority (en_waiter e') = pw_priority (en_waiter e)"
        using firstsOf_class [OF fs] by blast
      ultimately show "\<exists>e \<in> set fs. \<not> validPriority (sc_priority (en_candidate e))"
        using cand firstsOf_in(1) [OF fs] by metis
    qed
  qed
  show ?thesis
    unfolding scheduleWeightedDeficitRoundRobin_drrPick classHead_firsts [OF assms] bad ..
qed

lemma visitClasses_winner:
  "sd_winner (visitClasses vs (headQueues h) st quanta ds) = Some w \<Longrightarrow> \<exists>p. h p = Some w"
  by (induction vs arbitrary: ds)
    (auto simp: headQueues_get Let_def js_nullish_def split: option.splits if_splits list.splits)

lemma schedule_winner:
  assumes "scheduleWeightedDeficitRoundRobin lc cs st quanta = Inr d" "sd_winner d = Some w"
  shows "w \<in> set cs"
proof -
  have "d = drrPick (classHead lc cs) st quanta"
    using assms(1) by (auto simp: scheduleWeightedDeficitRoundRobin_drrPick split: sum.splits if_splits)
  then obtain p where "classHead lc cs p = Some w"
    using assms(2) visitClasses_winner unfolding drrPick_def by blast
  then show ?thesis using classHead_priority by blast
qed

subsection \<open>Simulation\<close>

definition planDead :: "planState \<Rightarrow> entry \<Rightarrow> bool" where
  "planDead st = deadEntry (ps_takenRequests st) (ps_scopeActive st)"

definition simRel ::
    "(ident \<Rightarrow> ident \<Rightarrow> int) \<Rightarrow> admissionSnapshot \<Rightarrow> millis \<Rightarrow> plannerOptions \<Rightarrow> planState \<Rightarrow> refState \<Rightarrow> bool" where
  "simRel lc snap now options st rst \<longleftrightarrow>
     ps_active st = rs_active rst \<and> ps_activeByOwner st = rs_activeByOwner rst \<and>
     ps_scopeActive st = rs_scopeActive rst \<and> ps_scheduler st = rs_scheduler rst \<and>
     ps_grants st = rs_grants rst \<and>
     rs_entries rst =
       filter (\<lambda>e. pw_admissionRequestId (en_waiter e) \<notin> set (ps_takenRequests st))
         (rs_entries (refInit lc snap now options)) \<and>
     js_map_ok (ps_classes st) \<and> queuesOk (planDead st) (ps_classes st) \<and>
     (\<forall>p. entriesOf (ps_classes st) p =
        noneIfEmpty (filter (\<lambda>e. pw_priority (en_waiter e) = p) (planEntries lc snap now options))) \<and>
     queuesOk (planDead st) (ps_ownerQueues st) \<and>
     (\<forall>owner. js_has (ps_remaining st) owner \<longrightarrow>
        entriesOf (ps_ownerQueues st) owner =
          noneIfEmpty (filter (\<lambda>e. pw_ownerKey (en_waiter e) = owner) (planEntries lc snap now options))) \<and>
     remainingOk (ps_remaining st)
       (ownerRemaining (as_reservationsByOwner snap) (ps_activeByOwner st)) \<and>
     ps_reservedRemainingTotal st = refReservedTotal (as_reservationsByOwner snap) (ps_activeByOwner st) \<and>
     (\<forall>owner. 0 \<le> ownerActive (ps_activeByOwner st) owner)"

lemma planEntries_filter:
  assumes "consistent_comparator lc"
  shows "planEntries lc snap now options =
    filter (\<lambda>e. notBeforePassed now (en_waiter e)) (rs_entries (refInit lc snap now options))"
proof -
  have "map toEntry (filter (\<lambda>w. P w \<and> notBeforePassed now w) ws) =
      filter (\<lambda>e. notBeforePassed now (en_waiter e)) (map toEntry (filter P ws))" for P ws
    by (simp add: filter_map comp_def conj_commute)
  then show ?thesis
    using consistent_comparator.js_sort_filter [OF compareEntries_consistent [OF assms]]
    by (simp add: planEntries_def refInit_def)
qed

lemma planEntries_facts:
  assumes "consistent_comparator lc"
  shows "entriesOrdered lc (planEntries lc snap now options)"
    "\<forall>e \<in> set (planEntries lc snap now options). e = toEntry (en_waiter e)"
    "wfSnapshot snap \<Longrightarrow> distinct (map (\<lambda>e. pw_waiterId (en_waiter e)) (planEntries lc snap now options))"
  using consistent_comparator.ordered_js_sort [OF compareEntries_consistent [OF assms]]
  by (auto simp: planEntries_def wfSnapshot_def distinct_map_filter comp_def)

text \<open>What the optimised step finds eligible is what the reference finds eligible.\<close>

definition planOk :: "admissionSnapshot \<Rightarrow> planState \<Rightarrow> entry \<Rightarrow> bool" where
  "planOk snap st =
     unblocked (planDead st) (planBorrows snap st) (js_keys (ps_remaining st)) (entriesOf (ps_ownerQueues st))"

lemma simRel_entries:
  assumes "consistent_comparator lc" "simRel lc snap now options st rst"
  shows "e \<in> set (rs_entries rst) \<and> notBeforePassed now (en_waiter e) \<and>
      scopeHasRoom (rs_scopeActive rst) (en_waiter e) \<longleftrightarrow>
    e \<in> set (planEntries lc snap now options) \<and> \<not> planDead st e"
  using assms by (auto simp: planEntries_filter planDead_def deadEntry_def simRel_def)

lemma simRel_remaining:
  assumes "simRel lc snap now options st rst"
  shows "js_nullish (js_get (ps_remaining st) owner) 0 =
      ownerRemaining (as_reservationsByOwner snap) (rs_activeByOwner rst) owner"
    "js_has (ps_remaining st) owner \<longleftrightarrow>
      0 < ownerRemaining (as_reservationsByOwner snap) (rs_activeByOwner rst) owner"
  using assms by (auto simp: simRel_def remainingOk_def js_has_get ownerRemaining_def)

lemma simRel_borrows:
  assumes "simRel lc snap now options st rst"
  shows "takesKeptSlot (as_capacityLimit snap) (rs_active rst)
      (ownerRemaining (as_reservationsByOwner snap) (rs_activeByOwner rst) (pw_ownerKey w))
      (refReservedTotal (as_reservationsByOwner snap) (rs_activeByOwner rst)) = planBorrows snap st w"
  using assms unfolding planBorrows_def simRel_remaining(1) [OF assms] by (simp add: simRel_def)

lemma liveIn_noneIfEmpty:
  "E k = noneIfEmpty (filter P es) \<Longrightarrow> liveIn dead E k \<longleftrightarrow> (\<exists>e \<in> set es. P e \<and> \<not> dead e)"
  by (auto simp: liveIn_def noneIfEmpty_def filter_empty_conv split: if_splits)

lemma simRel_besides:
  assumes lc: "consistent_comparator lc" and sim: "simRel lc snap now options st rst"
  shows "waitingBesides (refNeedyOwners (as_reservationsByOwner snap) now rst (rs_entries rst) []) k \<longleftrightarrow>
    (\<exists>owner \<in> set (js_keys (ps_remaining st)). owner \<noteq> k \<and>
       liveIn (planDead st) (entriesOf (ps_ownerQueues st)) owner)"
proof -
  have live: "liveIn (planDead st) (entriesOf (ps_ownerQueues st)) owner \<longleftrightarrow>
      (\<exists>e \<in> set (planEntries lc snap now options). pw_ownerKey (en_waiter e) = owner \<and> \<not> planDead st e)"
    if "js_has (ps_remaining st) owner" for owner
    using that sim by (intro liveIn_noneIfEmpty) (simp add: simRel_def)
  have "waitingBesides (refNeedyOwners (as_reservationsByOwner snap) now rst (rs_entries rst) []) k \<longleftrightarrow>
      (\<exists>e. e \<in> set (rs_entries rst) \<and> notBeforePassed now (en_waiter e) \<and>
        scopeHasRoom (rs_scopeActive rst) (en_waiter e) \<and>
        js_has (ps_remaining st) (pw_ownerKey (en_waiter e)) \<and> pw_ownerKey (en_waiter e) \<noteq> k)"
    unfolding waitingBesides_def list_ex_iff set_refNeedyOwners simRel_remaining(2) [OF sim] by auto
  also have "\<dots> \<longleftrightarrow> (\<exists>e \<in> set (planEntries lc snap now options). \<not> planDead st e \<and>
        js_has (ps_remaining st) (pw_ownerKey (en_waiter e)) \<and> pw_ownerKey (en_waiter e) \<noteq> k)"
    using simRel_entries [OF lc sim] by blast
  also have "\<dots> \<longleftrightarrow> (\<exists>owner \<in> set (js_keys (ps_remaining st)). owner \<noteq> k \<and>
       liveIn (planDead st) (entriesOf (ps_ownerQueues st)) owner)"
    unfolding Bex_def js_has_keys [symmetric] using live by blast
  finally show ?thesis .
qed

lemma simRel_eligible:
  assumes lc: "consistent_comparator lc" and sim: "simRel lc snap now options st rst"
  shows "refEligible snap now rst
      (refNeedyOwners (as_reservationsByOwner snap) now rst (rs_entries rst) []) (rs_entries rst) =
    map (\<lambda>e. (e, planBorrows snap st (en_waiter e)))
      (filter (planOk snap st) (planEntries lc snap now options))"
proof -
  have ent: "rs_entries rst = filter (\<lambda>e. pw_admissionRequestId (en_waiter e) \<notin> set (ps_takenRequests st))
         (rs_entries (refInit lc snap now options))"
    and sc: "rs_scopeActive rst = ps_scopeActive st"
    using sim by (simp_all add: simRel_def)
  show ?thesis
    unfolding refEligible_filter simRel_borrows [OF sim] simRel_besides [OF lc sim]
      planEntries_filter [OF lc] unfolding ent filter_filter
    by (intro arg_cong [where f = "map _"] filter_cong)
      (auto simp: planOk_def unblocked_def planDead_def deadEntry_def sc)
qed

lemma entriesOf_map:
  assumes "map (\<lambda>(p, q). (p, q_entries q)) m' = map (\<lambda>(p, q). (p, q_entries q)) m"
  shows "entriesOf m' = entriesOf m" "map fst m' = map fst m"
proof -
  have eq: "entriesOf m = map_of (map (\<lambda>(p, q). (p, q_entries q)) m)" for m :: "('k, queue) js_map"
    by (simp add: map_of_map fun_eq_iff)
  show "entriesOf m' = entriesOf m" unfolding eq assms ..
  have "map fst m = map fst (map (\<lambda>(p, q). (p, q_entries q)) m)" for m :: "('k, queue) js_map"
    by (simp add: comp_def case_prod_unfold)
  then show "map fst m' = map fst m" using assms by metis
qed

lemma queuesOk_set: "js_map_ok m \<Longrightarrow> queuesOk dead m \<longleftrightarrow> (\<forall>(k, q) \<in> set m. queueOk dead q)"
  by (auto simp: queuesOk_def)

lemma simRel_scan:
  assumes sim: "simRel lc snap now options st rst"
  obtains classes' m' where
    "scanClasses (deadEntry (ps_takenRequests st) (ps_scopeActive st)) (planBorrows snap st)
        (js_keys (ps_remaining st)) (ps_classes st) None (ps_ownerQueues st) =
      Some (classes', m', map (\<lambda>e. (e, planBorrows snap st (en_waiter e)))
        (firstOf (planDead st) (planBorrows snap st) (js_keys (ps_remaining st))
          (entriesOf (ps_ownerQueues st)) (ps_classes st)))"
    "simRel lc snap now options (st\<lparr>ps_classes := classes', ps_ownerQueues := m'\<rparr>) rst"
proof -
  have ok: "js_map_ok (ps_classes st)" "distinct (js_keys (ps_remaining st))" "queuesOk (planDead st) (ps_classes st)"
    and inv: "needyInv (planDead st) (js_keys (ps_remaining st)) (entriesOf (ps_ownerQueues st)) None (ps_ownerQueues st)"
    using sim by (simp_all add: simRel_def remainingOk_def needyInv_def)
  then have cl: "\<forall>(p, q) \<in> set (ps_classes st). queueOk (planDead st) q"
    using queuesOk_set by blast
  obtain classes' m' needy' where r:
    "scanClasses (planDead st) (planBorrows snap st) (js_keys (ps_remaining st)) (ps_classes st) None
        (ps_ownerQueues st) =
      Some (classes', m', map (\<lambda>e. (e, planBorrows snap st (en_waiter e)))
        (firstOf (planDead st) (planBorrows snap st) (js_keys (ps_remaining st))
          (entriesOf (ps_ownerQueues st)) (ps_classes st)))"
    "\<forall>(p, q) \<in> set classes'. queueOk (planDead st) q"
    "map (\<lambda>(p, q). (p, q_entries q)) classes' = map (\<lambda>(p, q). (p, q_entries q)) (ps_classes st)"
    "needyInv (planDead st) (js_keys (ps_remaining st)) (entriesOf (ps_ownerQueues st)) needy' m'"
    using scanClasses_ok [OF cl inv ok(2)] by blast
  have c: "\<And>p. entriesOf classes' p = entriesOf (ps_classes st) p" "js_map_ok classes'"
    using entriesOf_map [OF r(3)] ok(1) by (auto dest: fun_cong)
  have "queuesOk (planDead st) classes'" using queuesOk_set [OF c(2)] r(2) by blast
  moreover have "queuesOk (planDead st) m'" "\<And>owner. entriesOf m' owner = entriesOf (ps_ownerQueues st) owner"
    using r(4) by (auto simp: needyInv_def dest: fun_cong)
  moreover have "planDead (st\<lparr>ps_classes := classes', ps_ownerQueues := m'\<rparr>) = planDead st"
    by (simp add: planDead_def)
  ultimately have "simRel lc snap now options (st\<lparr>ps_classes := classes', ps_ownerQueues := m'\<rparr>) rst"
    using sim c unfolding simRel_def by (elim conjE) simp
  with r(1) show thesis by (intro that) (simp_all add: planDead_def)
qed

lemma scopeHasRoom_bump: "scopeHasRoom (bumpScopes keys m) w \<Longrightarrow> scopeHasRoom m w"
  by (auto simp: scopeHasRoom_def list_all_iff bumpScopes_get split: option.splits)

lemma planDead_apply: "planDead st e \<Longrightarrow> planDead (planApply st winner eligible after) e"
  by (auto simp: planDead_def deadEntry_def planApply_def Let_def dest: scopeHasRoom_bump)

lemma ownerActive_put:
  "ownerActive (js_put owner n m) k = (if k = owner then n else ownerActive m k)"
  by (simp add: ownerActive_def)

lemma ownerRemaining_grant:
  "ownerRemaining res (js_put owner (ownerActive act owner + 1) act) k =
     (if k = owner then max 0 (ownerRemaining res act owner - 1) else ownerRemaining res act k)"
  by (auto simp: ownerRemaining_def ownerActive_put max_def)

lemma ownerRemaining_nonneg: "0 \<le> ownerRemaining res act k"
  by (simp add: ownerRemaining_def)

lemma refReservedTotal_grant:
  assumes "js_map_ok res" "0 \<le> ownerActive act owner"
  shows "refReservedTotal res (js_put owner (ownerActive act owner + 1) act) =
    (if 0 < ownerRemaining res act owner then refReservedTotal res act - 1 else refReservedTotal res act)"
proof -
  let ?act = "js_put owner (ownerActive act owner + 1) act"
  show ?thesis
  proof (cases "0 < ownerRemaining res act owner")
    case True
    have "js_get res owner \<noteq> None" using True assms(2) by (cases "js_get res owner") (auto simp: ownerRemaining_def)
    then have "owner \<in> set (js_keys res)" unfolding js_has_get [symmetric] js_has_keys .
    then have "(\<Sum>k\<leftarrow>js_keys res. ownerRemaining res ?act k) =
        (\<Sum>k\<leftarrow>js_keys res. ownerRemaining res act k) - ownerRemaining res act owner + ownerRemaining res ?act owner"
      using assms(1) by (intro sum_list_map_update) (auto simp: ownerRemaining_grant)
    moreover have "ownerRemaining res ?act owner = ownerRemaining res act owner - 1"
      using True by (simp add: ownerRemaining_grant)
    ultimately show ?thesis using True unfolding refReservedTotal_def by simp
  next
    case False
    then have "ownerRemaining res ?act = ownerRemaining res act"
      using ownerRemaining_nonneg [of res act owner] by (auto simp: ownerRemaining_grant fun_eq_iff)
    then show ?thesis using False by (simp add: refReservedTotal_def)
  qed
qed

lemma remainingOk_grant:
  fixes owner :: ident
  assumes "remainingOk remaining (ownerRemaining res act)"
  defines "slots \<equiv> js_nullish (js_get remaining owner) 0"
  shows "remainingOk
     (if slots > 0 then (if slots = 1 then js_del owner remaining else js_put owner (slots - 1) remaining)
      else remaining)
     (ownerRemaining res (js_put owner (ownerActive act owner + 1) act))"
    "0 < slots \<longleftrightarrow> 0 < ownerRemaining res act owner"
proof -
  have get: "js_get remaining k = (if 0 < ownerRemaining res act k then Some (ownerRemaining res act k) else None)" for k
    using assms(1) by (simp add: remainingOk_def)
  have ok: "js_map_ok remaining" using assms(1) by (simp add: remainingOk_def)
  have slots: "slots = ownerRemaining res act owner"
    using ownerRemaining_nonneg [of res act owner] by (auto simp: slots_def get)
  show "0 < slots \<longleftrightarrow> 0 < ownerRemaining res act owner" by (simp add: slots)
  show "remainingOk
     (if slots > 0 then (if slots = 1 then js_del owner remaining else js_put owner (slots - 1) remaining)
      else remaining)
     (ownerRemaining res (js_put owner (ownerActive act owner + 1) act))"
    unfolding remainingOk_def ownerRemaining_grant slots
    using ok by (auto simp: get js_map_ok_put js_map_ok_del)
qed

lemma simRel_apply:
  assumes sim: "simRel lc snap now options st rst" and wf: "wfSnapshot snap"
    and grant: "grantOf winner eligible after = grantOf winner eligible' after"
  shows "simRel lc snap now options (planApply st winner eligible after) (refApply rst winner eligible' after)"
proof -
  let ?st = "planApply st winner eligible after" and ?rst = "refApply rst winner eligible' after"
  let ?owner = "pw_ownerKey (en_waiter winner)" and ?res = "as_reservationsByOwner snap"
  have act: "ps_activeByOwner st = rs_activeByOwner rst" "\<And>owner. 0 \<le> ownerActive (ps_activeByOwner st) owner"
    using sim unfolding simRel_def by blast+
  have rem: "remainingOk (ps_remaining st) (ownerRemaining ?res (ps_activeByOwner st))"
    using sim unfolding simRel_def by blast
  have res: "js_map_ok ?res" using wf by (simp add: wfSnapshot_def)
  have dead: "queuesOk (planDead ?st) (ps_classes st)" "queuesOk (planDead ?st) (ps_ownerQueues st)"
    using sim by (auto simp: simRel_def intro: queuesOk_mono planDead_apply)
  have has: "js_has (ps_remaining ?st) k \<Longrightarrow> js_has (ps_remaining st) k" for k
    using rem by (auto simp: planApply_def Let_def remainingOk_def js_has_get split: if_splits)
  have entries: "rs_entries ?rst = filter (\<lambda>e. pw_admissionRequestId (en_waiter e) \<notin> set (ps_takenRequests ?st))
         (rs_entries (refInit lc snap now options))"
    using sim by (auto simp: simRel_def planApply_def refApply_def Let_def intro: filter_cong)
  have "remainingOk (ps_remaining ?st) (ownerRemaining ?res (ps_activeByOwner ?st))"
    using remainingOk_grant(1) [OF rem, of ?owner] by (simp add: planApply_def Let_def)
  moreover have "ps_reservedRemainingTotal ?st = refReservedTotal ?res (ps_activeByOwner ?st)"
    using refReservedTotal_grant [OF res act(2), of ?owner] remainingOk_grant(2) [OF rem, of ?owner] sim
    by (simp add: planApply_def Let_def simRel_def)
  moreover have "\<forall>owner. 0 \<le> ownerActive (ps_activeByOwner ?st) owner"
    using act(2) by (simp add: planApply_def Let_def ownerActive_put)
  moreover have "ps_active ?st = rs_active ?rst" "ps_activeByOwner ?st = rs_activeByOwner ?rst"
    "ps_scopeActive ?st = rs_scopeActive ?rst" "ps_scheduler ?st = rs_scheduler ?rst"
    "ps_grants ?st = rs_grants ?rst"
    using sim grant by (auto simp: simRel_def planApply_def refApply_def Let_def)
  moreover have "ps_classes ?st = ps_classes st" "ps_ownerQueues ?st = ps_ownerQueues st"
    by (simp_all add: planApply_def Let_def)
  ultimately show ?thesis
    using sim dead has entries unfolding simRel_def by (elim conjE) (intro conjI; simp)
qed

lemma simRel_init:
  assumes "wfSnapshot snap"
  shows "simRel lc snap now options (planInit snap (planEntries lc snap now options)) (refInit lc snap now options)"
proof -
  let ?es = "planEntries lc snap now options" and ?act = "as_activeByOwner snap" and ?res = "as_reservationsByOwner snap"
  have res: "js_map_ok ?res" and nonneg: "\<And>owner. 0 \<le> ownerActive ?act owner"
    using assms by (auto simp: wfSnapshot_def ownerActive_def js_nullish_def split: option.splits dest!: map_of_SomeD)
  obtain remaining where r: "initRemaining ?act ?res [] 0 = (remaining, sum_list (map (unmetSlots ?act) ?res))"
    "js_map_ok remaining"
    "\<forall>owner. js_get remaining owner = (case js_get ?res owner of None \<Rightarrow> js_get [] owner
       | Some n \<Rightarrow> if 0 < unmetSlots ?act (owner, n) then Some (unmetSlots ?act (owner, n)) else None)"
    using initRemaining_ok [OF res, of "[]" ?act 0] by auto
  obtain classes owners where c: "indexEntries remaining ?es [] [] = (classes, owners)"
    "indexed classes (\<lambda>k e. pw_priority (en_waiter e) = k) ?es (\<lambda>_. True)"
    "indexed owners (\<lambda>k e. pw_ownerKey (en_waiter e) = k) ?es (js_has remaining)"
    using indexEntries_ok [OF indexed_Nil indexed_Nil, of remaining ?es] by auto
  have "js_get remaining owner = (if 0 < ownerRemaining ?res ?act owner then Some (ownerRemaining ?res ?act owner) else None)" for owner
    using r(3) nonneg [of owner] by (auto simp: unmetSlots_def ownerRemaining_def split: option.splits)
  then have rem: "remainingOk remaining (ownerRemaining ?res ?act)"
    using r(2) by (simp add: remainingOk_def)
  have "unmetSlots ?act x = ownerRemaining ?res ?act (fst x)" if "x \<in> set ?res" for x
  proof -
    have "js_get ?res (fst x) = Some (snd x)" using that res by simp
    then show ?thesis by (simp add: unmetSlots_def ownerRemaining_def)
  qed
  then have tot: "sum_list (map (unmetSlots ?act) ?res) = refReservedTotal ?res ?act"
    unfolding refReservedTotal_def map_map by (intro arg_cong [where f = sum_list] map_cong) auto
  show ?thesis
    using c(2,3) rem tot nonneg
    by (simp add: simRel_def planInit_def r(1) c(1) indexed_def) (simp add: refInit_def)
qed

lemma grantOf_borrowed:
  assumes "distinct (map (\<lambda>e. pw_waiterId (en_waiter e)) es)" "e \<in> set es"
  shows "grantOf e (map (\<lambda>e. (e, B e)) es) after =
    \<lparr>pg_waiterId = pw_waiterId (en_waiter e), pg_admissionRequestId = pw_admissionRequestId (en_waiter e),
     pg_borrowed = B e, pg_reservationClass = pw_priority (en_waiter e), pg_schedulerAfter = after\<rparr>"
  using borrowedByWaiter_get [OF assms] by (simp add: grantOf_def)

text \<open>The winner, and the grant it gets, are the same from the first of each class as from all.\<close>

lemma winner_firsts:
  assumes "\<forall>e \<in> set es. e = toEntry (en_waiter e)"
    and dist: "distinct (map (\<lambda>e. pw_waiterId (en_waiter e)) es)" and fs: "firstsOf ok es fs"
    and d: "scheduleWeightedDeficitRoundRobin lc (map en_candidate fs) s q = Inr d"
  obtains (nobody) "Option.bind (sd_winner d) (\<lambda>c. find (\<lambda>e. en_candidate e = c) fs) = None"
      "Option.bind (sd_winner d) (\<lambda>c. find (\<lambda>e. en_candidate e = c) (filter ok es)) = None"
    | (winner) w where "Option.bind (sd_winner d) (\<lambda>c. find (\<lambda>e. en_candidate e = c) fs) = Some w"
      "Option.bind (sd_winner d) (\<lambda>c. find (\<lambda>e. en_candidate e = c) (filter ok es)) = Some w"
      "\<And>B after. grantOf w (map (\<lambda>e. (e, B e)) fs) after = grantOf w (map (\<lambda>e. (e, B e)) (filter ok es)) after"
proof (cases "sd_winner d")
  case None
  then show thesis by (intro nobody) simp_all
next
  case (Some c)
  obtain w where w: "w \<in> set fs" "c = en_candidate w"
    using schedule_winner [OF d Some] by auto
  have w': "w \<in> set (filter ok es)" using firstsOf_in [OF fs w(1)] by simp
  have dfs: "distinct (map (\<lambda>e. pw_waiterId (en_waiter e)) fs)"
    "distinct (map (\<lambda>e. pw_waiterId (en_waiter e)) (filter ok es))"
    using firstsOf_distinct [OF fs dist] dist by (simp_all add: distinct_map_filter)
  have ent: "e = toEntry (en_waiter e)" if "e \<in> set fs \<or> e \<in> set (filter ok es)" for e
    using that assms(1) firstsOf_in(1) [OF fs] by auto
  show thesis
  proof (rule winner)
    show "Option.bind (sd_winner d) (\<lambda>c. find (\<lambda>e. en_candidate e = c) fs) = Some w"
      unfolding Some w(2) bind.simps by (rule find_candidate [OF w(1) ent dfs(1)]) simp
    show "Option.bind (sd_winner d) (\<lambda>c. find (\<lambda>e. en_candidate e = c) (filter ok es)) = Some w"
      unfolding Some w(2) bind.simps by (rule find_candidate [OF w' ent dfs(2)]) simp
    show "grantOf w (map (\<lambda>e. (e, B e)) fs) after = grantOf w (map (\<lambda>e. (e, B e)) (filter ok es)) after" for B after
      unfolding grantOf_borrowed [OF dfs(1) w(1)] grantOf_borrowed [OF dfs(2) w'] ..
  qed
qed

lemma planStep_sim:
  assumes lc: "consistent_comparator lc" and wf: "wfSnapshot snap"
    and sim: "simRel lc snap now options st rst"
  shows "\<exists>r. planStepOnce lc snap options (planEntries lc snap now options) st = Some r \<and>
    rel_planStep (simRel lc snap now options) r (refStep lc snap now options rst)"
proof -
  let ?es = "planEntries lc snap now options" and ?ok = "planOk snap st"
    and ?B = "\<lambda>e. planBorrows snap st (en_waiter e)"
  have same: "ps_active st = rs_active rst" "ps_scheduler st = rs_scheduler rst" "ps_grants st = rs_grants rst"
    and cl: "js_map_ok (ps_classes st)" "\<And>p. entriesOf (ps_classes st) p =
        noneIfEmpty (filter (\<lambda>e. pw_priority (en_waiter e) = p) ?es)"
    using sim unfolding simRel_def by blast+
  define fs where "fs = firstOf (planDead st) (planBorrows snap st) (js_keys (ps_remaining st))
      (entriesOf (ps_ownerQueues st)) (ps_classes st)"
  have fs: "firstsOf ?ok ?es fs" unfolding fs_def planOk_def by (rule firstOf_firsts [OF cl])
  obtain classes' m' where scan:
    "scanClasses (deadEntry (ps_takenRequests st) (ps_scopeActive st)) (planBorrows snap st)
        (js_keys (ps_remaining st)) (ps_classes st) None (ps_ownerQueues st) =
      Some (classes', m', map (\<lambda>e. (e, ?B e)) fs)"
    and sim1: "simRel lc snap now options (st\<lparr>ps_classes := classes', ps_ownerQueues := m'\<rparr>) rst"
    using simRel_scan [OF sim] unfolding fs_def by blast
  let ?elR = "map (\<lambda>e. (e, ?B e)) (filter ?ok ?es)"
  note el = simRel_eligible [OF lc sim]
  note facts = planEntries_facts [OF lc, of snap now options]
  have empty: "fs = [] \<longleftrightarrow> filter ?ok ?es = []" by (rule firstsOf_Nil [OF fs])
  consider "reaches (int (length (rs_grants rst))) (po_maxGrants options) \<or>
      reaches (rs_active rst) (as_capacityLimit snap) \<or> fs = []"
    | "\<not> reaches (int (length (rs_grants rst))) (po_maxGrants options)"
      "\<not> reaches (rs_active rst) (as_capacityLimit snap)" "fs \<noteq> []" by blast
  then show ?thesis
  proof cases
    case 1
    then show ?thesis
      using scan sim sim1 empty by (auto simp: planStepOnce_def refStep_def same el)
  next
    case 2
    have ne: "?es \<noteq> []" "rs_entries rst \<noteq> []" "filter ?ok ?es \<noteq> []"
      using 2(3) empty el by auto
    have sched: "scheduleWeightedDeficitRoundRobin lc (map en_candidate (filter ?ok ?es)) s q =
        scheduleWeightedDeficitRoundRobin lc (map en_candidate fs) s q" for s q
      by (rule schedule_firsts [OF lc facts(1,2) fs, symmetric])
    show ?thesis
    proof (cases "scheduleWeightedDeficitRoundRobin lc (map en_candidate fs) (rs_scheduler rst) defaultPriorityQuanta")
      case (Inl e)
      then show ?thesis
        using 2 ne by (simp add: planStepOnce_def refStep_def same el scan comp_def sched)
    next
      case (Inr d)
      show ?thesis
      proof (rule winner_firsts [OF facts(2) facts(3) [OF wf] fs Inr])
        assume "Option.bind (sd_winner d) (\<lambda>c. find (\<lambda>e. en_candidate e = c) fs) = None"
          "Option.bind (sd_winner d) (\<lambda>c. find (\<lambda>e. en_candidate e = c) (filter ?ok ?es)) = None"
        with Inr 2 ne sim1 show ?thesis
          by (simp add: planStepOnce_def refStep_def same el scan comp_def sched)
      next
        fix w
        assume "Option.bind (sd_winner d) (\<lambda>c. find (\<lambda>e. en_candidate e = c) fs) = Some w"
          "Option.bind (sd_winner d) (\<lambda>c. find (\<lambda>e. en_candidate e = c) (filter ?ok ?es)) = Some w"
          and grant: "\<And>B after. grantOf w (map (\<lambda>e. (e, B e)) fs) after =
            grantOf w (map (\<lambda>e. (e, B e)) (filter ?ok ?es)) after"
        with Inr 2 ne simRel_apply [OF sim1 wf grant, of ?B "sd_state d"] show ?thesis
          by (simp add: planStepOnce_def refStep_def same el scan comp_def sched Let_def)
      qed
    qed
  qed
qed

lemma planLoop_sim:
  assumes "consistent_comparator lc" "wfSnapshot snap" "simRel lc snap now options st rst"
  shows "planLoop lc snap options (planEntries lc snap now options) steps st =
    Some (refLoop lc snap now options steps rst)"
  using assms(3)
proof (induction steps arbitrary: st rst)
  case 0
  then show ?case by (simp add: refPlan_def simRel_def)
next
  case (Suc steps)
  obtain r where r: "planStepOnce lc snap options (planEntries lc snap now options) st = Some r"
    "rel_planStep (simRel lc snap now options) r (refStep lc snap now options rst)"
    using planStep_sim [OF assms(1,2) Suc.prems] by blast
  from r(2) show ?case
    by (cases rule: planStep.rel_cases) (use r(1) Suc.IH in \<open>auto simp: refPlan_def simRel_def\<close>)
qed

lemma planGrants_obeys:
  assumes "consistent_comparator lc" "validSnapshot snap"
  obtains ws plan where "planGrants lc snap now options = Some (Inr plan)"
    "obeysRules lc snap now options ws plan"
proof -
  have wf: "wfSnapshot snap" using assms(2) by (simp add: validSnapshot_def)
  have "planGrants lc snap now options = Some (referencePlanGrants lc snap now options)"
    unfolding planGrants_def referencePlanGrants_def Let_def
    by (rule planLoop_sim [OF assms(1) wf simRel_init [OF wf]])
  then show thesis by (metis that reference_obeys [OF assms])
qed

subsection \<open>Properties of the planner\<close>

text \<open>
  C4: the planner the store runs always returns, and returns exactly what the reference planner
  returns: the same grants in the same order with the same borrowed flags and scheduler states,
  the same stop reason, and the same error when the scheduler input is invalid. The linked
  queues, the early exit at two needy owners and offering the scheduler only the first eligible
  waiter of each class change nothing.
\<close>

theorem planGrants_eq_reference:
  assumes "consistent_comparator lc" "wfSnapshot snap"
  shows "planGrants lc snap now options = Some (referencePlanGrants lc snap now options)"
  unfolding planGrants_def referencePlanGrants_def Let_def
  by (rule planLoop_sim [OF assms simRel_init [OF assms(2)]])

definition demoWaiter :: "ident \<Rightarrow> ident \<Rightarrow> int \<Rightarrow> int \<Rightarrow> ident \<Rightarrow> plannerWaiter" where
  "demoWaiter wid rid pri seqno owner =
     \<lparr>pw_waiterId = wid, pw_admissionRequestId = rid, pw_candidateOrder = 0, pw_enqueueSequence = seqno,
      pw_priority = pri, pw_notBefore = None, pw_deadlineAt = Some 50, pw_requestDeadlineAt = None,
      pw_ownerKey = owner, pw_scopeLimits = [(''pool:p'', 3)], pw_borrowReserved = True,
      pw_leaseScopeKeys = [''pool:p'']\<rparr>"

definition demoSnapshot :: admissionSnapshot where
  "demoSnapshot =
     \<lparr>as_capacityLimit = Some 4, as_active = 1, as_activeByOwner = [(''member:a'', 1)],
      as_reservationsByOwner = [(''member:b'', 1)], as_scopeActive = [(''pool:p'', 1)],
      as_waiters = [demoWaiter ''w1'' ''r1'' 1 1 ''member:a'', demoWaiter ''w2'' ''r1'' 1 1 ''member:b'',
        demoWaiter ''w3'' ''r2'' 2 2 ''member:b''],
      as_scheduler = demoState\<rparr>"

definition demoOptions :: plannerOptions where
  "demoOptions = \<lparr>po_requestId = None, po_creatingRequestId = None, po_lastChanceWaiterIds = [],
     po_maxGrants = None\<rparr>"

lemma demoSnapshot_valid: "wfSnapshot demoSnapshot" "validSnapshot demoSnapshot"
  using demoState_inv
  by (simp_all add: validSnapshot_def wfSnapshot_def demoSnapshot_def demoWaiter_def validPriority_def)

theorem planGrants_eq_reference_witness:
  "planGrants compareIdents demoSnapshot 10 demoOptions =
     Some (referencePlanGrants compareIdents demoSnapshot 10 demoOptions)"
  by (rule planGrants_eq_reference [OF ident_order.consistent_comparator_axioms demoSnapshot_valid(1)])

text \<open>
  C5: on a snapshot with a valid scheduler state and valid classes the planner does not throw, and
  its plan obeys the admission rules step by step: every grant is to a waiter that is live at
  that moment, below the physical limit, within its scope limits, first of its class, and
  flagged as borrowed exactly when it takes a slot another owner keeps; and the plan stops only
  for the reason it names, in particular with \<open>none\<close> only when no waiter may be granted.
\<close>

theorem planGrants_obeys_rules:
  assumes "consistent_comparator lc" "validSnapshot snap"
  shows "\<exists>ws plan. planGrants lc snap now options = Some (Inr plan) \<and>
    obeysRules lc snap now options ws plan"
  using planGrants_obeys [OF assms] by metis

theorem planGrants_obeys_rules_witness:
  "\<exists>ws plan. planGrants compareIdents demoSnapshot 10 demoOptions = Some (Inr plan) \<and>
     obeysRules compareIdents demoSnapshot 10 demoOptions ws plan"
  by (rule planGrants_obeys_rules [OF ident_order.consistent_comparator_axioms demoSnapshot_valid(2)])

text \<open>
  C7: the physical limit is never exceeded: with at most \<open>limit\<close> active leases before, there are
  at most \<open>limit\<close> after every grant of the plan, and no request is granted twice.
\<close>

theorem planGrants_limit:
  assumes "consistent_comparator lc" "validSnapshot snap"
    and "as_capacityLimit snap = Some limit" "as_active snap \<le> limit"
  shows "\<exists>plan. planGrants lc snap now options = Some (Inr plan) \<and>
    as_active snap + int (length (gp_grants plan)) \<le> limit \<and>
    distinct (map pg_admissionRequestId (gp_grants plan))"
proof -
  obtain ws plan where plan: "planGrants lc snap now options = Some (Inr plan)"
    and adm: "admitted lc snap now options ws (gp_grants plan)"
    using planGrants_obeys [OF assms(1,2)] unfolding obeysRules_def by metis
  have "map pg_admissionRequestId (gp_grants plan) = map pw_admissionRequestId ws"
    using admitted_nth [OF adm] admitted_waiters [OF adm] by (intro nth_equalityI) auto
  then show ?thesis
    using plan admitted_limit [OF adm assms(3)] admitted_waiters [OF adm] assms(4) by auto
qed

theorem planGrants_limit_witness:
  "\<exists>plan. planGrants compareIdents demoSnapshot 10 demoOptions = Some (Inr plan) \<and>
    1 + int (length (gp_grants plan)) \<le> 4 \<and> distinct (map pg_admissionRequestId (gp_grants plan))"
  using planGrants_limit [OF ident_order.consistent_comparator_axioms demoSnapshot_valid(2), of 4]
  by (simp add: demoSnapshot_def)



lemma admitted_scope:
  assumes "admitted lc snap now options ws gs" "js_has (as_scopeActive snap) key"
    and "\<And>w. w \<in> set (as_waiters snap) \<Longrightarrow> key \<in> set (pw_leaseScopeKeys w) \<Longrightarrow>
      (key, limit) \<in> set (pw_scopeLimits w) \<and> count_list (pw_leaseScopeKeys w) key = 1"
  shows "afterScope snap ws key \<le> max (afterScope snap [] key) limit"
  using assms
proof (induction rule: admitted.induct)
  case (admitted_grant pre gs w g)
  have w: "w \<in> set (as_waiters snap)" "\<forall>(key, limit) \<in> set (pw_scopeLimits w). afterScope snap pre key < limit"
    using admitted_grant.hyps(4) by (auto simp: mayGrant_def liveWaiter_def)
  have step: "afterScope snap (pre @ [w]) key = afterScope snap pre key + int (count_list (pw_leaseScopeKeys w) key)"
    using admitted_grant.prems(1) by (auto simp: afterScope_def js_has_get)
  show ?case
  proof (cases "key \<in> set (pw_leaseScopeKeys w)")
    case True
    with w admitted_grant.prems(2) [of w] show ?thesis unfolding step by auto
  next
    case False
    with admitted_grant.IH admitted_grant.prems show ?thesis unfolding step by (simp add: count_notin)
  qed
qed simp

text \<open>
  C8: no scope limit is exceeded. When every waiter whose lease counts on a scope is bound by that
  scope's limit, the number of active leases of the scope after the plan is at most the limit,
  or what it was before.
\<close>

theorem planGrants_scope_limit:
  assumes "consistent_comparator lc" "validSnapshot snap" "js_has (as_scopeActive snap) key"
    and "\<And>w. w \<in> set (as_waiters snap) \<Longrightarrow> key \<in> set (pw_leaseScopeKeys w) \<Longrightarrow>
      (key, limit) \<in> set (pw_scopeLimits w) \<and> count_list (pw_leaseScopeKeys w) key = 1"
  shows "\<exists>ws plan. planGrants lc snap now options = Some (Inr plan) \<and>
    map pw_waiterId ws = map pg_waiterId (gp_grants plan) \<and> set ws \<subseteq> set (as_waiters snap) \<and>
    afterScope snap ws key \<le> max (afterScope snap [] key) limit"
proof -
  obtain ws plan where plan: "planGrants lc snap now options = Some (Inr plan)"
    and adm: "admitted lc snap now options ws (gp_grants plan)"
    using planGrants_obeys [OF assms(1,2)] unfolding obeysRules_def by metis
  have "map pw_waiterId ws = map pg_waiterId (gp_grants plan)"
    using admitted_nth [OF adm] admitted_waiters [OF adm] by (intro nth_equalityI) auto
  with plan admitted_waiters [OF adm] admitted_scope [OF adm assms(3,4)] show ?thesis by blast
qed

theorem planGrants_scope_limit_witness:
  "\<exists>ws plan. planGrants compareIdents demoSnapshot 10 demoOptions = Some (Inr plan) \<and>
    map pw_waiterId ws = map pg_waiterId (gp_grants plan) \<and> afterScope demoSnapshot ws ''pool:p'' \<le> 3"
proof -
  have "js_has (as_scopeActive demoSnapshot) ''pool:p''" by (simp add: demoSnapshot_def)
  moreover have "(''pool:p'', 3) \<in> set (pw_scopeLimits w) \<and> count_list (pw_leaseScopeKeys w) ''pool:p'' = 1"
    if "w \<in> set (as_waiters demoSnapshot)" for w
    using that by (auto simp: demoSnapshot_def demoWaiter_def)
  moreover have "afterScope demoSnapshot [] ''pool:p'' = 1" by (simp add: demoSnapshot_def afterScope_def)
  ultimately show ?thesis
    using planGrants_scope_limit [OF ident_order.consistent_comparator_axioms demoSnapshot_valid(2),
        of "''pool:p''" 3 10 demoOptions] by fastforce
qed

end
