(* ===== verification/InstancePhase.thy ===== *)
theory InstancePhase
  imports Wmp_Prelude
begin

text \<open>
  The runtime instance lifecycle: the phase machine and its column bundles
  (\<^verbatim>\<open>packages/api/src/lib/instance-phase.ts\<close>), node liveness
  (\<^verbatim>\<open>packages/api/src/lib/node-liveness.ts\<close>), the operator need rules
  (\<^verbatim>\<open>packages/api/src/lib/operator-need.ts\<close>) and the phase decisions of the engine
  (\<^verbatim>\<open>apps/server/src/runtimes/lifecycle.ts\<close>: \<^verbatim>\<open>writePhase\<close>,
  \<^verbatim>\<open>gangStop\<close>, \<^verbatim>\<open>settleStopped\<close>, \<^verbatim>\<open>watchInstance\<close>,
  \<^verbatim>\<open>recordHealth\<close>).

  A column bundle leaves a column out when it does not write it: a column of the bundle is an
  \<open>option\<close>, \<open>None\<close> for a column that is not written. The database rows the engine's decisions
  read beside the instance row (its nodes, its steps, the launch settings) are their arguments.
\<close>

subsection \<open>Phases and changes\<close>

datatype instancePhase = STARTING | READY | UNHEALTHY | UNAVAILABLE | STOPPING | STOPPED | FAILED

definition INSTANCE_PHASES :: "instancePhase list" where
  "INSTANCE_PHASES = [STARTING, READY, UNHEALTHY, UNAVAILABLE, STOPPING, STOPPED, FAILED]"

datatype operatorNeed = NEED_STEP | NEED_RESTART | NEED_MARK_STOPPED

datatype desiredState = DESIRED_RUNNING | DESIRED_STOPPED

definition ALWAYS_ON_PHASES :: "instancePhase list" where
  "ALWAYS_ON_PHASES = [READY, UNHEALTHY, UNAVAILABLE]"

datatype restartBudget = BudgetReset | BudgetSpend

datatype readyVia = ViaReadiness | ViaRecovered | ViaHealth

datatype stoppedAfter =
    AfterStay
  | AfterRestartByPerson
  | AfterRestartAt millis int millis

datatype instancePhaseChange =
    ToStartingNew string "ident option" restartBudget
  | ToStartingResume
  | ToReady readyVia
  | ToUnhealthy "string option"
  | ToUnavailable string "millis option"
  | ToStopping string desiredState
  | ToStopped "string option" stoppedAfter
  | ToFailed "string option"

fun changeTo :: "instancePhaseChange \<Rightarrow> instancePhase" where
  "changeTo (ToStartingNew _ _ _) = STARTING"
| "changeTo ToStartingResume = STARTING"
| "changeTo (ToReady _) = READY"
| "changeTo (ToUnhealthy _) = UNHEALTHY"
| "changeTo (ToUnavailable _ _) = UNAVAILABLE"
| "changeTo (ToStopping _ _) = STOPPING"
| "changeTo (ToStopped _ _) = STOPPED"
| "changeTo (ToFailed _) = FAILED"

definition ALL_PHASES :: "instancePhase list" where
  "ALL_PHASES = INSTANCE_PHASES"

definition SERVING :: "instancePhase list" where
  "SERVING = [STARTING, READY, UNHEALTHY, UNAVAILABLE]"

fun instanceTransitionFrom :: "instancePhaseChange \<Rightarrow> instancePhase list" where
  "instanceTransitionFrom (ToStartingNew _ _ _) = ALL_PHASES"
| "instanceTransitionFrom ToStartingResume = [UNAVAILABLE]"
| "instanceTransitionFrom (ToReady via) =
     (if via = ViaReadiness then [STARTING]
      else if via = ViaRecovered then [UNAVAILABLE]
      else [UNHEALTHY])"
| "instanceTransitionFrom (ToUnhealthy _) = [READY]"
| "instanceTransitionFrom (ToUnavailable _ _) = SERVING"
| "instanceTransitionFrom (ToStopping _ desired) =
     (if desired = DESIRED_STOPPED then ALL_PHASES else SERVING @ [STOPPING])"
| "instanceTransitionFrom (ToStopped _ _) = [STOPPING]"
| "instanceTransitionFrom (ToFailed _) = [STOPPING, STOPPED]"

subsection \<open>Rows and column bundles\<close>

record instanceRow =
  ir_phase :: instancePhase
  ir_phaseChangedAt :: millis
  ir_phaseReason :: "string option"
  ir_desiredState :: "desiredState option"
  ir_needsOperator :: "operatorNeed option"
  ir_needsOperatorSince :: "millis option"
  ir_nextRestartAt :: "millis option"
  ir_unavailableSince :: "millis option"
  ir_unhealthySince :: "millis option"
  ir_healthDetail :: "string option"
  ir_healthFailures :: int
  ir_healthSuccesses :: int
  ir_lastHealthAt :: "millis option"
  ir_fabricId :: "ident option"
  ir_restartsInWindow :: int
  ir_restartWindowStartedAt :: "millis option"

datatype restartsWrite = SetRestarts int | IncrementRestarts int

record instancePhaseColumns =
  ic_phase :: instancePhase
  ic_phaseChangedAt :: millis
  ic_phaseReason :: "string option option"
  ic_desiredState :: "desiredState option"
  ic_needsOperator :: "operatorNeed option option"
  ic_needsOperatorSince :: "millis option option"
  ic_nextRestartAt :: "millis option option"
  ic_unavailableSince :: "millis option option"
  ic_unhealthySince :: "millis option option"
  ic_healthDetail :: "string option option"
  ic_healthFailures :: "int option"
  ic_healthSuccesses :: "int option"
  ic_lastHealthAt :: "millis option"
  ic_fabricId :: "ident option option"
  ic_restartsInWindow :: "restartsWrite option"
  ic_restartWindowStartedAt :: "millis option option"

definition baseColumns :: "instancePhase \<Rightarrow> millis \<Rightarrow> instancePhaseColumns" where
  "baseColumns phase now =
     \<lparr>ic_phase = phase, ic_phaseChangedAt = now, ic_phaseReason = None, ic_desiredState = None,
      ic_needsOperator = None, ic_needsOperatorSince = None, ic_nextRestartAt = None,
      ic_unavailableSince = None, ic_unhealthySince = None, ic_healthDetail = None,
      ic_healthFailures = None, ic_healthSuccesses = None, ic_lastHealthAt = None,
      ic_fabricId = None, ic_restartsInWindow = None, ic_restartWindowStartedAt = None\<rparr>"

definition noNeed :: "instancePhaseColumns \<Rightarrow> instancePhaseColumns" where
  "noNeed c = c\<lparr>ic_needsOperator := Some None, ic_needsOperatorSince := Some None\<rparr>"

fun instancePhaseData :: "instancePhaseChange \<Rightarrow> millis \<Rightarrow> instancePhaseColumns" where
  "instancePhaseData ToStartingResume now =
     (baseColumns STARTING now)
       \<lparr>ic_phaseReason := Some None, ic_unavailableSince := Some None, ic_unhealthySince := Some None\<rparr>"
| "instancePhaseData (ToStartingNew reason fabricId budget) now =
     (let c = (noNeed (baseColumns STARTING now))
            \<lparr>ic_phaseReason := Some (Some reason), ic_desiredState := Some DESIRED_RUNNING,
             ic_nextRestartAt := Some None, ic_unavailableSince := Some None,
             ic_unhealthySince := Some None, ic_healthDetail := Some None,
             ic_healthFailures := Some 0, ic_healthSuccesses := Some 0,
             ic_fabricId := Some fabricId\<rparr>
      in if budget = BudgetReset
         then c\<lparr>ic_restartsInWindow := Some (SetRestarts 0), ic_restartWindowStartedAt := Some None\<rparr>
         else c\<lparr>ic_restartsInWindow := Some (IncrementRestarts 1)\<rparr>)"
| "instancePhaseData (ToReady via) now =
     (let c = (baseColumns READY now)
            \<lparr>ic_phaseReason := Some None, ic_nextRestartAt := Some None,
             ic_unavailableSince := Some None, ic_unhealthySince := Some None,
             ic_healthDetail := Some None\<rparr>
      in if via = ViaReadiness
         then c\<lparr>ic_lastHealthAt := Some now, ic_healthFailures := Some 0, ic_healthSuccesses := Some 0\<rparr>
         else c)"
| "instancePhaseData (ToUnhealthy detail) now =
     (baseColumns UNHEALTHY now)
       \<lparr>ic_phaseReason := Some (Some ''health_failed''), ic_unhealthySince := Some (Some now),
        ic_healthDetail := Some detail, ic_unavailableSince := Some None\<rparr>"
| "instancePhaseData (ToUnavailable reason since) now =
     (baseColumns UNAVAILABLE now)
       \<lparr>ic_phaseReason := Some (Some reason), ic_unavailableSince := Some (Some (js_nullish since now)),
        ic_unhealthySince := Some None\<rparr>"
| "instancePhaseData (ToStopping reason desired) now =
     (noNeed (baseColumns STOPPING now))
       \<lparr>ic_phaseReason := Some (Some reason), ic_desiredState := Some desired,
        ic_nextRestartAt := Some None, ic_unavailableSince := Some None,
        ic_unhealthySince := Some None\<rparr>"
| "instancePhaseData (ToStopped reason after) now =
     (let stopped = (baseColumns STOPPED now)
            \<lparr>ic_phaseReason := Some reason, ic_fabricId := Some None,
             ic_unavailableSince := Some None, ic_unhealthySince := Some None\<rparr>
      in case after of
           AfterRestartByPerson \<Rightarrow>
             stopped\<lparr>ic_needsOperator := Some (Some NEED_RESTART),
                     ic_needsOperatorSince := Some (Some now), ic_nextRestartAt := Some None\<rparr>
         | AfterRestartAt at restartsInWindow restartWindowStartedAt \<Rightarrow>
             (noNeed stopped)
               \<lparr>ic_nextRestartAt := Some (Some at),
                ic_restartsInWindow := Some (SetRestarts restartsInWindow),
                ic_restartWindowStartedAt := Some (Some restartWindowStartedAt)\<rparr>
         | AfterStay \<Rightarrow> (noNeed stopped)\<lparr>ic_nextRestartAt := Some None\<rparr>)"
| "instancePhaseData (ToFailed reason) now =
     (noNeed (baseColumns FAILED now))
       \<lparr>ic_phaseReason := Some reason, ic_fabricId := Some None, ic_nextRestartAt := Some None,
        ic_unavailableSince := Some None, ic_unhealthySince := Some None\<rparr>"

definition alwaysOnPhaseData :: "instancePhase \<Rightarrow> string option \<Rightarrow> millis \<Rightarrow> instancePhaseColumns" where
  "alwaysOnPhaseData phase reason now = (baseColumns phase now)\<lparr>ic_phaseReason := Some reason\<rparr>"

text \<open>The update of a row by a bundle: the columns it has, and no other.\<close>

definition writeColumns :: "instancePhaseColumns \<Rightarrow> instanceRow \<Rightarrow> instanceRow" where
  "writeColumns c r =
     \<lparr>ir_phase = ic_phase c, ir_phaseChangedAt = ic_phaseChangedAt c,
      ir_phaseReason = js_nullish (ic_phaseReason c) (ir_phaseReason r),
      ir_desiredState = (case ic_desiredState c of None \<Rightarrow> ir_desiredState r | Some d \<Rightarrow> Some d),
      ir_needsOperator = js_nullish (ic_needsOperator c) (ir_needsOperator r),
      ir_needsOperatorSince = js_nullish (ic_needsOperatorSince c) (ir_needsOperatorSince r),
      ir_nextRestartAt = js_nullish (ic_nextRestartAt c) (ir_nextRestartAt r),
      ir_unavailableSince = js_nullish (ic_unavailableSince c) (ir_unavailableSince r),
      ir_unhealthySince = js_nullish (ic_unhealthySince c) (ir_unhealthySince r),
      ir_healthDetail = js_nullish (ic_healthDetail c) (ir_healthDetail r),
      ir_healthFailures = js_nullish (ic_healthFailures c) (ir_healthFailures r),
      ir_healthSuccesses = js_nullish (ic_healthSuccesses c) (ir_healthSuccesses r),
      ir_lastHealthAt = (case ic_lastHealthAt c of None \<Rightarrow> ir_lastHealthAt r | Some t \<Rightarrow> Some t),
      ir_fabricId = js_nullish (ic_fabricId c) (ir_fabricId r),
      ir_restartsInWindow =
        (case ic_restartsInWindow c of
           None \<Rightarrow> ir_restartsInWindow r
         | Some (SetRestarts n) \<Rightarrow> n
         | Some (IncrementRestarts n) \<Rightarrow> ir_restartsInWindow r + n),
      ir_restartWindowStartedAt = js_nullish (ic_restartWindowStartedAt c) (ir_restartWindowStartedAt r)\<rparr>"

datatype instanceTransitionError = InstanceTransitionError instancePhase bool instancePhase

definition instanceTransitionAllowed :: "instanceRow \<Rightarrow> instancePhaseChange \<Rightarrow> bool" where
  "instanceTransitionAllowed from change =
     (if ir_desiredState from = None then False
      else ir_phase from \<in> set (instanceTransitionFrom change))"

text \<open>The error names the phase, whether the instance is always-on, and the refused phase.\<close>

definition assertInstanceTransition ::
    "instanceRow \<Rightarrow> instancePhaseChange \<Rightarrow> instanceTransitionError + unit" where
  "assertInstanceTransition from change =
     (if \<not> instanceTransitionAllowed from change
      then Inl (InstanceTransitionError (ir_phase from) (ir_desiredState from = None) (changeTo change))
      else Inr ())"

subsection \<open>Node liveness\<close>

datatype nodeConnection = ONLINE | OFFLINE

record nodeLivenessRow =
  nl_connection :: nodeConnection
  nl_lastHeartbeatAt :: "millis option"
  nl_lastDisconnectedAt :: "millis option"

datatype nodeLiveness = LiveOnline | LiveStale millis | LiveOffline "millis option"

definition NODE_HEARTBEAT_STALE_MS :: millis where
  "NODE_HEARTBEAT_STALE_MS = 3 * 60000"

definition staleCutoff :: "millis \<Rightarrow> millis" where
  "staleCutoff now = now - NODE_HEARTBEAT_STALE_MS"

definition livenessOf :: "nodeLivenessRow \<Rightarrow> millis \<Rightarrow> nodeLiveness" where
  "livenessOf node now =
     (if nl_connection node \<noteq> ONLINE then LiveOffline (nl_lastDisconnectedAt node)
      else case nl_lastHeartbeatAt node of
             None \<Rightarrow> LiveOnline
           | Some t \<Rightarrow> if t < staleCutoff now then LiveStale t else LiveOnline)"

definition nodeIsLive :: "nodeLivenessRow option \<Rightarrow> millis \<Rightarrow> bool" where
  "nodeIsLive node now = (case node of None \<Rightarrow> False | Some n \<Rightarrow> livenessOf n now = LiveOnline)"

definition nodeUnreachableSince :: "nodeLivenessRow \<Rightarrow> millis \<Rightarrow> millis option" where
  "nodeUnreachableSince node now =
     (case livenessOf node now of
        LiveOnline \<Rightarrow> None
      | LiveStale since \<Rightarrow> Some since
      | LiveOffline since \<Rightarrow> Some (js_nullish since 0))"

text \<open>The rows the SQL filter selects.\<close>

definition liveNodeWhere :: "millis \<Rightarrow> nodeLivenessRow \<Rightarrow> bool" where
  "liveNodeWhere now node \<longleftrightarrow>
     nl_connection node = ONLINE \<and>
     (nl_lastHeartbeatAt node = None \<or>
      (case nl_lastHeartbeatAt node of None \<Rightarrow> False | Some t \<Rightarrow> t \<ge> staleCutoff now))"

subsection \<open>Steps that need a person\<close>

datatype stepState = PENDING | RUNNING | AWAITING_OPERATOR | SUCCEEDED | STEP_FAILED | CANCELLED

record needsPersonStep =
  np_state :: stepState
  np_operatorHold :: "string option"
  np_operatorAcceptedAt :: "millis option"
  np_deadline :: "millis option"
  np_generation :: int

definition isHeldStep :: "needsPersonStep \<Rightarrow> bool" where
  "isHeldStep step \<longleftrightarrow> np_state step = PENDING \<and> np_operatorHold step \<noteq> None"

definition overdueAcceptedRunWhere :: "millis \<Rightarrow> needsPersonStep \<Rightarrow> bool" where
  "overdueAcceptedRunWhere now step \<longleftrightarrow>
     np_state step = RUNNING \<and> np_operatorAcceptedAt step \<noteq> None \<and>
     (case np_deadline step of None \<Rightarrow> False | Some d \<Rightarrow> d \<le> now)"

definition stepNeedsPersonWhere :: "millis \<Rightarrow> int option \<Rightarrow> needsPersonStep \<Rightarrow> bool" where
  "stepNeedsPersonWhere now run step =
     (let waiting = (np_state step = AWAITING_OPERATOR \<or>
                     np_state step = PENDING \<and> np_operatorHold step \<noteq> None)
      in (case run of None \<Rightarrow> waiting | Some r \<Rightarrow> np_generation step = r \<and> waiting) \<or>
         overdueAcceptedRunWhere now step)"

definition stepNeedsPerson :: "needsPersonStep \<Rightarrow> millis \<Rightarrow> int option \<Rightarrow> bool" where
  "stepNeedsPerson step now run =
     (let overdue = (np_state step = RUNNING \<and> np_operatorAcceptedAt step \<noteq> None \<and>
            (case np_deadline step of None \<Rightarrow> False | Some d \<Rightarrow> d \<le> now))
      in if overdue then True
         else if (case run of None \<Rightarrow> False | Some r \<Rightarrow> np_generation step \<noteq> r) then False
         else np_state step = AWAITING_OPERATOR \<or> isHeldStep step)"

definition operatorStepWaiting :: "needsPersonStep list \<Rightarrow> int \<Rightarrow> millis \<Rightarrow> bool" where
  "operatorStepWaiting steps run now \<longleftrightarrow>
     0 < length (filter (stepNeedsPersonWhere now (Some run)) steps)"

definition stepRuleNeed :: "operatorNeed option \<Rightarrow> bool \<Rightarrow> operatorNeed option" where
  "stepRuleNeed current waiting =
     (if current = Some NEED_MARK_STOPPED \<or> current = Some NEED_RESTART then current
      else if waiting then Some NEED_STEP else None)"

definition writeOperatorNeed :: "instanceRow \<Rightarrow> operatorNeed option \<Rightarrow> millis \<Rightarrow> instanceRow" where
  "writeOperatorNeed r need now =
     (if ir_needsOperator r = need then r
      else r\<lparr>ir_needsOperator := need,
             ir_needsOperatorSince := (if need \<noteq> None then Some now else None)\<rparr>)"

definition syncNeedsOperator :: "instanceRow \<Rightarrow> needsPersonStep list \<Rightarrow> int \<Rightarrow> millis \<Rightarrow> instanceRow" where
  "syncNeedsOperator r steps run now =
     (if ir_needsOperator r = Some NEED_MARK_STOPPED \<or> ir_needsOperator r = Some NEED_RESTART then r
      else writeOperatorNeed r
             (stepRuleNeed (ir_needsOperator r) (operatorStepWaiting steps run now)) now)"

end
