(* ===== verification/Lifecycle.thy ===== *)
theory Lifecycle
  imports InstancePhase
begin

text \<open>
  The phase decisions of the lifecycle engine
  (\<^verbatim>\<open>apps/server/src/runtimes/lifecycle.ts\<close>) and the properties of the instance rows
  they write: the phase-scoped columns agree with the phase, an automatic restart keeps to its
  budget, and what a settled instance may still do.

  The database rows a decision reads beside the instance row are its arguments: whether a watched
  node is unreachable or deleted, whether the run reached readiness, and the settings of the
  launch (\<^verbatim>\<open>advancedInt\<close>). The writes to the steps of an instance are not modelled here.
\<close>

definition RESTART_BACKOFF_BASE_MS :: int where
  "RESTART_BACKOFF_BASE_MS = 10000"

definition RESTART_BACKOFF_MAX_MS :: int where
  "RESTART_BACKOFF_MAX_MS = 5 * 60000"

definition STARTUP_GRACE_MS :: int where
  "STARTUP_GRACE_MS = 2 * 60000"

definition LIVE_PHASES :: "instancePhase list" where
  "LIVE_PHASES = [STARTING, READY, UNHEALTHY, UNAVAILABLE]"

definition CLI_UPGRADE_REQUIRED :: string where
  "CLI_UPGRADE_REQUIRED = ''cli_upgrade_required''"

definition TERMINAL_START_ERRORS :: "string js_set" where
  "TERMINAL_START_ERRORS =
     [''trust_relay'', ''definition_frozen'', ''interactive_unsupported'',
      ''operator_terminals_disabled'', ''process_detached'', CLI_UPGRADE_REQUIRED]"

definition writePhase ::
    "instanceRow \<Rightarrow> instancePhaseChange \<Rightarrow> millis \<Rightarrow> instanceTransitionError + instanceRow" where
  "writePhase r change now =
     (case assertInstanceTransition r change of
        Inl e \<Rightarrow> Inl e
      | Inr _ \<Rightarrow> Inr (writeColumns (instancePhaseData change now) r))"

text \<open>The phase write of \<^verbatim>\<open>gangStop\<close>; the stop rules then settle the instance.\<close>

definition gangStopWrite ::
    "instanceRow \<Rightarrow> string \<Rightarrow> millis \<Rightarrow> instanceTransitionError + instanceRow" where
  "gangStopWrite r reason now =
     writePhase r (ToStopping reason (js_nullish (ir_desiredState r) DESIRED_RUNNING)) now"

record restartSettings =
  rs_interactiveStart :: bool
  rs_restartBudget :: int
  rs_windowMs :: int

definition settleStoppedChange ::
    "restartSettings \<Rightarrow> instanceRow \<Rightarrow> millis \<Rightarrow> instancePhaseChange" where
  "settleStoppedChange s r now =
     (let reason = ir_phaseReason r
      in if ir_desiredState r \<noteq> Some DESIRED_RUNNING then ToStopped reason AfterStay
         else if (case reason of None \<Rightarrow> False | Some why \<Rightarrow> why \<in> set TERMINAL_START_ERRORS)
           then ToFailed reason
         else if rs_interactiveStart s then ToStopped reason AfterRestartByPerson
         else
           let windowOpen = (case ir_restartWindowStartedAt r of
                 None \<Rightarrow> False | Some start \<Rightarrow> now - start < rs_windowMs s);
               used = (if windowOpen then ir_restartsInWindow r else 0)
           in if used \<ge> rs_restartBudget s then ToFailed (Some ''restart_budget_exhausted'')
              else
                let backoff = min (RESTART_BACKOFF_BASE_MS * 2 ^ nat used) RESTART_BACKOFF_MAX_MS
                in ToStopped reason
                     (AfterRestartAt (now + backoff) used
                        (if windowOpen then js_nullish (ir_restartWindowStartedAt r) now else now)))"

definition settleStopped ::
    "restartSettings \<Rightarrow> instanceRow \<Rightarrow> millis \<Rightarrow> instanceTransitionError + instanceRow" where
  "settleStopped s r now = writePhase r (settleStoppedChange s r now) now"

text \<open>The guard of \<^verbatim>\<open>restartDue\<close> and the phase write of \<^verbatim>\<open>retake\<close>.\<close>

definition restartDue :: "instanceRow \<Rightarrow> millis \<Rightarrow> bool" where
  "restartDue r now \<longleftrightarrow>
     ir_phase r = STOPPED \<and> ir_desiredState r = Some DESIRED_RUNNING \<and>
     (case ir_nextRestartAt r of None \<Rightarrow> False | Some at \<Rightarrow> \<not> at > now)"

definition retakeWrite ::
    "instanceRow \<Rightarrow> ident option \<Rightarrow> millis \<Rightarrow> instanceTransitionError + instanceRow" where
  "retakeWrite r fabricId now = writePhase r (ToStartingNew ''restarting'' fabricId BudgetSpend) now"

record watchFacts =
  wf_anyOffline :: bool
  wf_deleted :: bool
  wf_processStartedAt :: millis
  wf_members :: int
  wf_reachedReadiness :: bool
  wf_unavailableStopMs :: int
  wf_unhealthyRestartMs :: int

datatype watchAction =
    WatchNothing
  | WatchWrite instancePhaseChange
  | WatchGangStop string
  | WatchScheduleHealth

definition watchInstance :: "watchFacts \<Rightarrow> instanceRow \<Rightarrow> millis \<Rightarrow> watchAction" where
  "watchInstance f r now =
     (if wf_anyOffline f \<and> now - wf_processStartedAt f < STARTUP_GRACE_MS then WatchNothing
      else if wf_anyOffline f \<or> wf_deleted f then
        (if ir_phase r \<noteq> UNAVAILABLE
         then WatchWrite (ToUnavailable ''node_offline'' (ir_unavailableSince r))
         else if wf_deleted f then WatchGangStop ''node_deleted''
         else if wf_members f > 1 \<and>
                 now - js_nullish (ir_unavailableSince r) (ir_phaseChangedAt r) \<ge> wf_unavailableStopMs f
           then WatchGangStop ''node_offline''
         else WatchNothing)
      else if ir_phase r = UNAVAILABLE then
        WatchWrite (if wf_reachedReadiness f then ToReady ViaRecovered else ToStartingResume)
      else if ir_phase r = UNHEALTHY \<and>
              (case ir_unhealthySince r of None \<Rightarrow> False | Some t \<Rightarrow> now - t \<ge> wf_unhealthyRestartMs f)
        then WatchGangStop ''health_failed''
      else if ir_phase r = READY \<or> ir_phase r = UNHEALTHY then WatchScheduleHealth
      else WatchNothing)"

text \<open>What a watch pass writes; the guard is the one \<^verbatim>\<open>watchLive\<close> checks under the fence.\<close>

definition watchLive ::
    "watchFacts \<Rightarrow> instanceRow \<Rightarrow> millis \<Rightarrow> instanceTransitionError + instanceRow" where
  "watchLive f r now =
     (if ir_desiredState r \<noteq> Some DESIRED_RUNNING \<or> ir_phase r \<notin> set LIVE_PHASES then Inr r
      else case watchInstance f r now of
             WatchNothing \<Rightarrow> Inr r
           | WatchScheduleHealth \<Rightarrow> Inr r
           | WatchWrite change \<Rightarrow> writePhase r change now
           | WatchGangStop reason \<Rightarrow> gangStopWrite r reason now)"

record healthSettings =
  hs_failureThreshold :: int
  hs_successThreshold :: int

definition recordHealth ::
    "healthSettings option \<Rightarrow> instanceRow \<Rightarrow> bool \<Rightarrow> string option \<Rightarrow> millis \<Rightarrow>
     instanceTransitionError + instanceRow" where
  "recordHealth launch r success detail now =
     (case launch of
        None \<Rightarrow> Inr r
      | Some h \<Rightarrow>
          if ir_phase r \<noteq> READY \<and> ir_phase r \<noteq> UNHEALTHY then Inr r
          else
            let failures = (if success then 0 else ir_healthFailures r + 1);
                successes = (if success then ir_healthSuccesses r + 1 else 0);
                counters = (\<lambda>x. x\<lparr>ir_healthFailures := failures, ir_healthSuccesses := successes,
                                  ir_lastHealthAt := Some now\<rparr>);
                change = (if ir_phase r = READY \<and> failures \<ge> hs_failureThreshold h
                          then Some (ToUnhealthy detail)
                          else if ir_phase r = UNHEALTHY \<and> successes \<ge> hs_successThreshold h
                          then Some (ToReady ViaHealth) else None)
            in case change of
                 Some c \<Rightarrow> map_sum id counters (writePhase r c now)
               | None \<Rightarrow>
                   Inr ((counters r)\<lparr>ir_healthDetail :=
                     (if ir_phase r = UNHEALTHY then (if success then ir_healthDetail r else detail)
                      else None)\<rparr>))"

subsection \<open>The phase-scoped columns agree with the phase\<close>

definition needFits :: "instancePhase \<Rightarrow> operatorNeed option \<Rightarrow> bool" where
  "needFits phase need \<longleftrightarrow>
     (case phase of
        STOPPING \<Rightarrow> need \<noteq> Some NEED_RESTART
      | STOPPED \<Rightarrow> need = None \<or> need = Some NEED_RESTART
      | FAILED \<Rightarrow> need = None
      | _ \<Rightarrow> need = None \<or> need = Some NEED_STEP)"

definition columnsAgree :: "instanceRow \<Rightarrow> bool" where
  "columnsAgree r \<longleftrightarrow>
     (ir_unavailableSince r \<noteq> None \<longleftrightarrow> ir_phase r = UNAVAILABLE) \<and>
     (ir_unhealthySince r \<noteq> None \<longleftrightarrow> ir_phase r = UNHEALTHY) \<and>
     (ir_nextRestartAt r \<noteq> None \<longrightarrow> ir_phase r = STOPPED \<and> ir_desiredState r = Some DESIRED_RUNNING) \<and>
     (ir_fabricId r \<noteq> None \<longrightarrow> ir_phase r \<noteq> STOPPED \<and> ir_phase r \<noteq> FAILED) \<and>
     needFits (ir_phase r) (ir_needsOperator r) \<and>
     ir_desiredState r \<noteq> None"

lemmas row_simps = writeColumns_def baseColumns_def noNeed_def Let_def

lemma writePhase_Inr:
  "writePhase r change now = Inr r' \<longleftrightarrow>
     instanceTransitionAllowed r change \<and> r' = writeColumns (instancePhaseData change now) r"
  by (auto simp: writePhase_def assertInstanceTransition_def split: sum.splits if_splits)

text \<open>A restart time is only written for an instance that is to run.\<close>

definition changeFits :: "instanceRow \<Rightarrow> instancePhaseChange \<Rightarrow> bool" where
  "changeFits r change \<longleftrightarrow>
     (\<forall>reason at n start. change = ToStopped reason (AfterRestartAt at n start) \<longrightarrow>
        ir_desiredState r = Some DESIRED_RUNNING)"

lemma writePhase_agree:
  assumes "columnsAgree r" "writePhase r change now = Inr r'" "changeFits r change"
  shows "columnsAgree r'"
proof (cases change)
  case (ToStopped reason after)
  with assms show ?thesis
    by (cases after)
      (auto simp: writePhase_Inr columnsAgree_def needFits_def instanceTransitionAllowed_def
        changeFits_def row_simps)
qed (use assms in \<open>auto simp: writePhase_Inr columnsAgree_def needFits_def
       instanceTransitionAllowed_def row_simps SERVING_def split: if_splits instancePhase.splits\<close>)


text \<open>
  The writes to an instance row: a person's or an agent's start and stop, the run that reached
  readiness, the engine's stop, settle, restart, watch and health passes, and the operator need.
\<close>

definition RETAKE_RETRY_MS :: int where
  "RETAKE_RETRY_MS = 30000"

inductive engineStep :: "instanceRow \<Rightarrow> instanceRow \<Rightarrow> bool" where
    step_start: "writePhase r (ToStartingNew reason fabricId BudgetReset) now = Inr r' \<Longrightarrow> engineStep r r'"
  | step_ready: "writePhase r (ToReady ViaReadiness) now = Inr r' \<Longrightarrow> engineStep r r'"
  | step_stop: "writePhase r (ToStopping reason DESIRED_STOPPED) now = Inr r' \<Longrightarrow> engineStep r r'"
  | step_gang: "gangStopWrite r reason now = Inr r' \<Longrightarrow> engineStep r r'"
  | step_settle: "settleStopped s r now = Inr r' \<Longrightarrow> engineStep r r'"
  | step_retake: "restartDue r now \<Longrightarrow> retakeWrite r fabricId now = Inr r' \<Longrightarrow> engineStep r r'"
  | step_lost: "restartDue r now \<Longrightarrow> writePhase r (ToFailed (Some ''node_deleted'')) now = Inr r' \<Longrightarrow>
      engineStep r r'"
  | step_refused: "restartDue r now \<Longrightarrow>
      engineStep r (r\<lparr>ir_phaseReason := Some reason, ir_nextRestartAt := Some (now + RETAKE_RETRY_MS)\<rparr>)"
  | step_watch: "watchLive f r now = Inr r' \<Longrightarrow> engineStep r r'"
  | step_health: "recordHealth launch r success detail now = Inr r' \<Longrightarrow> engineStep r r'"
  | step_need: "ir_phase r \<in> set SERVING \<Longrightarrow> engineStep r (syncNeedsOperator r steps run now)"
  | step_stop_need: "ir_phase r = STOPPING \<Longrightarrow> need \<noteq> Some NEED_RESTART \<Longrightarrow>
      engineStep r (writeOperatorNeed r need now)"

lemma settle_fits: "changeFits r (settleStoppedChange s r now)"
  by (auto simp: changeFits_def settleStoppedChange_def Let_def split: if_splits)

lemma recordHealth_agree:
  assumes "columnsAgree r" "recordHealth launch r success detail now = Inr r'"
  shows "columnsAgree r'"
proof -
  have other: "columnsAgree (x\<lparr>ir_healthFailures := a, ir_healthSuccesses := b, ir_lastHealthAt := c\<rparr>) =
      columnsAgree x" "columnsAgree (x\<lparr>ir_healthDetail := d\<rparr>) = columnsAgree x" for x :: instanceRow and a b c d
    by (simp_all add: columnsAgree_def)
  have "columnsAgree x" if "writePhase r (ToUnhealthy detail) now = Inr x \<or>
      writePhase r (ToReady ViaHealth) now = Inr x" for x
    using that writePhase_agree [OF assms(1)] by (auto simp: changeFits_def)
  with assms other show ?thesis
    by (cases "writePhase r (ToUnhealthy detail) now"; cases "writePhase r (ToReady ViaHealth) now")
      (auto simp: recordHealth_def Let_def split: option.splits if_splits)
qed

lemma watchLive_agree:
  assumes "columnsAgree r" "watchLive f r now = Inr r'"
  shows "columnsAgree r'"
proof -
  have "changeFits r change" if "watchInstance f r now = WatchWrite change" for change
    using that by (auto simp: watchInstance_def changeFits_def split: if_splits)
  then show ?thesis
    using assms writePhase_agree [OF assms(1)]
    by (auto simp: watchLive_def gangStopWrite_def changeFits_def split: if_splits watchAction.splits)
qed

lemma engineStep_agree:
  assumes "engineStep r r'" "columnsAgree r"
  shows "columnsAgree r'"
proof -
  note phase = writePhase_agree [OF assms(2)]
  from assms(1) show ?thesis
  proof cases
    case (step_refused now reason)
    with assms(2) show ?thesis by (auto simp: columnsAgree_def restartDue_def)
  next
    case (step_need steps run now)
    with assms(2) show ?thesis
      by (auto simp: columnsAgree_def needFits_def syncNeedsOperator_def writeOperatorNeed_def
          stepRuleNeed_def SERVING_def)
  next
    case (step_stop_need need now)
    with assms(2) show ?thesis by (auto simp: columnsAgree_def needFits_def writeOperatorNeed_def)
  next
    case (step_settle s now)
    then show ?thesis
      unfolding settleStopped_def by (rule phase) (rule settle_fits)
  next
    case (step_start reason fabricId now)
    then show ?thesis by (rule phase) (simp add: changeFits_def)
  next
    case (step_ready now)
    then show ?thesis by (rule phase) (simp add: changeFits_def)
  next
    case (step_stop reason now)
    then show ?thesis by (rule phase) (simp add: changeFits_def)
  next
    case (step_gang reason now)
    then show ?thesis unfolding gangStopWrite_def by (rule phase) (simp add: changeFits_def)
  next
    case (step_retake now fabricId)
    from step_retake(2) show ?thesis unfolding retakeWrite_def by (rule phase) (simp add: changeFits_def)
  next
    case (step_lost now)
    from step_lost(2) show ?thesis by (rule phase) (simp add: changeFits_def)
  next
    case (step_watch f now)
    with assms(2) show ?thesis by (rule watchLive_agree)
  next
    case (step_health launch success detail now)
    with assms(2) show ?thesis by (rule recordHealth_agree)
  qed
qed


definition demoInstance :: instanceRow where
  "demoInstance =
     \<lparr>ir_phase = READY, ir_phaseChangedAt = 0, ir_phaseReason = None,
      ir_desiredState = Some DESIRED_RUNNING, ir_needsOperator = None, ir_needsOperatorSince = None,
      ir_nextRestartAt = None, ir_unavailableSince = None, ir_unhealthySince = None,
      ir_healthDetail = None, ir_healthFailures = 0, ir_healthSuccesses = 0, ir_lastHealthAt = None,
      ir_fabricId = Some ''fabric'', ir_restartsInWindow = 0, ir_restartWindowStartedAt = None\<rparr>"





subsection \<open>Automatic restarts keep to their budget\<close>

record restartCycle =
  rc_reason :: string
  rc_stopAt :: millis
  rc_settleAt :: millis
  rc_restartAt :: millis
  rc_fabric :: "ident option"

text \<open>A run that fails, is stopped and settled, and is restarted by the engine.\<close>

definition runCycle :: "restartSettings \<Rightarrow> instanceRow \<Rightarrow> restartCycle \<Rightarrow> instanceRow option" where
  "runCycle s r c =
     (case gangStopWrite r (rc_reason c) (rc_stopAt c) of
        Inl _ \<Rightarrow> None
      | Inr r1 \<Rightarrow>
          (case settleStopped s r1 (rc_settleAt c) of
             Inl _ \<Rightarrow> None
           | Inr r2 \<Rightarrow>
               if restartDue r2 (rc_restartAt c)
               then (case retakeWrite r2 (rc_fabric c) (rc_restartAt c) of Inl _ \<Rightarrow> None | Inr r3 \<Rightarrow> Some r3)
               else None))"

fun runCycles :: "restartSettings \<Rightarrow> instanceRow \<Rightarrow> restartCycle list \<Rightarrow> instanceRow option" where
  "runCycles s r [] = Some r"
| "runCycles s r (c # cs) = (case runCycle s r c of None \<Rightarrow> None | Some r' \<Rightarrow> runCycles s r' cs)"

definition restartsUsed :: "restartSettings \<Rightarrow> instanceRow \<Rightarrow> millis \<Rightarrow> int" where
  "restartsUsed s r now =
     (case ir_restartWindowStartedAt r of
        None \<Rightarrow> 0
      | Some start \<Rightarrow> if now - start < rs_windowMs s then ir_restartsInWindow r else 0)"

lemma runCycle_restarts:
  assumes "runCycle s r c = Some r'"
  shows "restartsUsed s r (rc_settleAt c) < rs_restartBudget s"
    and "ir_restartsInWindow r' = restartsUsed s r (rc_settleAt c) + 1"
    and "ir_restartWindowStartedAt r' =
      (case ir_restartWindowStartedAt r of
         None \<Rightarrow> Some (rc_settleAt c)
       | Some start \<Rightarrow> Some (if rc_settleAt c - start < rs_windowMs s then start else rc_settleAt c))"
    and "rc_settleAt c + min (RESTART_BACKOFF_BASE_MS * 2 ^ nat (restartsUsed s r (rc_settleAt c)))
      RESTART_BACKOFF_MAX_MS \<le> rc_restartAt c"
proof -
  obtain r1 r2 where r1: "gangStopWrite r (rc_reason c) (rc_stopAt c) = Inr r1"
    and r2: "settleStopped s r1 (rc_settleAt c) = Inr r2"
    and due: "restartDue r2 (rc_restartAt c)"
    and r': "retakeWrite r2 (rc_fabric c) (rc_restartAt c) = Inr r'"
    using assms by (auto simp: runCycle_def split: sum.splits if_splits)
  have keep: "ir_restartsInWindow r1 = ir_restartsInWindow r"
    "ir_restartWindowStartedAt r1 = ir_restartWindowStartedAt r"
    using r1 by (auto simp: gangStopWrite_def writePhase_Inr row_simps)
  have upd: "ir_restartsInWindow r' = ir_restartsInWindow r2 + 1"
    "ir_restartWindowStartedAt r' = ir_restartWindowStartedAt r2"
    using r' by (auto simp: retakeWrite_def writePhase_Inr row_simps)
  let ?used = "restartsUsed s r1 (rc_settleAt c)" and ?open = "case ir_restartWindowStartedAt r1 of
      None \<Rightarrow> False | Some start \<Rightarrow> rc_settleAt c - start < rs_windowMs s"
  have used: "(if ?open then ir_restartsInWindow r1 else 0) = ?used"
    by (auto simp: restartsUsed_def split: option.splits)
  have next_at: "ir_nextRestartAt r2 \<noteq> None" and "ir_phase r2 = STOPPED"
    using due by (auto simp: restartDue_def split: option.splits)
  then obtain reason where change: "settleStoppedChange s r1 (rc_settleAt c) =
      ToStopped reason (AfterRestartAt (rc_settleAt c + min (RESTART_BACKOFF_BASE_MS * 2 ^ nat ?used) RESTART_BACKOFF_MAX_MS)
        ?used (if ?open then js_nullish (ir_restartWindowStartedAt r1) (rc_settleAt c) else rc_settleAt c))"
    and lt: "?used < rs_restartBudget s"
    using r2 unfolding settleStopped_def writePhase_Inr settleStoppedChange_def used Let_def
    by (auto simp: row_simps split: if_splits)
  have written: "ir_restartsInWindow r2 = ?used"
    "ir_restartWindowStartedAt r2 =
       Some (if ?open then js_nullish (ir_restartWindowStartedAt r1) (rc_settleAt c) else rc_settleAt c)"
    "ir_nextRestartAt r2 =
       Some (rc_settleAt c + min (RESTART_BACKOFF_BASE_MS * 2 ^ nat ?used) RESTART_BACKOFF_MAX_MS)"
    using r2 unfolding settleStopped_def writePhase_Inr change by (simp_all add: row_simps)
  have same: "?used = restartsUsed s r (rc_settleAt c)" by (simp add: restartsUsed_def keep split: option.splits)
  show "restartsUsed s r (rc_settleAt c) < rs_restartBudget s" using lt same by simp
  show "ir_restartsInWindow r' = restartsUsed s r (rc_settleAt c) + 1" using upd written same by simp
  show "ir_restartWindowStartedAt r' = (case ir_restartWindowStartedAt r of
         None \<Rightarrow> Some (rc_settleAt c)
       | Some start \<Rightarrow> Some (if rc_settleAt c - start < rs_windowMs s then start else rc_settleAt c))"
    using upd written keep by (auto split: option.splits)
  show "rc_settleAt c + min (RESTART_BACKOFF_BASE_MS * 2 ^ nat (restartsUsed s r (rc_settleAt c)))
      RESTART_BACKOFF_MAX_MS \<le> rc_restartAt c"
    using due written same by (simp add: restartDue_def)
qed

lemma runCycles_budget:
  assumes "runCycles s r cs = Some r'" "ir_restartWindowStartedAt r = Some start"
    and "\<forall>c \<in> set cs. rc_settleAt c - start < rs_windowMs s" "ir_restartsInWindow r \<le> rs_restartBudget s"
  shows "ir_restartsInWindow r + int (length cs) \<le> rs_restartBudget s"
  using assms
proof (induction cs arbitrary: r)
  case (Cons c cs)
  obtain r1 where r1: "runCycle s r c = Some r1" "runCycles s r1 cs = Some r'"
    using Cons.prems(1) by (auto split: option.splits)
  have "restartsUsed s r (rc_settleAt c) = ir_restartsInWindow r"
    using Cons.prems by (simp add: restartsUsed_def)
  with runCycle_restarts [OF r1(1)] Cons.IH [OF r1(2)] Cons.prems show ?case by simp
qed simp

lemma runCycles_backoff:
  assumes "runCycles s r cs = Some r'" "c \<in> set cs"
  shows "rc_settleAt c + RESTART_BACKOFF_BASE_MS \<le> rc_restartAt c"
  using assms
proof (induction cs arbitrary: r)
  case (Cons d cs)
  obtain r1 where r1: "runCycle s r d = Some r1" "runCycles s r1 cs = Some r'"
    using Cons.prems(1) by (auto split: option.splits)
  have "RESTART_BACKOFF_BASE_MS \<le> min (RESTART_BACKOFF_BASE_MS * 2 ^ n) RESTART_BACKOFF_MAX_MS" for n
    by (simp add: RESTART_BACKOFF_BASE_MS_def RESTART_BACKOFF_MAX_MS_def)
  then have "rc_settleAt d + RESTART_BACKOFF_BASE_MS \<le> rc_restartAt d"
    using runCycle_restarts(4) [OF r1(1)] by (meson add_left_mono order_trans)
  with Cons.IH [OF r1(2)] Cons.prems(2) show ?case by auto
qed simp


definition demoCycle :: restartCycle where
  "demoCycle = \<lparr>rc_reason = ''crashed'', rc_stopAt = 1000, rc_settleAt = 2000, rc_restartAt = 20000,
     rc_fabric = None\<rparr>"

definition demoSettings :: restartSettings where
  "demoSettings = \<lparr>rs_interactiveStart = False, rs_restartBudget = 3, rs_windowMs = 600000\<rparr>"

lemma demoCycle_runs: "\<exists>r'. runCycles demoSettings demoInstance [demoCycle] = Some r'"
  by (simp add: runCycle_def gangStopWrite_def settleStopped_def retakeWrite_def writePhase_def
      assertInstanceTransition_def instanceTransitionAllowed_def settleStoppedChange_def restartDue_def
      demoSettings_def demoInstance_def demoCycle_def row_simps SERVING_def ALL_PHASES_def
      INSTANCE_PHASES_def TERMINAL_START_ERRORS_def CLI_UPGRADE_REQUIRED_def
      RESTART_BACKOFF_BASE_MS_def RESTART_BACKOFF_MAX_MS_def)


subsection \<open>SQL filters and their in-memory forms\<close>

text \<open>
  C12: the SQL filter for live nodes selects exactly the rows the in-memory judgement calls live,
  which are exactly those that are unreachable since no instant.
\<close>

theorem liveNodeWhere_iff:
  "(liveNodeWhere now node \<longleftrightarrow> nodeIsLive (Some node) now) \<and>
   (nodeIsLive (Some node) now \<longleftrightarrow> nodeUnreachableSince node now = None)"
  by (auto simp: liveNodeWhere_def nodeIsLive_def nodeUnreachableSince_def livenessOf_def
      split: option.splits if_splits nodeLiveness.splits)

text \<open>
  C13: the SQL filter for steps that wait for a person and its in-memory form select the same steps,
  with and without a run; and syncing the need makes it STEP exactly when such a step waits, unless
  the stop or restart rules own it.
\<close>

theorem stepNeedsPerson_iff:
  "(stepNeedsPersonWhere now run step \<longleftrightarrow> stepNeedsPerson step now run) \<and>
   (ir_needsOperator (syncNeedsOperator r steps gen now) =
      (if ir_needsOperator r \<in> {Some NEED_MARK_STOPPED, Some NEED_RESTART} then ir_needsOperator r
       else if \<exists>x \<in> set steps. stepNeedsPerson x now (Some gen) then Some NEED_STEP else None))"
proof -
  have where_iff: "stepNeedsPersonWhere now run step \<longleftrightarrow> stepNeedsPerson step now run" for run step
    by (auto simp: stepNeedsPersonWhere_def stepNeedsPerson_def overdueAcceptedRunWhere_def
        isHeldStep_def Let_def split: option.splits)
  then show ?thesis
    by (auto simp: syncNeedsOperator_def writeOperatorNeed_def stepRuleNeed_def operatorStepWaiting_def
        filter_empty_conv)
qed

end
