(* ===== verification/ClaimOverlap.thy ===== *)
theory ClaimOverlap
  imports Complex_Main Wmp_Prelude
begin

text \<open>
  How the claims of one instance on one node add up while a restart's old and new claims both hold
  (\<^verbatim>\<open>packages/api/src/lib/claim-overlap.ts\<close>). Amounts of memory are exact rationals;
  rounding of the doubles the code uses is not modelled.
\<close>

record claimUsage =
  cu_memoryGb :: rat
  cu_gpus :: "(ident, rat) js_map"

definition NO_USAGE :: claimUsage where
  "NO_USAGE = \<lparr>cu_memoryGb = 0, cu_gpus = []\<rparr>"

fun addGpus :: "(ident, rat) js_map \<Rightarrow> (ident, rat) js_map \<Rightarrow> (ident, rat) js_map" where
  "addGpus [] gpus = gpus"
| "addGpus ((key, gb) # rest) gpus = addGpus rest (js_put key (js_nullish (js_get gpus key) 0 + gb) gpus)"

fun sumUsageLoop :: "claimUsage list \<Rightarrow> claimUsage \<Rightarrow> claimUsage" where
  "sumUsageLoop [] acc = acc"
| "sumUsageLoop (usage # rest) acc =
     sumUsageLoop rest
       \<lparr>cu_memoryGb = cu_memoryGb acc + cu_memoryGb usage,
        cu_gpus = addGpus (cu_gpus usage) (cu_gpus acc)\<rparr>"

definition sumUsage :: "claimUsage list \<Rightarrow> claimUsage" where
  "sumUsage usages = sumUsageLoop usages \<lparr>cu_memoryGb = 0, cu_gpus = []\<rparr>"

fun maxGpus :: "(ident, rat) js_map \<Rightarrow> (ident, rat) js_map \<Rightarrow> (ident, rat) js_map" where
  "maxGpus [] gpus = gpus"
| "maxGpus ((key, gb) # rest) gpus = maxGpus rest (js_put key (max (js_nullish (js_get gpus key) 0) gb) gpus)"

definition maxUsage :: "claimUsage \<Rightarrow> claimUsage \<Rightarrow> claimUsage" where
  "maxUsage a b =
     \<lparr>cu_memoryGb = max (cu_memoryGb a) (cu_memoryGb b), cu_gpus = maxGpus (cu_gpus b) (cu_gpus a)\<rparr>"

fun subtractGpus :: "(ident, rat) js_map \<Rightarrow> (ident, rat) js_map \<Rightarrow> (ident, rat) js_map" where
  "subtractGpus [] gpus = gpus"
| "subtractGpus ((key, gb) # rest) gpus =
     subtractGpus rest (js_put key (js_nullish (js_get gpus key) 0 - gb) gpus)"

definition subtractUsage :: "claimUsage \<Rightarrow> claimUsage \<Rightarrow> claimUsage" where
  "subtractUsage a b =
     \<lparr>cu_memoryGb = cu_memoryGb a - cu_memoryGb b, cu_gpus = subtractGpus (cu_gpus b) (cu_gpus a)\<rparr>"

definition overlapUsage :: "claimUsage list \<Rightarrow> claimUsage list \<Rightarrow> claimUsage" where
  "overlapUsage current previous =
     (if length previous = 0 then sumUsage current
      else maxUsage (sumUsage current) (sumUsage previous))"

definition overlapGrowth :: "claimUsage \<Rightarrow> claimUsage \<Rightarrow> claimUsage \<Rightarrow> claimUsage" where
  "overlapGrowth held placed added =
     (let before = maxUsage placed held; after = maxUsage (sumUsage [placed, added]) held
      in subtractUsage after before)"

definition memoryUsage :: "rat list \<Rightarrow> claimUsage" where
  "memoryUsage values = \<lparr>cu_memoryGb = foldl (+) 0 values, cu_gpus = []\<rparr>"

definition overlapMemoryGb :: "(rat list \<times> rat list) list \<Rightarrow> rat" where
  "overlapMemoryGb groups =
     foldl (\<lambda>acc (current, previous).
        acc + cu_memoryGb (overlapUsage [memoryUsage current] [memoryUsage previous])) 0 groups"

subsection \<open>Component by component\<close>

text \<open>What a usage takes of one GPU, and when a usage is well formed.\<close>

definition gpuGb :: "claimUsage \<Rightarrow> ident \<Rightarrow> rat" where
  "gpuGb u key = js_nullish (js_get (cu_gpus u) key) 0"

definition usageOk :: "claimUsage \<Rightarrow> bool" where
  "usageOk u \<longleftrightarrow> js_map_ok (cu_gpus u) \<and> 0 \<le> cu_memoryGb u \<and> (\<forall>(key, gb) \<in> set (cu_gpus u). 0 \<le> gb)"

lemma gpuGb_nonneg: "usageOk u \<Longrightarrow> 0 \<le> gpuGb u key"
  by (auto simp: usageOk_def gpuGb_def js_nullish_def split: option.splits dest!: map_of_SomeD)

lemma addGpus_get:
  "js_map_ok m \<Longrightarrow> js_nullish (js_get (addGpus m gpus) key) 0 =
     js_nullish (js_get gpus key) 0 + js_nullish (js_get m key) 0"
proof (induction m gpus rule: addGpus.induct)
  case (2 k gb rest gpus)
  then have "js_get rest k = None" by (simp add: map_of_eq_None_iff)
  with 2 show ?case by auto
qed simp

lemma maxGpus_get:
  "js_map_ok m \<Longrightarrow> js_nullish (js_get (maxGpus m gpus) key) 0 =
     (case js_get m key of None \<Rightarrow> js_nullish (js_get gpus key) 0
      | Some gb \<Rightarrow> max (js_nullish (js_get gpus key) 0) gb)"
proof (induction m gpus rule: maxGpus.induct)
  case (2 k gb rest gpus)
  then have "js_get rest k = None" by (simp add: map_of_eq_None_iff)
  with 2 show ?case by (auto split: option.splits)
qed simp

lemma subtractGpus_get:
  "js_map_ok m \<Longrightarrow> js_nullish (js_get (subtractGpus m gpus) key) 0 =
     js_nullish (js_get gpus key) 0 - js_nullish (js_get m key) 0"
proof (induction m gpus rule: subtractGpus.induct)
  case (2 k gb rest gpus)
  then have "js_get rest k = None" by (simp add: map_of_eq_None_iff)
  with 2 show ?case by auto
qed simp


lemma addGpus_ok: "js_map_ok gpus \<Longrightarrow> js_map_ok (addGpus m gpus)"
  by (induction m gpus rule: addGpus.induct) (auto simp: js_map_ok_put)

lemma maxGpus_ok: "js_map_ok gpus \<Longrightarrow> js_map_ok (maxGpus m gpus)"
  by (induction m gpus rule: maxGpus.induct) (auto simp: js_map_ok_put)

lemma usageOk_iff:
  "usageOk u \<longleftrightarrow> js_map_ok (cu_gpus u) \<and> 0 \<le> cu_memoryGb u \<and> (\<forall>key. 0 \<le> gpuGb u key)"
proof -
  have "0 \<le> gb" if "js_map_ok (cu_gpus u)" "\<forall>key. 0 \<le> gpuGb u key" "(key, gb) \<in> set (cu_gpus u)" for key gb
    using that(2) [rule_format, of key] that(1,3) by (simp add: gpuGb_def)
  then show ?thesis using gpuGb_nonneg [of u] by (auto simp: usageOk_def)
qed

lemma maxUsage_gpu:
  "usageOk a \<Longrightarrow> usageOk b \<Longrightarrow> gpuGb (maxUsage a b) key = max (gpuGb a key) (gpuGb b key)"
  using gpuGb_nonneg [of a key]
  by (auto simp: maxUsage_def gpuGb_def maxGpus_get usageOk_def max_def split: option.splits)

lemma maxUsage_ok [wf_intros]: "usageOk a \<Longrightarrow> usageOk b \<Longrightarrow> usageOk (maxUsage a b)"
  using maxUsage_gpu [of a b] gpuGb_nonneg [of a] gpuGb_nonneg [of b]
  by (auto simp: usageOk_iff maxUsage_def maxGpus_ok intro: max.coboundedI1)

lemma sumUsageLoop_eq:
  assumes "\<forall>u \<in> set us. usageOk u" "usageOk acc"
  shows "cu_memoryGb (sumUsageLoop us acc) = cu_memoryGb acc + (\<Sum>u\<leftarrow>us. cu_memoryGb u) \<and>
    (\<forall>key. gpuGb (sumUsageLoop us acc) key = gpuGb acc key + (\<Sum>u\<leftarrow>us. gpuGb u key)) \<and>
    usageOk (sumUsageLoop us acc)"
  using assms
proof (induction us arbitrary: acc)
  case (Cons u us)
  define acc' where "acc' = \<lparr>cu_memoryGb = cu_memoryGb acc + cu_memoryGb u,
    cu_gpus = addGpus (cu_gpus u) (cu_gpus acc)\<rparr>"
  have ok: "js_map_ok (cu_gpus u)" using Cons.prems(1) by (simp add: usageOk_def)
  have gpu: "gpuGb acc' key = gpuGb acc key + gpuGb u key" for key
    unfolding acc'_def gpuGb_def claimUsage.simps by (rule addGpus_get [OF ok])
  have "usageOk acc'"
    unfolding usageOk_iff gpu using Cons.prems gpuGb_nonneg [of u] gpuGb_nonneg [of acc]
    by (auto simp: acc'_def usageOk_def addGpus_ok)
  with Cons.IH [of acc'] Cons.prems(1) show ?case
    by (auto simp: acc'_def [symmetric] gpu) (simp add: acc'_def)
qed simp

lemma sumUsage_eq:
  assumes "\<forall>u \<in> set us. usageOk u"
  shows "cu_memoryGb (sumUsage us) = (\<Sum>u\<leftarrow>us. cu_memoryGb u)"
    "gpuGb (sumUsage us) key = (\<Sum>u\<leftarrow>us. gpuGb u key)" "usageOk (sumUsage us)"
  using sumUsageLoop_eq [OF assms, of "\<lparr>cu_memoryGb = 0, cu_gpus = []\<rparr>"]
  by (simp_all add: sumUsage_def usageOk_def gpuGb_def)

lemma subtractUsage_eq:
  "js_map_ok (cu_gpus b) \<Longrightarrow> gpuGb (subtractUsage a b) key = gpuGb a key - gpuGb b key"
  "cu_memoryGb (subtractUsage a b) = cu_memoryGb a - cu_memoryGb b"
  by (simp_all add: subtractUsage_def gpuGb_def subtractGpus_get)

lemma overlapGrowth_eq:
  assumes "usageOk held" "usageOk placed" "usageOk added"
  shows "cu_memoryGb (overlapGrowth held placed added) =
      max (cu_memoryGb placed + cu_memoryGb added) (cu_memoryGb held) -
      max (cu_memoryGb placed) (cu_memoryGb held)"
    "gpuGb (overlapGrowth held placed added) key =
      max (gpuGb placed key + gpuGb added key) (gpuGb held key) - max (gpuGb placed key) (gpuGb held key)"
proof -
  have s: "usageOk (sumUsage [placed, added])" "cu_memoryGb (sumUsage [placed, added]) = cu_memoryGb placed + cu_memoryGb added"
    "gpuGb (sumUsage [placed, added]) key = gpuGb placed key + gpuGb added key"
    using sumUsage_eq [of "[placed, added]"] assms by simp_all
  have b: "js_map_ok (cu_gpus (maxUsage placed held))"
    using maxUsage_ok [OF assms(2,1)] by (simp add: usageOk_def)
  show "cu_memoryGb (overlapGrowth held placed added) =
      max (cu_memoryGb placed + cu_memoryGb added) (cu_memoryGb held) -
      max (cu_memoryGb placed) (cu_memoryGb held)"
    using s(2) by (simp add: overlapGrowth_def Let_def subtractUsage_eq(2)) (simp add: maxUsage_def)
  show "gpuGb (overlapGrowth held placed added) key =
      max (gpuGb placed key + gpuGb added key) (gpuGb held key) - max (gpuGb placed key) (gpuGb held key)"
    using s assms by (simp add: overlapGrowth_def Let_def subtractUsage_eq(1) [OF b] maxUsage_gpu)
qed

subsection \<open>A restart costs its growth\<close>

text \<open>
  What a planner counts when it places new claims one after the other: the old claims are counted
  from the start, and every new claim adds its growth.
\<close>

fun countPlacements :: "claimUsage \<Rightarrow> claimUsage \<Rightarrow> rat \<times> (ident \<Rightarrow> rat) \<Rightarrow> claimUsage list \<Rightarrow> rat \<times> (ident \<Rightarrow> rat)" where
  "countPlacements held placed counted [] = counted"
| "countPlacements held placed (memory, gpu) (added # rest) =
     (let growth = overlapGrowth held placed added
      in countPlacements held (sumUsage [placed, added])
           (memory + cu_memoryGb growth, \<lambda>key. gpu key + gpuGb growth key) rest)"

lemma countPlacements_eq:
  assumes "usageOk held" "usageOk placed" "\<forall>u \<in> set new. usageOk u"
    and "memory = max (cu_memoryGb placed) (cu_memoryGb held)"
    and "\<And>key. gpu key = max (gpuGb placed key) (gpuGb held key)"
  shows "fst (countPlacements held placed (memory, gpu) new) =
      max (cu_memoryGb placed + (\<Sum>u\<leftarrow>new. cu_memoryGb u)) (cu_memoryGb held) \<and>
    snd (countPlacements held placed (memory, gpu) new) key =
      max (gpuGb placed key + (\<Sum>u\<leftarrow>new. gpuGb u key)) (gpuGb held key)"
  using assms
proof (induction new arbitrary: placed memory gpu)
  case (Cons added rest)
  have ok: "usageOk added" "\<forall>u \<in> set rest. usageOk u" using Cons.prems(3) by auto
  have s: "usageOk (sumUsage [placed, added])" "cu_memoryGb (sumUsage [placed, added]) = cu_memoryGb placed + cu_memoryGb added"
    "\<And>key. gpuGb (sumUsage [placed, added]) key = gpuGb placed key + gpuGb added key"
    using sumUsage_eq [of "[placed, added]"] Cons.prems(2) ok(1) by simp_all
  note g = overlapGrowth_eq [OF Cons.prems(1,2) ok(1)]
  show ?case
    using Cons.IH [OF Cons.prems(1) s(1) ok(2), of "memory + cu_memoryGb (overlapGrowth held placed added)"
        "\<lambda>key. gpu key + gpuGb (overlapGrowth held placed added) key"]
    by (simp add: s g Cons.prems(4,5) Let_def add.assoc)
qed simp

text \<open>
  C14: placing a restart's new claims one by one, each at its growth over the old claims, counts in
  the end exactly what the overlap rule says the instance takes: the larger of the old claims and
  all the new ones together, in memory and in VRAM of every GPU. No claim's growth is negative.
\<close>

theorem growth_accounts_for_overlap:
  assumes "previous \<noteq> []" "\<forall>u \<in> set previous. usageOk u" "\<forall>u \<in> set new. usageOk u"
  shows "countPlacements (sumUsage previous) NO_USAGE
      (cu_memoryGb (sumUsage previous), gpuGb (sumUsage previous)) new =
    (cu_memoryGb (overlapUsage new previous), gpuGb (overlapUsage new previous)) \<and>
    (\<forall>placed added. usageOk placed \<longrightarrow> usageOk added \<longrightarrow>
       0 \<le> cu_memoryGb (overlapGrowth (sumUsage previous) placed added) \<and>
       (\<forall>key. 0 \<le> gpuGb (overlapGrowth (sumUsage previous) placed added) key))"
proof -
  let ?held = "sumUsage previous"
  have held: "usageOk ?held" and no: "usageOk NO_USAGE" and new: "usageOk (sumUsage new)"
    using sumUsage_eq(3) assms by (auto simp: NO_USAGE_def usageOk_def)
  have zero: "cu_memoryGb NO_USAGE = 0" "\<And>key. gpuGb NO_USAGE key = 0"
    by (simp_all add: NO_USAGE_def gpuGb_def)
  have nonneg: "0 \<le> cu_memoryGb ?held" "\<And>key. 0 \<le> gpuGb ?held key"
    using held by (auto simp: usageOk_iff)
  have "countPlacements ?held NO_USAGE (cu_memoryGb ?held, gpuGb ?held) new =
    (cu_memoryGb (overlapUsage new previous), gpuGb (overlapUsage new previous))"
  proof (rule prod_eqI)
    show "fst (countPlacements ?held NO_USAGE (cu_memoryGb ?held, gpuGb ?held) new) =
        fst (cu_memoryGb (overlapUsage new previous), gpuGb (overlapUsage new previous))"
      using countPlacements_eq [OF held no assms(3), of "cu_memoryGb ?held" "gpuGb ?held"] nonneg assms(1)
        sumUsage_eq(1) [OF assms(3)]
      by (simp add: zero overlapUsage_def) (simp add: maxUsage_def)
    show "snd (countPlacements ?held NO_USAGE (cu_memoryGb ?held, gpuGb ?held) new) =
        snd (cu_memoryGb (overlapUsage new previous), gpuGb (overlapUsage new previous))"
      using countPlacements_eq [OF held no assms(3), of "cu_memoryGb ?held" "gpuGb ?held"] nonneg assms(1)
        sumUsage_eq(2) [OF assms(3)]
      by (simp add: zero overlapUsage_def maxUsage_gpu [OF new held] fun_eq_iff)
  qed
  moreover have "0 \<le> cu_memoryGb (overlapGrowth ?held placed added) \<and>
       (\<forall>key. 0 \<le> gpuGb (overlapGrowth ?held placed added) key)" if "usageOk placed" "usageOk added" for placed added
  proof -
    have grow: "0 \<le> max (a + b) c - max a c" if "0 \<le> b" for a b c :: rat
      using that by (auto simp: max_def)
    show ?thesis
      unfolding overlapGrowth_eq [OF held that] using that(2) unfolding usageOk_iff by (blast intro: grow)
  qed
  ultimately show ?thesis by blast
qed

definition demoUsage :: "rat \<Rightarrow> rat \<Rightarrow> claimUsage" where
  "demoUsage memory vram = \<lparr>cu_memoryGb = memory, cu_gpus = [(''nvidia:0'', vram)]\<rparr>"

theorem growth_accounts_for_overlap_witness:
  "countPlacements (sumUsage [demoUsage 8 24]) NO_USAGE
      (cu_memoryGb (sumUsage [demoUsage 8 24]), gpuGb (sumUsage [demoUsage 8 24]))
      [demoUsage 4 16, demoUsage 6 2] =
    (cu_memoryGb (overlapUsage [demoUsage 4 16, demoUsage 6 2] [demoUsage 8 24]),
     gpuGb (overlapUsage [demoUsage 4 16, demoUsage 6 2] [demoUsage 8 24]))"
  using growth_accounts_for_overlap [of "[demoUsage 8 24]" "[demoUsage 4 16, demoUsage 6 2]"]
  by (simp add: demoUsage_def usageOk_def)

end
