(* ===== verification/TerminalAttach.thy ===== *)
theory TerminalAttach
  imports Wmp_Prelude "HOL-Library.Multiset"
begin

text \<open>
  Where each browser terminal tab is in attaching to its terminal
  (\<^verbatim>\<open>apps/web/src/lib/terminal-attach-state.ts\<close>): the state machine of one tab, and the
  collection of all tabs with its index by terminal id.

  Objects the code compares by identity carry an identity of their own: a session has an id, and
  an identity check a token. \<open>transitionAttach\<close> gives \<open>None\<close> where the code returns the very
  object the tab is in. The effects a stage leaves behind are recorded in the state: the timers
  cleared and the calls of \<^verbatim>\<open>options.retire\<close>, in order.
\<close>

subsection \<open>One tab\<close>

record attachHandshake =
  ah_localId :: ident
  ah_terminalId :: "ident option"

record attachSession =
  at_sessionId :: nat
  at_terminalId :: ident

datatype attachMode = ModeOpen | ModeAttach

datatype attachStage =
    Idle
  | AwaitingIdentity
  | CheckingIdentity attachMode nat
  | HandshakeSent attachHandshake
  | Establishing attachHandshake
  | Backoff nat
  | Live attachSession
  | Retired attachSession
  | Draining attachSession

datatype attachEvent =
    EvCheck attachMode nat
  | EvIdentityLoading
  | EvHandshakeSent attachHandshake
  | EvEstablishing
  | EvEstablished attachSession
  | EvAbandon
  | EvEndAttach
  | EvBackoff nat
  | EvBackoffElapsed
  | EvAwaitIdentity
  | EvRetry
  | EvEndSession
  | EvExited
  | EvGone
  | EvDrained attachSession
  | EvSocketClosed
  | EvSocketOpened

fun stageSession :: "attachStage \<Rightarrow> attachSession option" where
  "stageSession (Live s) = Some s"
| "stageSession (Retired s) = Some s"
| "stageSession (Draining s) = Some s"
| "stageSession _ = None"

fun handshakeUnderWay :: "attachStage \<Rightarrow> bool" where
  "handshakeUnderWay (CheckingIdentity _ _) = True"
| "handshakeUnderWay (HandshakeSent _) = True"
| "handshakeUnderWay (Establishing _) = True"
| "handshakeUnderWay _ = False"

fun attachIdle :: "attachStage \<Rightarrow> bool" where
  "attachIdle Idle = True"
| "attachIdle AwaitingIdentity = True"
| "attachIdle (Backoff _) = True"
| "attachIdle _ = False"

text \<open>The two stage objects that are shared constants: entering the one held is no change.\<close>

definition toShared :: "attachStage \<Rightarrow> attachStage \<Rightarrow> attachStage option" where
  "toShared shared stage = (if stage = shared then None else Some shared)"

fun transitionAttach :: "attachStage \<Rightarrow> attachEvent \<Rightarrow> attachStage option" where
  "transitionAttach stage (EvCheck mode token) =
     (if stageSession stage \<noteq> None then None else Some (CheckingIdentity mode token))"
| "transitionAttach stage EvIdentityLoading =
     (case stage of CheckingIdentity _ _ \<Rightarrow> Some AwaitingIdentity | _ \<Rightarrow> None)"
| "transitionAttach stage (EvHandshakeSent h) =
     (case stage of CheckingIdentity _ _ \<Rightarrow> Some (HandshakeSent h) | _ \<Rightarrow> None)"
| "transitionAttach stage EvEstablishing =
     (case stage of HandshakeSent h \<Rightarrow> Some (Establishing h) | _ \<Rightarrow> None)"
| "transitionAttach stage (EvEstablished s) =
     (case stage of Establishing _ \<Rightarrow> Some (Live s) | _ \<Rightarrow> None)"
| "transitionAttach stage EvAbandon = (if handshakeUnderWay stage then Some Idle else None)"
| "transitionAttach stage EvEndAttach = (if stageSession stage \<noteq> None then Some Idle else None)"
| "transitionAttach stage (EvBackoff timer) =
     (if stageSession stage \<noteq> None then None else Some (Backoff timer))"
| "transitionAttach stage EvBackoffElapsed = (case stage of Backoff _ \<Rightarrow> Some Idle | _ \<Rightarrow> None)"
| "transitionAttach stage EvAwaitIdentity =
     (if stageSession stage \<noteq> None then None else toShared AwaitingIdentity stage)"
| "transitionAttach stage EvRetry = (case stage of AwaitingIdentity \<Rightarrow> Some Idle | _ \<Rightarrow> None)"
| "transitionAttach stage EvEndSession = (case stage of Live s \<Rightarrow> Some (Retired s) | _ \<Rightarrow> None)"
| "transitionAttach stage EvExited =
     (case stage of
        Live s \<Rightarrow> Some (Draining s)
      | Retired s \<Rightarrow> Some (Draining s)
      | CheckingIdentity _ _ \<Rightarrow> Some Idle
      | HandshakeSent _ \<Rightarrow> Some Idle
      | Backoff _ \<Rightarrow> Some Idle
      | _ \<Rightarrow> None)"
| "transitionAttach stage EvGone =
     (case stage of
        Live s \<Rightarrow> Some (Draining s)
      | Retired s \<Rightarrow> Some (Draining s)
      | Draining _ \<Rightarrow> None
      | _ \<Rightarrow> toShared Idle stage)"
| "transitionAttach stage (EvDrained s) =
     (case stage of Draining s' \<Rightarrow> if s' = s then Some Idle else None | _ \<Rightarrow> None)"
| "transitionAttach stage EvSocketClosed =
     (if stage = AwaitingIdentity then None else toShared Idle stage)"
| "transitionAttach stage EvSocketOpened = (if handshakeUnderWay stage then Some Idle else None)"

subsection \<open>Every tab\<close>

record attachEntry =
  ae_localId :: ident
  ae_terminalId :: "ident option"
  ae_stage :: attachStage
  ae_ticket :: "string option"
  ae_early :: "string list"

record attachments =
  ta_byLocal :: "(ident, attachEntry) js_map"
  ta_byTerminal :: "(ident, ident js_set) js_map"
  ta_cleared :: "nat list"
  ta_retired :: "(attachSession \<times> bool) list"

definition noAttachments :: attachments where
  "noAttachments = \<lparr>ta_byLocal = [], ta_byTerminal = [], ta_cleared = [], ta_retired = []\<rparr>"

definition attachUnindex :: "ident \<Rightarrow> ident \<Rightarrow> attachments \<Rightarrow> attachments" where
  "attachUnindex terminalId localId a =
     (case js_get (ta_byTerminal a) terminalId of
        None \<Rightarrow> a
      | Some locals \<Rightarrow>
          let locals' = filter (\<lambda>l. l \<noteq> localId) locals
          in a\<lparr>ta_byTerminal :=
               (if locals' = [] then js_del terminalId (ta_byTerminal a)
                else js_put terminalId locals' (ta_byTerminal a))\<rparr>)"

definition setTerminal :: "ident \<Rightarrow> ident \<Rightarrow> attachments \<Rightarrow> attachments" where
  "setTerminal localId terminalId a =
     (case js_get (ta_byLocal a) localId of
        None \<Rightarrow> a
      | Some entry \<Rightarrow>
          if ae_terminalId entry = Some terminalId then a
          else
            let a1 = (case ae_terminalId entry of
                        None \<Rightarrow> a
                      | Some old \<Rightarrow> if old = '''' then a else attachUnindex old localId a);
                locals = js_nullish (js_get (ta_byTerminal a1) terminalId) []
            in a1\<lparr>ta_byLocal := js_put localId (entry\<lparr>ae_terminalId := Some terminalId\<rparr>) (ta_byLocal a1),
                  ta_byTerminal := js_put terminalId (js_add localId locals) (ta_byTerminal a1)\<rparr>)"

definition addTab :: "ident \<Rightarrow> ident option \<Rightarrow> string option \<Rightarrow> attachments \<Rightarrow> attachments" where
  "addTab localId terminalId ticket a =
     (if js_has (ta_byLocal a) localId then a
      else
        let a1 = a\<lparr>ta_byLocal := js_put localId
              \<lparr>ae_localId = localId, ae_terminalId = None, ae_stage = Idle, ae_ticket = ticket,
               ae_early = []\<rparr> (ta_byLocal a)\<rparr>
        in case terminalId of
             None \<Rightarrow> a1
           | Some t \<Rightarrow> if t = '''' then a1 else setTerminal localId t a1)"

definition forTerminal :: "ident \<Rightarrow> attachments \<Rightarrow> attachEntry list" where
  "forTerminal terminalId a =
     (case js_get (ta_byTerminal a) terminalId of
        None \<Rightarrow> []
      | Some locals \<Rightarrow> List.map_filter (js_get (ta_byLocal a)) locals)"

definition sessionEntry :: "ident \<Rightarrow> attachments \<Rightarrow> attachEntry option" where
  "sessionEntry terminalId a =
     find (\<lambda>entry. map_option at_terminalId (stageSession (ae_stage entry)) = Some terminalId)
       (forTerminal terminalId a)"

definition sessionOf :: "ident \<Rightarrow> attachments \<Rightarrow> attachSession option" where
  "sessionOf terminalId a =
     (case sessionEntry terminalId a of None \<Rightarrow> None | Some entry \<Rightarrow> stageSession (ae_stage entry))"

fun handshakeIn :: "ident \<Rightarrow> attachEntry list \<Rightarrow> attachHandshake option" where
  "handshakeIn terminalId [] = None"
| "handshakeIn terminalId (entry # rest) =
     (case ae_stage entry of
        HandshakeSent h \<Rightarrow>
          if ah_terminalId h = Some terminalId then Some h else handshakeIn terminalId rest
      | _ \<Rightarrow> handshakeIn terminalId rest)"

definition handshakeFor :: "ident \<Rightarrow> attachments \<Rightarrow> attachHandshake option" where
  "handshakeFor terminalId a =
     (if length terminalId = 0 then None else handshakeIn terminalId (forTerminal terminalId a))"

definition canStartAttach :: "ident \<Rightarrow> ident \<Rightarrow> attachments \<Rightarrow> bool" where
  "canStartAttach localId terminalId a =
     (case js_get (ta_byLocal a) localId of
        None \<Rightarrow> False
      | Some entry \<Rightarrow>
          if \<not> attachIdle (ae_stage entry) then False
          else list_all (\<lambda>other. attachIdle (ae_stage other)) (forTerminal terminalId a))"

text \<open>The cleanup of a stage that is left.\<close>

definition leaveStage :: "attachStage \<Rightarrow> attachStage \<Rightarrow> attachments \<Rightarrow> attachments" where
  "leaveStage previous next a =
     (case previous of
        Backoff timer \<Rightarrow> a\<lparr>ta_cleared := ta_cleared a @ [timer]\<rparr>
      | Live s \<Rightarrow>
          let kept = (stageSession next = Some s)
          in a\<lparr>ta_retired := ta_retired a @ [(s, \<not> kept)]\<rparr>
      | _ \<Rightarrow> a)"

definition setStage :: "ident \<Rightarrow> attachEntry \<Rightarrow> attachStage \<Rightarrow> attachments \<Rightarrow> attachments" where
  "setStage localId entry stage a =
     a\<lparr>ta_byLocal := js_put localId (entry\<lparr>ae_stage := stage\<rparr>) (ta_byLocal a)\<rparr>"

definition applyEvent :: "ident \<Rightarrow> attachEvent \<Rightarrow> attachments \<Rightarrow> attachments" where
  "applyEvent localId event a =
     (case js_get (ta_byLocal a) localId of
        None \<Rightarrow> a
      | Some entry \<Rightarrow>
          (case transitionAttach (ae_stage entry) event of
             None \<Rightarrow> a
           | Some next \<Rightarrow> setStage localId entry next (leaveStage (ae_stage entry) next a)))"

definition abandonAttach :: "ident \<Rightarrow> ident option \<Rightarrow> attachments \<Rightarrow> attachments" where
  "abandonAttach localId terminalId a =
     (let a1 = applyEvent localId EvAbandon a
      in case terminalId of
           None \<Rightarrow> a1
         | Some t \<Rightarrow>
             if t = '''' then a1
             else foldl (\<lambda>a entry.
                    case ae_stage entry of
                      CheckingIdentity _ _ \<Rightarrow> applyEvent (ae_localId entry) EvAbandon a
                    | HandshakeSent _ \<Rightarrow> applyEvent (ae_localId entry) EvAbandon a
                    | _ \<Rightarrow> a) a1 (forTerminal t a1))"

definition endAttachOf :: "ident \<Rightarrow> attachments \<Rightarrow> attachments" where
  "endAttachOf terminalId a =
     (case sessionEntry terminalId a of
        None \<Rightarrow> a
      | Some entry \<Rightarrow> applyEvent (ae_localId entry) EvEndAttach a)"

definition bufferEarly :: "ident \<Rightarrow> string \<Rightarrow> nat \<Rightarrow> attachments \<Rightarrow> attachments" where
  "bufferEarly terminalId frame limit a =
     (let entries = forTerminal terminalId a
      in case (case find (\<lambda>item. handshakeUnderWay (ae_stage item)) entries of
                 Some entry \<Rightarrow> Some entry
               | None \<Rightarrow> (case entries of [] \<Rightarrow> None | entry # _ \<Rightarrow> Some entry)) of
           None \<Rightarrow> a
         | Some entry \<Rightarrow>
             let early = ae_early entry @ [frame];
                 early' = (if length early > limit then tl early else early)
             in a\<lparr>ta_byLocal := js_put (ae_localId entry) (entry\<lparr>ae_early := early'\<rparr>) (ta_byLocal a)\<rparr>)"

definition clearEarly :: "ident \<Rightarrow> attachments \<Rightarrow> attachments" where
  "clearEarly terminalId a =
     foldl (\<lambda>a entry. a\<lparr>ta_byLocal := js_put (ae_localId entry) (entry\<lparr>ae_early := []\<rparr>) (ta_byLocal a)\<rparr>)
       a (forTerminal terminalId a)"

definition deleteTab :: "ident \<Rightarrow> attachments \<Rightarrow> attachments" where
  "deleteTab localId a =
     (case js_get (ta_byLocal a) localId of
        None \<Rightarrow> a
      | Some entry \<Rightarrow>
          let a1 = leaveStage (ae_stage entry) Idle a;
              a2 = a1\<lparr>ta_byLocal := js_del localId (ta_byLocal a1)\<rparr>
          in case ae_terminalId entry of
               None \<Rightarrow> a2
             | Some t \<Rightarrow> if t = '''' then a2 else attachUnindex t localId a2)"

definition disposeTabs :: "attachments \<Rightarrow> attachments" where
  "disposeTabs a =
     foldl (\<lambda>a (localId, entry). setStage localId entry Idle (leaveStage (ae_stage entry) Idle a))
       a (ta_byLocal a)"

definition localIdsIn :: "(attachStage \<Rightarrow> bool) \<Rightarrow> attachments \<Rightarrow> ident list" where
  "localIdsIn isStage a =
     map ae_localId (filter (\<lambda>entry. isStage (ae_stage entry)) (js_values (ta_byLocal a)))"

subsection \<open>Steps\<close>

text \<open>
  What the page does with the collection. A tab starts an attach only when \<open>canStartAttach\<close> allows
  it, or as an \<^verbatim>\<open>open\<close> that has no terminal yet; a terminal id is not empty; and a tab that is
  not idle is only given a terminal that no other tab holds (the relay names a terminal it just
  made).
\<close>

definition tabOf :: "attachments \<Rightarrow> ident \<Rightarrow> attachEntry option" where
  "tabOf a l = js_get (ta_byLocal a) l"

definition mayName :: "ident \<Rightarrow> ident \<Rightarrow> attachments \<Rightarrow> bool" where
  "mayName l t a \<longleftrightarrow> t \<noteq> '''' \<and>
     ((\<forall>e. tabOf a l = Some e \<longrightarrow> attachIdle (ae_stage e)) \<or>
      (\<forall>l' e. tabOf a l' = Some e \<longrightarrow> ae_terminalId e = Some t \<longrightarrow> attachIdle (ae_stage e)))"

definition mayStart :: "ident \<Rightarrow> attachments \<Rightarrow> bool" where
  "mayStart l a \<longleftrightarrow>
     (\<forall>e. tabOf a l = Some e \<longrightarrow>
        (case ae_terminalId e of None \<Rightarrow> True | Some t \<Rightarrow> canStartAttach l t a))"

text \<open>
  What a stage holds that has to be ended: a live session, or a pending timer; and what an event
  makes a tab acquire.
\<close>

fun stageHolds :: "attachStage \<Rightarrow> (attachSession + nat) multiset" where
  "stageHolds (Live s) = {#Inl s#}"
| "stageHolds (Backoff timer) = {#Inr timer#}"
| "stageHolds _ = {#}"

definition eventAcquires :: "attachEvent \<Rightarrow> attachStage \<Rightarrow> (attachSession + nat) multiset" where
  "eventAcquires event stage =
     (case event of
        EvEstablished s \<Rightarrow> (case stage of Establishing _ \<Rightarrow> {#Inl s#} | _ \<Rightarrow> {#})
      | EvBackoff timer \<Rightarrow> if stageSession stage = None then {#Inr timer#} else {#}
      | _ \<Rightarrow> {#})"

definition tabAcquires :: "ident \<Rightarrow> attachEvent \<Rightarrow> attachments \<Rightarrow> (attachSession + nat) multiset" where
  "tabAcquires l event a = (case tabOf a l of None \<Rightarrow> {#} | Some e \<Rightarrow> eventAcquires event (ae_stage e))"

text \<open>A step, labelled with what it acquires.\<close>

inductive attachStep :: "attachments \<Rightarrow> (attachSession + nat) multiset \<Rightarrow> attachments \<Rightarrow> bool" where
    at_add: "attachStep a {#} (addTab l t ticket a)"
  | at_name: "mayName l t a \<Longrightarrow> attachStep a {#} (setTerminal l t a)"
  | at_check: "mayStart l a \<Longrightarrow> attachStep a {#} (applyEvent l (EvCheck mode token) a)"
  | at_event: "(\<And>mode token. event \<noteq> EvCheck mode token) \<Longrightarrow>
      attachStep a (tabAcquires l event a) (applyEvent l event a)"
  | at_abandon: "attachStep a {#} (abandonAttach l t a)"
  | at_end: "attachStep a {#} (endAttachOf t a)"
  | at_buffer: "attachStep a {#} (bufferEarly t frame limit a)"
  | at_clear: "attachStep a {#} (clearEarly t a)"
  | at_delete: "attachStep a {#} (deleteTab l a)"
  | at_dispose: "attachStep a {#} (disposeTabs a)"

text \<open>The collections the page reaches, with everything acquired so far.\<close>

inductive attachReach :: "attachments \<Rightarrow> (attachSession + nat) multiset \<Rightarrow> bool" where
    reach_init: "attachReach noAttachments {#}"
  | reach_step: "attachReach a acquired \<Longrightarrow> attachStep a new b \<Longrightarrow> attachReach b (acquired + new)"

subsection \<open>The index\<close>

definition localsAt :: "attachments \<Rightarrow> ident \<Rightarrow> ident list" where
  "localsAt a t = js_nullish (js_get (ta_byTerminal a) t) []"

definition termOf :: "attachments \<Rightarrow> ident \<Rightarrow> ident option" where
  "termOf a l = Option.bind (tabOf a l) ae_terminalId"

definition indexOk :: "attachments \<Rightarrow> bool" where
  "indexOk a \<longleftrightarrow>
     js_map_ok (ta_byLocal a) \<and>
     (\<forall>l e. tabOf a l = Some e \<longrightarrow> ae_localId e = l \<and> ae_terminalId e \<noteq> Some '''') \<and>
     (\<forall>t. js_get (ta_byTerminal a) t \<noteq> Some [] \<and> distinct (localsAt a t)) \<and>
     (\<forall>t l. l \<in> set (localsAt a t) \<longleftrightarrow> termOf a l = Some t)"

lemma indexOkD:
  assumes "indexOk a"
  shows "js_map_ok (ta_byLocal a)" "\<And>l e. tabOf a l = Some e \<Longrightarrow> ae_localId e = l"
    "\<And>t l. l \<in> set (localsAt a t) \<longleftrightarrow> termOf a l = Some t" "\<And>t. distinct (localsAt a t)"
    "\<And>l e. tabOf a l = Some e \<Longrightarrow> ae_terminalId e \<noteq> Some ''''"
  using assms by (auto simp: indexOk_def)

text \<open>Operations that touch neither the tabs' terminals nor the index.\<close>

definition sameTabs :: "attachments \<Rightarrow> attachments \<Rightarrow> bool" where
  "sameTabs a b \<longleftrightarrow>
     ta_byTerminal b = ta_byTerminal a \<and> (js_map_ok (ta_byLocal a) \<longrightarrow> js_map_ok (ta_byLocal b)) \<and>
     (\<forall>l. map_option (\<lambda>e. (ae_localId e, ae_terminalId e)) (tabOf b l) =
          map_option (\<lambda>e. (ae_localId e, ae_terminalId e)) (tabOf a l))"

lemma sameTabs_refl [simp]: "sameTabs a a"
  by (simp add: sameTabs_def)

lemma sameTabs_trans: "sameTabs a b \<Longrightarrow> sameTabs b c \<Longrightarrow> sameTabs a c"
  by (simp add: sameTabs_def)

lemma sameTabs_tab:
  assumes "sameTabs a b"
  shows "map_option (\<lambda>e. (ae_localId e, ae_terminalId e)) (tabOf b l) =
    map_option (\<lambda>e. (ae_localId e, ae_terminalId e)) (tabOf a l)"
  using assms unfolding sameTabs_def by blast

lemma sameTabs_some:
  assumes "sameTabs a b" "tabOf b l = Some e'"
  obtains e where "tabOf a l = Some e" "ae_localId e = ae_localId e'" "ae_terminalId e = ae_terminalId e'"
  using sameTabs_tab [OF assms(1), of l] assms(2) by (cases "tabOf a l") auto

lemma sameTabs_index:
  assumes "sameTabs a b" "indexOk a"
  shows "indexOk b"
proof -
  have "termOf b l = termOf a l" for l
    using sameTabs_tab [OF assms(1), of l] by (cases "tabOf a l"; cases "tabOf b l") (auto simp: termOf_def)
  moreover have "localsAt b = localsAt a" using assms(1) by (simp add: localsAt_def sameTabs_def fun_eq_iff)
  moreover have "js_map_ok (ta_byLocal b)" "ta_byTerminal b = ta_byTerminal a"
    using assms by (auto simp: sameTabs_def indexOk_def)
  moreover have "ae_localId e = l \<and> ae_terminalId e \<noteq> Some ''''" if "tabOf b l = Some e" for l e
    using sameTabs_some [OF assms(1) that] indexOkD(2,5) [OF assms(2)] by metis
  ultimately show ?thesis
    using assms(2) unfolding indexOk_def by metis
qed

lemma sameTabs_leave: "sameTabs a (leaveStage p n a)"
  by (cases p) (simp_all add: leaveStage_def sameTabs_def tabOf_def Let_def)

lemma sameTabs_put:
  assumes "tabOf a l = Some e" "ae_localId e' = ae_localId e" "ae_terminalId e' = ae_terminalId e"
  shows "sameTabs a (a\<lparr>ta_byLocal := js_put l e' (ta_byLocal a)\<rparr>)"
  using assms by (auto simp: sameTabs_def tabOf_def js_map_ok_put)

lemma sameTabs_setStage: "tabOf a l = Some e \<Longrightarrow> sameTabs a (setStage l e stage a)"
  unfolding setStage_def by (rule sameTabs_put) simp_all

lemma tabOf_leave [simp]: "tabOf (leaveStage p n a) l = tabOf a l"
  by (cases p) (simp_all add: leaveStage_def tabOf_def Let_def)

lemma sameTabs_leave_set: "tabOf a l = Some e \<Longrightarrow> sameTabs a (setStage l e next (leaveStage p next a))"
  by (rule sameTabs_trans [OF sameTabs_leave sameTabs_setStage]) simp

lemma sameTabs_apply: "sameTabs a (applyEvent l event a)"
  unfolding applyEvent_def tabOf_def [symmetric]
  by (auto split: option.splits intro: sameTabs_leave_set)

lemma sameTabs_foldl:
  assumes "sameTabs a0 a" "\<And>b x. x \<in> set xs \<Longrightarrow> sameTabs a0 b \<Longrightarrow> sameTabs b (f b x)"
  shows "sameTabs a0 (foldl f a xs)"
  using assms
proof (induction xs arbitrary: a)
  case (Cons x xs)
  have "sameTabs a0 (f a x)" using Cons.prems by (meson list.set_intros(1) sameTabs_trans)
  with Cons show ?case by simp
qed simp

lemma set_map_filter_iff: "y \<in> set (List.map_filter f xs) \<longleftrightarrow> (\<exists>x \<in> set xs. f x = Some y)"
  by (induction xs) (auto simp: map_filter_simps split: option.splits)

lemma localsAt_tab:
  assumes "indexOk a" "tabOf a l = Some e"
  shows "l \<in> set (localsAt a t) \<longleftrightarrow> ae_terminalId e = Some t"
  using indexOkD(3) [OF assms(1), of l t] assms(2) by (simp add: termOf_def)

lemma forTerminal_set:
  assumes "indexOk a"
  shows "set (forTerminal t a) = {e. tabOf a (ae_localId e) = Some e \<and> ae_terminalId e = Some t}"
proof -
  have "set (forTerminal t a) = {e. \<exists>l. l \<in> set (localsAt a t) \<and> tabOf a l = Some e}"
    by (cases "js_get (ta_byTerminal a) t")
      (auto simp: forTerminal_def localsAt_def tabOf_def set_map_filter_iff)
  also have "\<dots> = {e. tabOf a (ae_localId e) = Some e \<and> ae_terminalId e = Some t}"
    using localsAt_tab [OF assms] indexOkD(2) [OF assms] by blast
  finally show ?thesis .
qed

lemma sameTabs_put_stale:
  assumes "sameTabs a b" "tabOf a l = Some e" "ae_localId e' = ae_localId e" "ae_terminalId e' = ae_terminalId e"
  shows "sameTabs b (b\<lparr>ta_byLocal := js_put l e' (ta_byLocal b)\<rparr>)"
proof -
  obtain x where "tabOf b l = Some x" "ae_localId x = ae_localId e" "ae_terminalId x = ae_terminalId e"
    using sameTabs_tab [OF assms(1), of l] assms(2) by (cases "tabOf b l") auto
  then show ?thesis using assms(3,4) sameTabs_put [of b l x e'] by simp
qed

lemma sameTabs_dispose:
  assumes "indexOk a"
  shows "sameTabs a (disposeTabs a)"
  unfolding disposeTabs_def
proof (rule sameTabs_foldl [OF sameTabs_refl], clarify)
  fix b l e assume "(l, e) \<in> set (ta_byLocal a)" and ab: "sameTabs a b"
  then have e: "tabOf a l = Some e"
    using indexOkD(1) [OF assms] by (simp add: tabOf_def)
  let ?c = "leaveStage (ae_stage e) Idle b"
  have "sameTabs ?c (setStage l e Idle ?c)"
    unfolding setStage_def
    by (rule sameTabs_put_stale [OF sameTabs_trans [OF ab sameTabs_leave] e]) simp_all
  then show "sameTabs b (setStage l e Idle ?c)" by (rule sameTabs_trans [OF sameTabs_leave])
qed

lemma sameTabs_clear:
  assumes "indexOk a"
  shows "sameTabs a (clearEarly t a)"
  unfolding clearEarly_def
proof (rule sameTabs_foldl [OF sameTabs_refl])
  fix b e assume "e \<in> set (forTerminal t a)" and ab: "sameTabs a b"
  then have "tabOf a (ae_localId e) = Some e" using forTerminal_set [OF assms] by blast
  from sameTabs_put_stale [OF ab this]
  show "sameTabs b (b\<lparr>ta_byLocal := js_put (ae_localId e) (e\<lparr>ae_early := []\<rparr>) (ta_byLocal b)\<rparr>)" by simp
qed

lemma sameTabs_buffer:
  assumes "indexOk a"
  shows "sameTabs a (bufferEarly t frame limit a)"
proof -
  have put: "sameTabs a (a\<lparr>ta_byLocal := js_put (ae_localId e) (e\<lparr>ae_early := xs\<rparr>) (ta_byLocal a)\<rparr>)"
    if "e \<in> set (forTerminal t a)" for e xs
    using that forTerminal_set [OF assms] by (intro sameTabs_put [of a _ e]) auto
  show ?thesis
  proof (cases "find (\<lambda>item. handshakeUnderWay (ae_stage item)) (forTerminal t a)")
    case None
    then show ?thesis
      using put by (cases "forTerminal t a") (simp_all add: bufferEarly_def Let_def)
  next
    case (Some e)
    then show ?thesis using put [of e] find_Some_in [OF Some] by (simp add: bufferEarly_def Let_def)
  qed
qed

lemma sameTabs_abandon: "sameTabs a (abandonAttach l t a)"
proof -
  have "sameTabs (applyEvent l EvAbandon a) (foldl (\<lambda>a entry. case ae_stage entry of
      CheckingIdentity _ _ \<Rightarrow> applyEvent (ae_localId entry) EvAbandon a
    | HandshakeSent _ \<Rightarrow> applyEvent (ae_localId entry) EvAbandon a | _ \<Rightarrow> a) (applyEvent l EvAbandon a) xs)" for xs
    by (rule sameTabs_foldl [OF sameTabs_refl]) (auto split: attachStage.splits intro: sameTabs_apply)
  then show ?thesis
    unfolding abandonAttach_def Let_def
    by (auto split: option.splits intro: sameTabs_apply sameTabs_trans [OF sameTabs_apply])
qed

lemma sameTabs_end: "sameTabs a (endAttachOf t a)"
  by (auto simp: endAttachOf_def split: option.splits intro: sameTabs_apply)

text \<open>The operations that change the index.\<close>

lemma unindex_byLocal [simp]: "ta_byLocal (attachUnindex t l a) = ta_byLocal a"
  by (simp add: attachUnindex_def Let_def split: option.splits)

lemma unindex_locals:
  "localsAt (attachUnindex t l a) t' = (if t' = t then filter (\<lambda>x. x \<noteq> l) (localsAt a t) else localsAt a t')"
  by (auto simp: attachUnindex_def localsAt_def Let_def split: option.splits)

lemma unindex_nonempty:
  "js_get (ta_byTerminal a) t' \<noteq> Some [] \<Longrightarrow> js_get (ta_byTerminal (attachUnindex t l a)) t' \<noteq> Some []"
  by (auto simp: attachUnindex_def Let_def split: option.splits)

lemma setTerminal_index:
  assumes "indexOk a" "t \<noteq> ''''"
  shows "indexOk (setTerminal l t a)"
proof (cases "tabOf a l")
  case None
  with assms show ?thesis by (simp add: setTerminal_def tabOf_def)
next
  case (Some e)
  note ok = indexOkD [OF assms(1)]
  show ?thesis
  proof (cases "ae_terminalId e = Some t")
    case True
    with Some assms show ?thesis by (simp add: setTerminal_def tabOf_def)
  next
    case False
    define a1 where "a1 = (case ae_terminalId e of None \<Rightarrow> a | Some old \<Rightarrow> attachUnindex old l a)"
    have a1: "setTerminal l t a = a1\<lparr>ta_byLocal := js_put l (e\<lparr>ae_terminalId := Some t\<rparr>) (ta_byLocal a),
        ta_byTerminal := js_put t (js_add l (localsAt a1 t)) (ta_byTerminal a1)\<rparr>"
      using False Some ok(5) [OF Some]
      by (auto simp: setTerminal_def a1_def tabOf_def localsAt_def Let_def split: option.splits)
    have loc1: "set (localsAt a1 t') = set (localsAt a t') - {l}" "distinct (localsAt a1 t')"
      "js_get (ta_byTerminal a1) t' \<noteq> Some []" for t'
      using ok(3) [of l] ok(4) Some assms(1) unindex_nonempty [of a t']
      by (auto simp: a1_def unindex_locals termOf_def indexOk_def split: option.splits if_splits)
    let ?b = "setTerminal l t a"
    have loc: "localsAt ?b t' = (if t' = t then js_add l (localsAt a1 t) else localsAt a1 t')" for t'
      unfolding a1 by (simp add: localsAt_def)
    have tab: "tabOf ?b l' = (if l' = l then Some (e\<lparr>ae_terminalId := Some t\<rparr>) else tabOf a l')" for l'
      unfolding a1 by (simp add: tabOf_def)
    show ?thesis
      unfolding indexOk_def
    proof (intro conjI allI impI)
      show "js_map_ok (ta_byLocal ?b)" unfolding a1 using ok(1) by (simp add: js_map_ok_put)
      show "distinct (localsAt ?b t')" for t' using loc loc1(2) by (simp add: distinct_js_add)
      show "js_get (ta_byTerminal ?b) t' \<noteq> Some []" for t'
        unfolding a1 using loc1(3) [of t'] by (auto simp: js_add_def)
      show "l' \<in> set (localsAt ?b t') \<longleftrightarrow> termOf ?b l' = Some t'" for t' l'
        using ok(3) loc1(1) by (auto simp: loc tab termOf_def split: if_splits)
    qed (use ok(2,5) Some assms(2) in \<open>auto simp: tab split: if_splits\<close>)
  qed
qed

lemma addTab_index:
  assumes "indexOk a"
  shows "indexOk (addTab l t ticket a)"
proof (cases "js_has (ta_byLocal a) l")
  case False
  let ?e = "\<lparr>ae_localId = l, ae_terminalId = None, ae_stage = Idle, ae_ticket = ticket, ae_early = []\<rparr>"
  let ?a = "a\<lparr>ta_byLocal := js_put l ?e (ta_byLocal a)\<rparr>"
  note ok = indexOkD [OF assms]
  have tab: "tabOf ?a l' = (if l' = l then Some ?e else tabOf a l')" for l' by (simp add: tabOf_def)
  have none: "tabOf a l = None" using False by (simp add: tabOf_def js_has_get)
  have "localsAt ?a = localsAt a" by (simp add: localsAt_def fun_eq_iff)
  then have "indexOk ?a"
    using assms none ok(3) unfolding indexOk_def tab
    by (auto simp: termOf_def tab js_map_ok_put)
  then show ?thesis
    using False by (auto simp: addTab_def Let_def setTerminal_index split: option.splits)
qed (use assms in \<open>simp add: addTab_def\<close>)

lemma deleteTab_index:
  assumes "indexOk a"
  shows "indexOk (deleteTab l a)"
proof (cases "tabOf a l")
  case None
  with assms show ?thesis by (simp add: deleteTab_def tabOf_def)
next
  case (Some e)
  note ok = indexOkD [OF assms]
  let ?b = "deleteTab l a"
  have byT: "ta_byTerminal (leaveStage p n x) = ta_byTerminal x" "ta_byLocal (leaveStage p n x) = ta_byLocal x" for p n x
    by (cases p, simp_all add: leaveStage_def Let_def)+
  have tab: "tabOf ?b l' = (if l' = l then None else tabOf a l')" "js_map_ok (ta_byLocal ?b)" for l'
    using Some ok(1) by (auto simp: deleteTab_def tabOf_def Let_def byT js_map_ok_del split: option.splits)
  have loc: "set (localsAt ?b t) = set (localsAt a t) - {l}" "distinct (localsAt ?b t)"
    "js_get (ta_byTerminal ?b) t \<noteq> Some []" for t
  proof -
    let ?a2 = "(leaveStage (ae_stage e) Idle a)\<lparr>ta_byLocal := js_del l (ta_byLocal a)\<rparr>"
    have b: "?b = (case ae_terminalId e of None \<Rightarrow> ?a2 | Some t \<Rightarrow> attachUnindex t l ?a2)"
      using Some ok(5) [OF Some] by (auto simp: deleteTab_def tabOf_def Let_def byT split: option.splits)
    have l2: "localsAt ?a2 t' = localsAt a t'" for t' by (simp add: localsAt_def byT)
    show "set (localsAt ?b t) = set (localsAt a t) - {l}" "distinct (localsAt ?b t)"
      "js_get (ta_byTerminal ?b) t \<noteq> Some []"
      using ok(3) [of l] ok(4) Some assms unindex_nonempty [of ?a2 t]
      by (auto simp: b unindex_locals l2 termOf_def indexOk_def byT split: option.splits if_splits)
  qed
  show ?thesis
    unfolding indexOk_def using tab loc ok(2,3,5) by (auto simp: termOf_def)
qed

lemma attachStep_index: "attachStep a new b \<Longrightarrow> indexOk a \<Longrightarrow> indexOk b"
proof (induction rule: attachStep.induct)
  case (at_name l t a)
  then show ?case by (simp add: mayName_def setTerminal_index)
qed (blast intro: addTab_index deleteTab_index sameTabs_index sameTabs_apply sameTabs_abandon
    sameTabs_end sameTabs_buffer sameTabs_clear sameTabs_dispose)+

lemma attachReach_index: "attachReach a acquired \<Longrightarrow> indexOk a"
proof (induction rule: attachReach.induct)
  case reach_init
  show ?case by (simp add: indexOk_def noAttachments_def tabOf_def localsAt_def termOf_def)
qed (rule attachStep_index)

subsection \<open>One tab holds a terminal\<close>

definition busyOn :: "attachments \<Rightarrow> ident \<Rightarrow> ident \<Rightarrow> bool" where
  "busyOn a l t \<longleftrightarrow>
     (\<exists>e. tabOf a l = Some e \<and> ae_terminalId e = Some t \<and> \<not> attachIdle (ae_stage e))"

definition exclusive :: "attachments \<Rightarrow> bool" where
  "exclusive a \<longleftrightarrow> (\<forall>t l l'. busyOn a l t \<longrightarrow> busyOn a l' t \<longrightarrow> l = l')"

definition calm :: "attachments \<Rightarrow> attachments \<Rightarrow> bool" where
  "calm a b \<longleftrightarrow> (\<forall>l t. busyOn b l t \<longrightarrow> busyOn a l t)"

lemma calm_refl [simp]: "calm a a"
  by (simp add: calm_def)

lemma calm_trans: "calm a b \<Longrightarrow> calm b c \<Longrightarrow> calm a c"
  by (simp add: calm_def)

lemma calm_exclusive: "calm a b \<Longrightarrow> exclusive a \<Longrightarrow> exclusive b"
  unfolding calm_def exclusive_def by blast

lemma transition_idle:
  "attachIdle stage \<Longrightarrow> (\<And>mode token. event \<noteq> EvCheck mode token) \<Longrightarrow>
   transitionAttach stage event = Some next \<Longrightarrow> attachIdle next"
  by (cases event; cases stage) (auto simp: toShared_def split: if_splits)

lemma tabOf_setStage:
  "tabOf (setStage l e stage a) l' = (if l' = l then Some (e\<lparr>ae_stage := stage\<rparr>) else tabOf a l')"
  by (simp add: setStage_def tabOf_def)

lemma tabOf_apply:
  "tabOf (applyEvent l event a) l' =
     (if l' = l then map_option (\<lambda>e. e\<lparr>ae_stage := js_nullish (transitionAttach (ae_stage e) event) (ae_stage e)\<rparr>) (tabOf a l)
      else tabOf a l')"
  by (auto simp: applyEvent_def tabOf_def [symmetric] tabOf_setStage split: option.splits)

lemma calm_apply:
  assumes "\<And>mode token. event \<noteq> EvCheck mode token"
  shows "calm a (applyEvent l event a)"
  unfolding calm_def busyOn_def tabOf_apply
  using transition_idle [OF _ assms]
  by (auto simp: js_nullish_def split: if_splits option.splits)

lemma calm_foldl: "(\<And>b x. x \<in> set xs \<Longrightarrow> calm a0 b \<Longrightarrow> calm a0 (f b x)) \<Longrightarrow> calm a0 a \<Longrightarrow> calm a0 (foldl f a xs)"
  by (induction xs arbitrary: a) auto

lemma calm_put:
  assumes "calm a b" "tabOf a l = Some e" "ae_terminalId e' = ae_terminalId e"
    "\<not> attachIdle (ae_stage e') \<Longrightarrow> ae_stage e' = ae_stage e"
  shows "calm a (b\<lparr>ta_byLocal := js_put l e' (ta_byLocal b)\<rparr>)"
  using assms unfolding calm_def busyOn_def by (auto simp: tabOf_def)

lemma calm_leave: "calm a b \<Longrightarrow> calm a (leaveStage p n b)"
  unfolding calm_def busyOn_def by simp

lemma calm_dispose:
  assumes "indexOk a"
  shows "calm a (disposeTabs a)"
  unfolding disposeTabs_def
proof (rule calm_foldl [OF _ calm_refl], clarify)
  fix b l e assume "(l, e) \<in> set (ta_byLocal a)" "calm a b"
  moreover from this have "tabOf a l = Some e" using indexOkD(1) [OF assms] by (simp add: tabOf_def)
  ultimately show "calm a (setStage l e Idle (leaveStage (ae_stage e) Idle b))"
    unfolding setStage_def by (intro calm_put calm_leave) auto
qed

lemma forTerminal_tab: "indexOk a \<Longrightarrow> e \<in> set (forTerminal t a) \<Longrightarrow> tabOf a (ae_localId e) = Some e"
  using forTerminal_set by blast

lemma calm_clear:
  assumes "indexOk a"
  shows "calm a (clearEarly t a)"
  unfolding clearEarly_def
  by (rule calm_foldl [OF _ calm_refl], rule calm_put, assumption, rule forTerminal_tab [OF assms]) simp_all

lemma calm_buffer:
  assumes "indexOk a"
  shows "calm a (bufferEarly t frame limit a)"
proof -
  have put: "calm a (a\<lparr>ta_byLocal := js_put (ae_localId e) (e\<lparr>ae_early := xs\<rparr>) (ta_byLocal a)\<rparr>)"
    if "e \<in> set (forTerminal t a)" for e xs
    by (rule calm_put [OF calm_refl forTerminal_tab [OF assms that]]) simp_all
  show ?thesis
  proof (cases "find (\<lambda>item. handshakeUnderWay (ae_stage item)) (forTerminal t a)")
    case None
    then show ?thesis
      using put by (cases "forTerminal t a") (simp_all add: bufferEarly_def Let_def)
  next
    case (Some e)
    then show ?thesis using put [of e] find_Some_in [OF Some] by (simp add: bufferEarly_def Let_def)
  qed
qed

lemma calm_abandon: "calm a (abandonAttach l t a)"
proof -
  have fold: "calm a (foldl (\<lambda>a entry. case ae_stage entry of
      CheckingIdentity _ _ \<Rightarrow> applyEvent (ae_localId entry) EvAbandon a
    | HandshakeSent _ \<Rightarrow> applyEvent (ae_localId entry) EvAbandon a | _ \<Rightarrow> a) (applyEvent l EvAbandon a) xs)"
    for xs :: "attachEntry list"
    by (rule calm_foldl) (auto split: attachStage.splits intro: calm_apply calm_trans [OF _ calm_apply])
  have "calm a (applyEvent l EvAbandon a)" by (rule calm_apply) simp
  with fold show ?thesis by (simp add: abandonAttach_def Let_def split: option.splits)
qed

lemma calm_end: "calm a (endAttachOf t a)"
  by (auto simp: endAttachOf_def split: option.splits intro: calm_apply)

lemma tabOf_delete: "tabOf (deleteTab l a) l' = (if l' = l then None else tabOf a l')"
proof (cases "tabOf a l")
  case (Some e)
  have "ta_byLocal (leaveStage p n x) = ta_byLocal x" for p n x
    by (cases p) (simp_all add: leaveStage_def Let_def)
  with Some show ?thesis by (auto simp: deleteTab_def tabOf_def Let_def split: option.splits)
qed (auto simp: deleteTab_def tabOf_def)

lemma tabOf_setTerminal:
  "tabOf (setTerminal l t a) l' =
     (if l' = l then map_option (\<lambda>e. e\<lparr>ae_terminalId := Some t\<rparr>) (tabOf a l) else tabOf a l')"
proof (cases "tabOf a l")
  case (Some e)
  then show ?thesis
    by (cases "ae_terminalId e = Some t") (auto simp: setTerminal_def tabOf_def Let_def split: option.splits)
qed (simp add: setTerminal_def tabOf_def)

lemma setTerminal_exclusive:
  assumes "exclusive a" "mayName l t a"
  shows "exclusive (setTerminal l t a)"
  using assms unfolding exclusive_def mayName_def busyOn_def tabOf_setTerminal
  by (auto split: if_splits)

lemma addTab_exclusive:
  assumes "exclusive a"
  shows "exclusive (addTab l t ticket a)"
proof (cases "js_has (ta_byLocal a) l")
  case False
  let ?e = "\<lparr>ae_localId = l, ae_terminalId = None, ae_stage = Idle, ae_ticket = ticket, ae_early = []\<rparr>"
  let ?a = "a\<lparr>ta_byLocal := js_put l ?e (ta_byLocal a)\<rparr>"
  have tab: "tabOf ?a l' = (if l' = l then Some ?e else tabOf a l')" for l' by (simp add: tabOf_def)
  have "exclusive ?a" using assms unfolding exclusive_def busyOn_def tab by auto
  moreover have "mayName l x ?a" if "x \<noteq> ''''" for x using that by (simp add: mayName_def tab)
  ultimately show ?thesis
    using False by (auto simp: addTab_def Let_def split: option.splits intro: setTerminal_exclusive)
qed (use assms in \<open>simp add: addTab_def\<close>)

lemma check_exclusive:
  assumes ok: "indexOk a" and ex: "exclusive a" and start: "mayStart l a"
  shows "exclusive (applyEvent l (EvCheck mode token) a)"
  unfolding exclusive_def
proof (intro allI impI)
  fix t l1 l2
  let ?b = "applyEvent l (EvCheck mode token) a"
  assume busy: "busyOn ?b l1 t" "busyOn ?b l2 t"
  have other: "l' = l" if b1: "busyOn ?b l t" and b2: "busyOn ?b l' t" for l'
  proof (rule ccontr)
    assume "l' \<noteq> l"
    obtain e where e: "tabOf a l = Some e" "ae_terminalId e = Some t"
      using b1 by (auto simp: busyOn_def tabOf_apply)
    obtain e' where e': "tabOf a l' = Some e'" "ae_terminalId e' = Some t" "\<not> attachIdle (ae_stage e')"
      using b2 \<open>l' \<noteq> l\<close> by (auto simp: busyOn_def tabOf_apply)
    have "e' \<in> set (forTerminal t a)" using forTerminal_set [OF ok] indexOkD(2) [OF ok e'(1)] e' by auto
    moreover have "canStartAttach l t a" using start e by (simp add: mayStart_def)
    ultimately show False using e'(3) e(1)
      by (auto simp: canStartAttach_def tabOf_def list_all_iff split: if_splits)
  qed
  have away: "busyOn a l' t" if "busyOn ?b l' t" "l' \<noteq> l" for l'
    using that by (auto simp: busyOn_def tabOf_apply)
  show "l1 = l2"
  proof (cases "l1 = l \<or> l2 = l")
    case True
    then show ?thesis using other busy by metis
  next
    case False
    then show ?thesis using away busy ex unfolding exclusive_def by metis
  qed
qed

lemma attachStep_exclusive:
  assumes "attachStep a new b" "indexOk a" "exclusive a"
  shows "exclusive b"
  using assms
proof (induction rule: attachStep.induct)
  case (at_delete a l)
  have "calm a (deleteTab l a)" by (auto simp: calm_def busyOn_def tabOf_delete)
  then show ?case using at_delete.prems(2) by (rule calm_exclusive)
qed (blast intro: addTab_exclusive setTerminal_exclusive check_exclusive calm_exclusive calm_apply
    calm_abandon calm_end calm_buffer calm_clear calm_dispose)+

subsection \<open>Every attach and every timer ends once\<close>

definition heldNow :: "attachments \<Rightarrow> (attachSession + nat) multiset" where
  "heldNow a = sum_list (map (\<lambda>(l, e). stageHolds (ae_stage e)) (ta_byLocal a))"

definition releasedSoFar :: "attachments \<Rightarrow> (attachSession + nat) multiset" where
  "releasedSoFar a = mset (map (\<lambda>(s, _). Inl s) (ta_retired a)) + mset (map Inr (ta_cleared a))"

definition ledger :: "attachments \<Rightarrow> (attachSession + nat) multiset" where
  "ledger a = heldNow a + releasedSoFar a"

lemma sum_list_put:
  fixes f :: "'k \<times> 'v \<Rightarrow> 'm::cancel_comm_monoid_add"
  assumes "js_map_ok m" "js_get m k = Some v"
  shows "sum_list (map f (js_put k v' m)) + f (k, v) = sum_list (map f m) + f (k, v')"
  using assms
proof (induction m)
  case (Cons kv m)
  obtain k0 v0 where kv: "kv = (k0, v0)" by (cases kv)
  show ?case
  proof (cases "k0 = k")
    case True
    with Cons.prems kv show ?thesis by (simp add: ac_simps)
  next
    case False
    with Cons kv have "sum_list (map f (js_put k v' m)) + f (k, v) = sum_list (map f m) + f (k, v')" by simp
    with False kv show ?thesis by (simp add: add.assoc)
  qed
qed simp

lemma sum_list_put_new:
  fixes f :: "'k \<times> 'v \<Rightarrow> 'm::cancel_comm_monoid_add"
  shows "js_get m k = None \<Longrightarrow> sum_list (map f (js_put k v' m)) = sum_list (map f m) + f (k, v')"
  by (induction m) (auto simp: ac_simps split: if_splits)

lemma sum_list_del:
  fixes f :: "'k \<times> 'v \<Rightarrow> 'm::cancel_comm_monoid_add"
  assumes "js_map_ok m" "js_get m k = Some v"
  shows "sum_list (map f (js_del k m)) + f (k, v) = sum_list (map f m)"
  using assms
proof (induction m)
  case (Cons kv m)
  obtain k0 v0 where kv: "kv = (k0, v0)" by (cases kv)
  show ?case
  proof (cases "k0 = k")
    case True
    with Cons.prems kv have "js_del k m = m" by (intro delete_id) auto
    with True Cons.prems kv show ?thesis by (simp add: ac_simps)
  next
    case False
    with Cons kv have "sum_list (map f (js_del k m)) + f (k, v) = sum_list (map f m)" by simp
    with False kv show ?thesis by (simp add: add.assoc)
  qed
qed simp

lemma released_leave: "releasedSoFar (leaveStage p n a) = releasedSoFar a + stageHolds p"
  by (cases p) (simp_all add: leaveStage_def releasedSoFar_def Let_def)

lemma held_leave: "heldNow (leaveStage p n a) = heldNow a"
  by (cases p) (simp_all add: leaveStage_def heldNow_def Let_def)

lemma byLocal_leave: "ta_byLocal (leaveStage p n a) = ta_byLocal a"
  by (cases p) (simp_all add: leaveStage_def Let_def)

lemma held_setStage:
  assumes "js_map_ok (ta_byLocal a)" "tabOf a l = Some x"
  shows "heldNow (setStage l e stage a) + stageHolds (ae_stage x) = heldNow a + stageHolds stage"
  using sum_list_put [OF assms(1) assms(2) [unfolded tabOf_def], of "\<lambda>(l, e). stageHolds (ae_stage e)" "e\<lparr>ae_stage := stage\<rparr>"]
  by (simp add: heldNow_def setStage_def)

lemma released_setStage [simp]: "releasedSoFar (setStage l e stage a) = releasedSoFar a"
  by (simp add: releasedSoFar_def setStage_def)

lemma ledger_leave_set:
  assumes "js_map_ok (ta_byLocal a)" "tabOf a l = Some x" "ae_stage x = ae_stage e"
  shows "ledger (setStage l e stage (leaveStage (ae_stage e) stage a)) = ledger a + stageHolds stage"
proof -
  let ?b = "leaveStage (ae_stage e) stage a"
  have "heldNow (setStage l e stage ?b) + stageHolds (ae_stage x) = heldNow a + stageHolds stage"
    using held_setStage [of ?b l x e stage] assms by (simp add: byLocal_leave held_leave)
  then show ?thesis
    by (simp add: ledger_def released_leave assms(3) ac_simps)
qed

lemma transition_holds:
  "transitionAttach stage event = Some next \<Longrightarrow> stageHolds next = eventAcquires event stage"
  "transitionAttach stage event = None \<Longrightarrow> eventAcquires event stage = {#}"
  by (cases event; cases stage; auto simp: eventAcquires_def toShared_def split: if_splits)+

lemma ledger_apply:
  assumes "indexOk a"
  shows "ledger (applyEvent l event a) = ledger a + tabAcquires l event a"
proof (cases "tabOf a l")
  case None
  then show ?thesis by (simp add: applyEvent_def tabAcquires_def tabOf_def)
next
  case (Some e)
  show ?thesis
  proof (cases "transitionAttach (ae_stage e) event")
    case None
    with Some transition_holds(2) [OF None] show ?thesis
      by (simp add: applyEvent_def tabAcquires_def tabOf_def)
  next
    fix next' assume n: "transitionAttach (ae_stage e) event = Some next'"
    have "applyEvent l event a = setStage l e next' (leaveStage (ae_stage e) next' a)"
      using Some n by (simp add: applyEvent_def tabOf_def)
    then show ?thesis
      using ledger_leave_set [OF indexOkD(1) [OF assms] Some refl] transition_holds(1) [OF n] Some
      by (simp add: tabAcquires_def)
  qed
qed

lemma tabAcquires_none:
  "(\<And>s. event \<noteq> EvEstablished s) \<Longrightarrow> (\<And>timer. event \<noteq> EvBackoff timer) \<Longrightarrow> tabAcquires l event a = {#}"
  by (cases event) (auto simp: tabAcquires_def eventAcquires_def split: option.splits)

lemma indexOk_apply: "indexOk a \<Longrightarrow> indexOk (applyEvent l event a)"
  by (rule sameTabs_index [OF sameTabs_apply])

lemma ledger_quiet:
  "indexOk a \<Longrightarrow> (\<And>s. event \<noteq> EvEstablished s) \<Longrightarrow> (\<And>timer. event \<noteq> EvBackoff timer) \<Longrightarrow>
   ledger (applyEvent l event a) = ledger a"
  by (simp add: ledger_apply tabAcquires_none)

lemma ledger_abandon:
  assumes "indexOk a"
  shows "ledger (abandonAttach l t a) = ledger a"
proof -
  have "ledger (foldl (\<lambda>a entry. case ae_stage entry of
      CheckingIdentity _ _ \<Rightarrow> applyEvent (ae_localId entry) EvAbandon a
    | HandshakeSent _ \<Rightarrow> applyEvent (ae_localId entry) EvAbandon a | _ \<Rightarrow> a) b xs) = ledger b"
    if "indexOk b" for b and xs :: "attachEntry list"
    using that
  proof (induction xs arbitrary: b)
    case (Cons x xs)
    have "indexOk (applyEvent (ae_localId x) EvAbandon b)" "ledger (applyEvent (ae_localId x) EvAbandon b) = ledger b"
      using Cons.prems by (simp_all add: indexOk_apply ledger_quiet)
    with Cons show ?case by (cases "ae_stage x") simp_all
  qed simp
  with assms show ?thesis
    by (simp add: abandonAttach_def Let_def indexOk_apply ledger_quiet split: option.splits)
qed

lemma ledger_put_same:
  assumes "js_map_ok (ta_byLocal a)" "tabOf a l = Some x" "ae_stage e = ae_stage x"
  shows "ledger (a\<lparr>ta_byLocal := js_put l e (ta_byLocal a)\<rparr>) = ledger a"
  using sum_list_put [OF assms(1) assms(2) [unfolded tabOf_def], of "\<lambda>(l, e). stageHolds (ae_stage e)" e] assms(3)
  by (simp add: ledger_def heldNow_def releasedSoFar_def)

lemma ledger_buffer:
  assumes "indexOk a"
  shows "ledger (bufferEarly t frame limit a) = ledger a"
proof -
  have put: "ledger (a\<lparr>ta_byLocal := js_put (ae_localId e) (e\<lparr>ae_early := xs\<rparr>) (ta_byLocal a)\<rparr>) = ledger a"
    if "e \<in> set (forTerminal t a)" for e xs
    by (rule ledger_put_same [OF indexOkD(1) [OF assms] forTerminal_tab [OF assms that]]) simp
  show ?thesis
  proof (cases "find (\<lambda>item. handshakeUnderWay (ae_stage item)) (forTerminal t a)")
    case None
    then show ?thesis
      using put by (cases "forTerminal t a") (simp_all add: bufferEarly_def Let_def)
  next
    case (Some e)
    then show ?thesis using put [of e] find_Some_in [OF Some] by (simp add: bufferEarly_def Let_def)
  qed
qed

lemma ledger_setTerminal:
  assumes "indexOk a"
  shows "ledger (setTerminal l t a) = ledger a"
proof (cases "tabOf a l")
  case (Some e)
  note put = ledger_put_same [OF indexOkD(1) [OF assms] Some, of "e\<lparr>ae_terminalId := Some t\<rparr>"]
  have un: "ta_retired (attachUnindex x l a) = ta_retired a" "ta_cleared (attachUnindex x l a) = ta_cleared a" for x
    by (simp_all add: attachUnindex_def Let_def split: option.splits)
  show ?thesis
    using Some put
    by (cases "ae_terminalId e = Some t")
      (auto simp: setTerminal_def tabOf_def Let_def ledger_def heldNow_def releasedSoFar_def un split: option.splits)
qed (simp add: setTerminal_def tabOf_def)

lemma ledger_add:
  assumes "indexOk a"
  shows "ledger (addTab l t ticket a) = ledger a"
proof (cases "js_has (ta_byLocal a) l")
  case False
  let ?e = "\<lparr>ae_localId = l, ae_terminalId = None, ae_stage = Idle, ae_ticket = ticket, ae_early = []\<rparr>"
  let ?a = "a\<lparr>ta_byLocal := js_put l ?e (ta_byLocal a)\<rparr>"
  have "js_get (ta_byLocal a) l = None" using False by (simp add: js_has_get)
  then have "ledger ?a = ledger a"
    by (simp add: ledger_def heldNow_def releasedSoFar_def sum_list_put_new)
  moreover have "indexOk ?a" using addTab_index [OF assms, of l None ticket] False by (simp add: addTab_def)
  ultimately show ?thesis
    using False by (auto simp: addTab_def Let_def ledger_setTerminal split: option.splits)
qed (simp add: addTab_def)

lemma ledger_delete:
  assumes "indexOk a"
  shows "ledger (deleteTab l a) = ledger a"
proof (cases "tabOf a l")
  case (Some e)
  have un: "ta_retired (attachUnindex x l b) = ta_retired b" "ta_cleared (attachUnindex x l b) = ta_cleared b" for x b
    by (simp_all add: attachUnindex_def Let_def split: option.splits)
  let ?b = "leaveStage (ae_stage e) Idle a"
  have "heldNow (deleteTab l a) = sum_list (map (\<lambda>(l, e). stageHolds (ae_stage e)) (js_del l (ta_byLocal a)))"
    using Some by (auto simp: deleteTab_def tabOf_def Let_def heldNow_def byLocal_leave split: option.splits)
  then have "heldNow (deleteTab l a) + stageHolds (ae_stage e) = heldNow a"
    using sum_list_del [OF indexOkD(1) [OF assms] Some [unfolded tabOf_def], of "\<lambda>(l, e). stageHolds (ae_stage e)"]
    by (simp add: heldNow_def)
  moreover have "releasedSoFar (deleteTab l a) = releasedSoFar ?b"
    using Some by (auto simp: deleteTab_def tabOf_def Let_def releasedSoFar_def un split: option.splits)
  ultimately show ?thesis by (simp add: ledger_def released_leave ac_simps)
qed (simp add: deleteTab_def tabOf_def)

lemma ledger_clear:
  assumes "indexOk a"
  shows "ledger (clearEarly t a) = ledger a"
proof -
  let ?f = "\<lambda>a entry. a\<lparr>ta_byLocal := js_put (ae_localId entry) (entry\<lparr>ae_early := []\<rparr>) (ta_byLocal a)\<rparr>"
  have "ledger (foldl ?f b xs) = ledger b"
    if "js_map_ok (ta_byLocal b)" "\<forall>e \<in> set xs. \<exists>x. tabOf b (ae_localId e) = Some x \<and> ae_stage x = ae_stage e"
    for b :: attachments and xs :: "attachEntry list"
    using that
  proof (induction xs arbitrary: b)
    case (Cons e xs)
    obtain x where x: "tabOf b (ae_localId e) = Some x" "ae_stage x = ae_stage e" using Cons.prems(2) by auto
    have "ledger (?f b e) = ledger b"
      by (rule ledger_put_same [OF Cons.prems(1) x(1)]) (simp add: x(2))
    moreover have "\<forall>e' \<in> set xs. \<exists>x. tabOf (?f b e) (ae_localId e') = Some x \<and> ae_stage x = ae_stage e'"
      using Cons.prems(2) x by (auto simp: tabOf_def)
    moreover have "js_map_ok (ta_byLocal (?f b e))" using Cons.prems(1) by (simp add: js_map_ok_put)
    ultimately show ?case using Cons.IH [of "?f b e"] by simp
  qed simp
  from this [OF indexOkD(1) [OF assms]] show ?thesis
    unfolding clearEarly_def using forTerminal_tab [OF assms] by blast
qed

lemma ledger_dispose:
  assumes "indexOk a"
  shows "ledger (disposeTabs a) = ledger a"
proof -
  let ?f = "\<lambda>a (l, e). setStage l e Idle (leaveStage (ae_stage e) Idle a)"
  have "ledger (foldl ?f b xs) = ledger b"
    if "js_map_ok (ta_byLocal b)" "distinct (map fst xs)" "\<forall>(l, e) \<in> set xs. tabOf b l = Some e"
    for b :: attachments and xs :: "(ident \<times> attachEntry) list"
    using that
  proof (induction xs arbitrary: b)
    case (Cons le xs)
    obtain l e where le: "le = (l, e)" by (cases le)
    have e: "tabOf b l = Some e" using Cons.prems(3) le by simp
    have "ledger (?f b le) = ledger b"
      using ledger_leave_set [OF Cons.prems(1) e refl, of Idle] le by simp
    moreover have "\<forall>(l', e') \<in> set xs. tabOf (?f b le) l' = Some e'"
      using Cons.prems(2,3) le by (force simp: tabOf_setStage)
    moreover have "js_map_ok (ta_byLocal (?f b le))"
      using Cons.prems(1) le by (simp add: setStage_def byLocal_leave js_map_ok_put)
    ultimately show ?case using Cons.IH [of "?f b le"] Cons.prems(2) le by simp
  qed simp
  from this [OF indexOkD(1) [OF assms] indexOkD(1) [OF assms]] show ?thesis
    unfolding disposeTabs_def using indexOkD(1) [OF assms] by (simp add: tabOf_def case_prod_beta')
qed

lemma attachStep_ledger:
  assumes "attachStep a new b" "indexOk a"
  shows "ledger b = ledger a + new"
  using assms
  by (induction rule: attachStep.induct)
    (auto simp: ledger_add ledger_setTerminal ledger_quiet ledger_apply ledger_abandon ledger_buffer
      ledger_clear ledger_delete ledger_dispose endAttachOf_def split: option.splits)

subsection \<open>Properties of the attach collection\<close>

text \<open>
  C16: in every collection the page reaches, the index by terminal id lists exactly the tabs that
  show the terminal, each once, with no empty entry left behind; so the entries found for a
  terminal are exactly its tabs.
\<close>

theorem attach_index_complete:
  assumes "attachReach a acquired"
  shows "set (forTerminal t a) = {e. tabOf a (ae_localId e) = Some e \<and> ae_terminalId e = Some t} \<and>
    distinct (localsAt a t) \<and> js_get (ta_byTerminal a) t \<noteq> Some []"
proof -
  have ok: "indexOk a" using assms by (rule attachReach_index)
  then show ?thesis using forTerminal_set [OF ok] by (simp add: indexOk_def)
qed

text \<open>
  C17: no two tabs ever hold the same terminal: at most one tab that shows a terminal has a handshake
  under way or a session, as long as attaches start only where \<open>canStartAttach\<close> allows them.
\<close>

theorem attach_exclusive:
  assumes "attachReach a acquired" "busyOn a l t" "busyOn a l' t"
  shows "l = l'"
proof -
  have "exclusive a"
    using assms(1)
  proof (induction rule: attachReach.induct)
    case reach_init
    show ?case by (simp add: exclusive_def busyOn_def noAttachments_def tabOf_def)
  next
    case (reach_step a acquired new b)
    then show ?case using attachStep_exclusive attachReach_index by blast
  qed
  with assms(2,3) show ?thesis unfolding exclusive_def by blast
qed

text \<open>
  C15: every session that was established is either live in exactly one tab or its attach has been
  ended, exactly once; and every backoff timer that was set is either pending in exactly one tab or
  has been cleared, exactly once. Nothing leaks when tabs are deleted or the page goes away.
\<close>

theorem attach_ledger_balanced:
  assumes "attachReach a acquired"
  shows "heldNow a + releasedSoFar a = acquired"
  using assms
proof (induction rule: attachReach.induct)
  case reach_init
  show ?case by (simp add: heldNow_def releasedSoFar_def noAttachments_def)
next
  case (reach_step a acquired new b)
  then show ?case using attachStep_ledger attachReach_index unfolding ledger_def by metis
qed

text \<open>A page that opens a terminal, gets a session, and closes the tab.\<close>

definition demoSession :: attachSession where
  "demoSession = \<lparr>at_sessionId = 7, at_terminalId = ''term''\<rparr>"

definition demoHandshake :: attachHandshake where
  "demoHandshake = \<lparr>ah_localId = ''tab'', ah_terminalId = Some ''term''\<rparr>"

definition demoEvents :: "attachEvent list" where
  "demoEvents = [EvHandshakeSent demoHandshake, EvEstablishing, EvEstablished demoSession]"

definition demoTabs :: attachments where
  "demoTabs = applyEvent ''tab'' (EvCheck ModeAttach 0) (addTab ''tab'' (Some ''term'') None noAttachments)"

definition demoLive :: attachments where
  "demoLive = foldl (\<lambda>a event. applyEvent ''tab'' event a) demoTabs demoEvents"

lemma demoTabs_reach: "attachReach demoTabs {#}"
proof -
  have "attachReach (addTab ''tab'' (Some ''term'') None noAttachments) ({#} + {#})"
    by (rule reach_step [OF reach_init at_add])
  moreover have "mayStart ''tab'' (addTab ''tab'' (Some ''term'') None noAttachments)"
    by (simp add: mayStart_def addTab_def noAttachments_def setTerminal_def tabOf_def canStartAttach_def
        forTerminal_def map_filter_simps js_add_def)
  ultimately have "attachReach demoTabs ({#} + {#} + {#})"
    unfolding demoTabs_def by (rule reach_step [OF _ at_check])
  then show ?thesis by simp
qed

lemma demoTabs_tab:
  "tabOf demoTabs ''tab'' = Some \<lparr>ae_localId = ''tab'', ae_terminalId = Some ''term'',
     ae_stage = CheckingIdentity ModeAttach 0, ae_ticket = None, ae_early = []\<rparr>"
  unfolding demoTabs_def tabOf_apply by (simp add: tabOf_def addTab_def noAttachments_def setTerminal_def)

lemma demoLive_reach: "attachReach demoLive {#Inl demoSession#}"
proof -
  have step: "attachReach (applyEvent l event a) (M + tabAcquires l event a)"
    if "attachReach a M" "\<And>mode token. event \<noteq> EvCheck mode token" for a M l event
    using that by (blast intro: reach_step at_event)
  let ?a1 = "applyEvent ''tab'' (EvHandshakeSent demoHandshake) demoTabs"
  let ?a2 = "applyEvent ''tab'' EvEstablishing ?a1"
  have "attachReach ?a1 {#}" using step [OF demoTabs_reach, of "EvHandshakeSent demoHandshake" "''tab''"]
    by (simp add: tabAcquires_none)
  then have a2: "attachReach ?a2 {#}" using step [of ?a1 "{#}" EvEstablishing "''tab''"] by (simp add: tabAcquires_none)
  have "tabAcquires ''tab'' (EvEstablished demoSession) ?a2 = {#Inl demoSession#}"
    by (simp add: tabAcquires_def eventAcquires_def tabOf_apply demoTabs_tab)
  then show ?thesis
    using step [OF a2, of "EvEstablished demoSession" "''tab''"] by (simp add: demoLive_def demoEvents_def)
qed

theorem attach_index_complete_witness:
  "set (forTerminal ''term'' demoLive) =
     {e. tabOf demoLive (ae_localId e) = Some e \<and> ae_terminalId e = Some ''term''}"
  using attach_index_complete [OF demoLive_reach] by blast

lemma demoLive_busy: "busyOn demoLive ''tab'' ''term''"
  by (simp add: busyOn_def demoLive_def demoEvents_def tabOf_apply demoTabs_tab)

theorem attach_exclusive_witness: "\<not> (\<exists>l. l \<noteq> ''tab'' \<and> busyOn demoLive l ''term'')"
  using attach_exclusive [OF demoLive_reach demoLive_busy] by blast

theorem attach_ledger_balanced_witness:
  "heldNow (deleteTab ''tab'' demoLive) + releasedSoFar (deleteTab ''tab'' demoLive) = {#Inl demoSession#}"
  using attach_ledger_balanced [OF reach_step [OF demoLive_reach at_delete]] by simp

end
