(* ===== verification/SerialTask.thy ===== *)
theory SerialTask
  imports Wmp_Prelude "HOL-Library.Multiset"
begin

text \<open>
  The single-flight background task (\<^verbatim>\<open>apps/server/src/serial-task.ts\<close>).

  The code runs on one event loop, so its synchronous stretches are the steps of the model: the
  calls \<open>trigger\<close>, \<open>runOnce\<close>, \<open>start\<close> and \<open>stop\<close>, a timer that fires, an interval tick, and the
  end of a pass (the code after \<^verbatim>\<open>await options.run()\<close>). \<open>beginPass\<close> is the head of the
  \<^verbatim>\<open>for (;;)\<close> loop up to that \<^verbatim>\<open>await\<close>. Timers, promises and callers carry ids;
  \<open>sk_loops\<close> counts the activations of \<^verbatim>\<open>loop()\<close> that have not returned.
\<close>

subsection \<open>State\<close>

datatype taskState =
    TaskIdle "nat option"
  | TaskScheduled nat
  | TaskRunning
  | TaskRunningRerun
  | TaskStopped

datatype timerKind = TimerSchedule | TimerNext

record probe =
  pr_after :: nat
  pr_caller :: nat

record serialOptions =
  so_overlapRerun :: bool
  so_minIntervalMs :: "int option"
  so_hasInterval :: bool

record serialTask =
  sk_state :: taskState
  sk_lastStartMs :: "int option"
  sk_started :: bool
  sk_interval :: bool
  sk_inPass :: bool
  sk_passes :: nat
  sk_probes :: "probe list"
  sk_busy :: "nat option"
  sk_timers :: "(nat, timerKind \<times> int) js_map"
  sk_fresh :: nat
  sk_resolved :: "nat list"
  sk_settled :: "(probe \<times> nat \<times> bool) list"
  sk_loops :: nat

definition createSerialTask :: serialTask where
  "createSerialTask =
     \<lparr>sk_state = TaskIdle None, sk_lastStartMs = None, sk_started = False, sk_interval = False,
      sk_inPass = False, sk_passes = 0, sk_probes = [], sk_busy = None, sk_timers = [], sk_fresh = 0,
      sk_resolved = [], sk_settled = [], sk_loops = 0\<rparr>"

subsection \<open>Operations\<close>

definition openBusy :: "serialTask \<Rightarrow> serialTask" where
  "openBusy t =
     (case sk_busy t of
        Some _ \<Rightarrow> t
      | None \<Rightarrow> t\<lparr>sk_busy := Some (sk_fresh t), sk_fresh := sk_fresh t + 1\<rparr>)"

definition closeBusy :: "serialTask \<Rightarrow> serialTask" where
  "closeBusy t =
     (case sk_busy t of
        None \<Rightarrow> t
      | Some current \<Rightarrow> t\<lparr>sk_busy := None, sk_resolved := sk_resolved t @ [current]\<rparr>)"

definition clearTimer :: "nat \<Rightarrow> serialTask \<Rightarrow> serialTask" where
  "clearTimer timer t = t\<lparr>sk_timers := js_del timer (sk_timers t)\<rparr>"

definition schedulePass :: "serialOptions \<Rightarrow> int \<Rightarrow> serialTask \<Rightarrow> serialTask" where
  "schedulePass opts now t =
     (let gapMs = js_nullish (so_minIntervalMs opts) 0;
          waitMs = (case sk_lastStartMs t of None \<Rightarrow> 0 | Some began \<Rightarrow> max 0 (began + gapMs - now));
          timer = sk_fresh t
      in t\<lparr>sk_fresh := timer + 1,
           sk_timers := js_put timer (TimerSchedule, now + waitMs) (sk_timers t),
           sk_state := TaskScheduled timer\<rparr>)"

text \<open>\<^verbatim>\<open>{ phase: "idle", next: armNext() }\<close>, with the answer of \<^verbatim>\<open>nextPassMs\<close>.\<close>

definition idleArmed :: "int option \<Rightarrow> int \<Rightarrow> serialTask \<Rightarrow> serialTask" where
  "idleArmed nextPassMs now t =
     (case nextPassMs of
        None \<Rightarrow> t\<lparr>sk_state := TaskIdle None\<rparr>
      | Some ms \<Rightarrow>
          t\<lparr>sk_fresh := sk_fresh t + 1,
            sk_timers := js_put (sk_fresh t) (TimerNext, now + ms) (sk_timers t),
            sk_state := TaskIdle (Some (sk_fresh t))\<rparr>)"

definition settleProbes :: "nat \<Rightarrow> bool \<Rightarrow> serialTask \<Rightarrow> serialTask" where
  "settleProbes pass ok t =
     t\<lparr>sk_probes := filter (\<lambda>p. pr_after p \<ge> pass) (sk_probes t),
       sk_settled := sk_settled t @ map (\<lambda>p. (p, pass, ok)) (rev (filter (\<lambda>p. \<not> pr_after p \<ge> pass) (sk_probes t)))\<rparr>"

definition beginPass :: "int \<Rightarrow> serialTask \<Rightarrow> serialTask" where
  "beginPass now t =
     t\<lparr>sk_state := (if sk_state t \<noteq> TaskStopped then TaskRunning else TaskStopped),
       sk_inPass := True, sk_passes := sk_passes t + 1, sk_lastStartMs := Some now\<rparr>"

definition enterLoop :: "int \<Rightarrow> serialTask \<Rightarrow> serialTask" where
  "enterLoop now t = beginPass now (t\<lparr>sk_loops := sk_loops t + 1\<rparr>)"

definition leaveLoop :: "serialTask \<Rightarrow> serialTask" where
  "leaveLoop t = t\<lparr>sk_loops := sk_loops t - 1\<rparr>"

definition endPass :: "serialOptions \<Rightarrow> bool \<Rightarrow> int option \<Rightarrow> int \<Rightarrow> serialTask \<Rightarrow> serialTask" where
  "endPass opts ok nextPassMs now t =
     (let t1 = settleProbes (sk_passes t) ok (t\<lparr>sk_inPass := False\<rparr>)
      in if sk_state t1 = TaskStopped then
           (if sk_probes t1 \<noteq> [] then beginPass now t1 else leaveLoop (closeBusy t1))
         else if sk_state t1 = TaskRunningRerun \<or> sk_probes t1 \<noteq> [] then
           (if so_minIntervalMs opts \<noteq> None then leaveLoop (schedulePass opts now t1)
            else beginPass now t1)
         else leaveLoop (closeBusy (idleArmed nextPassMs now t1)))"

definition triggerTask :: "serialOptions \<Rightarrow> int \<Rightarrow> serialTask \<Rightarrow> serialTask" where
  "triggerTask opts now t =
     (case sk_state t of
        TaskStopped \<Rightarrow> t
      | TaskScheduled _ \<Rightarrow> openBusy t
      | TaskRunningRerun \<Rightarrow> openBusy t
      | TaskRunning \<Rightarrow>
          openBusy (if so_overlapRerun opts then t\<lparr>sk_state := TaskRunningRerun\<rparr> else t)
      | TaskIdle armed \<Rightarrow>
          let t1 = (case armed of None \<Rightarrow> t | Some timer \<Rightarrow> clearTimer timer t);
              t2 = openBusy (t1\<lparr>sk_state := TaskIdle None\<rparr>)
          in if so_minIntervalMs opts \<noteq> None then schedulePass opts now t2 else enterLoop now t2)"

definition runOnce :: "serialOptions \<Rightarrow> int \<Rightarrow> serialTask \<Rightarrow> serialTask" where
  "runOnce opts now t =
     (let t1 = t\<lparr>sk_probes := sk_probes t @ [\<lparr>pr_after = sk_passes t, pr_caller = sk_fresh t\<rparr>],
                 sk_fresh := sk_fresh t + 1\<rparr>
      in case sk_state t1 of
           TaskIdle _ \<Rightarrow> triggerTask opts now t1
         | TaskStopped \<Rightarrow> if \<not> sk_inPass t1 then enterLoop now (openBusy t1) else t1
         | _ \<Rightarrow> t1)"

definition startTask :: "serialOptions \<Rightarrow> int \<Rightarrow> serialTask \<Rightarrow> serialTask" where
  "startTask opts now t =
     (if sk_state t = TaskStopped \<or> sk_started t then t
      else triggerTask opts now
             (t\<lparr>sk_started := True, sk_interval := (so_hasInterval opts \<or> sk_interval t)\<rparr>))"

definition stopTask :: "int \<Rightarrow> serialTask \<Rightarrow> serialTask" where
  "stopTask now t =
     (let t1 = t\<lparr>sk_interval := False\<rparr>;
          wasScheduled = (case sk_state t1 of TaskScheduled _ \<Rightarrow> True | _ \<Rightarrow> False);
          t2 = (case sk_state t1 of
                  TaskScheduled timer \<Rightarrow> clearTimer timer t1
                | TaskIdle (Some timer) \<Rightarrow> clearTimer timer t1
                | _ \<Rightarrow> t1);
          t3 = t2\<lparr>sk_state := TaskStopped\<rparr>
      in if sk_inPass t3 then t3
         else if wasScheduled \<and> sk_probes t3 \<noteq> [] then enterLoop now t3
         else closeBusy t3)"

definition fireTimer :: "serialOptions \<Rightarrow> nat \<Rightarrow> int \<Rightarrow> serialTask \<Rightarrow> serialTask" where
  "fireTimer opts timer now t =
     (case js_get (sk_timers t) timer of
        None \<Rightarrow> t
      | Some (kind, _) \<Rightarrow>
          let t1 = clearTimer timer t
          in case kind of
               TimerSchedule \<Rightarrow> if sk_state t1 = TaskScheduled timer then enterLoop now t1 else t1
             | TimerNext \<Rightarrow>
                 if sk_state t1 = TaskIdle (Some timer)
                 then triggerTask opts now (t1\<lparr>sk_state := TaskIdle None\<rparr>) else t1)"

subsection \<open>Steps\<close>

text \<open>A timer never fires before it is due.\<close>

inductive serialStep :: "serialOptions \<Rightarrow> int \<Rightarrow> serialTask \<Rightarrow> serialTask \<Rightarrow> bool"
  for opts now where
    ss_trigger: "serialStep opts now t (triggerTask opts now t)"
  | ss_runOnce: "serialStep opts now t (runOnce opts now t)"
  | ss_start: "serialStep opts now t (startTask opts now t)"
  | ss_stop: "serialStep opts now t (stopTask now t)"
  | ss_tick: "sk_interval t \<Longrightarrow> serialStep opts now t (triggerTask opts now t)"
  | ss_fire: "js_get (sk_timers t) timer = Some (kind, due) \<Longrightarrow> due \<le> now \<Longrightarrow>
      serialStep opts now t (fireTimer opts timer now t)"
  | ss_pass_end: "0 < sk_loops t \<Longrightarrow> serialStep opts now t (endPass opts ok nextPassMs now t)"

inductive serialReach :: "serialOptions \<Rightarrow> serialTask \<Rightarrow> bool" for opts where
    sr_init: "serialReach opts createSerialTask"
  | sr_step: "serialReach opts t \<Longrightarrow> serialStep opts now t t' \<Longrightarrow> serialReach opts t'"

subsection \<open>Invariant\<close>

definition pendingPass :: "serialTask \<Rightarrow> bool" where
  "pendingPass t \<longleftrightarrow> sk_inPass t \<or>
     (\<exists>timer due. sk_state t = TaskScheduled timer \<and> js_get (sk_timers t) timer = Some (TimerSchedule, due))"

definition serialOk :: "serialOptions \<Rightarrow> serialTask \<Rightarrow> bool" where
  "serialOk opts t \<longleftrightarrow>
     sk_loops t = (if sk_inPass t then 1 else 0) \<and>
     (case sk_state t of
        TaskIdle _ \<Rightarrow> \<not> sk_inPass t \<and> sk_busy t = None \<and> sk_probes t = []
      | TaskScheduled timer \<Rightarrow>
          \<not> sk_inPass t \<and> sk_busy t \<noteq> None \<and>
          (\<exists>due. js_get (sk_timers t) timer = Some (TimerSchedule, due) \<and>
             (\<forall>began. sk_lastStartMs t = Some began \<longrightarrow> began + js_nullish (so_minIntervalMs opts) 0 \<le> due))
      | TaskRunning \<Rightarrow> sk_inPass t \<and> sk_busy t \<noteq> None
      | TaskRunningRerun \<Rightarrow> sk_inPass t \<and> sk_busy t \<noteq> None
      | TaskStopped \<Rightarrow> if sk_inPass t then sk_busy t \<noteq> None else sk_busy t = None \<and> sk_probes t = []) \<and>
     (\<forall>p \<in> set (sk_probes t). pr_after p \<le> sk_passes t) \<and>
     (\<forall>(p, pass, ok) \<in> set (sk_settled t). pr_after p < pass \<and> pass \<le> sk_passes t)"

text \<open>Every caller of \<open>runOnce\<close>: those already settled, then those waiting.\<close>

definition callers :: "serialTask \<Rightarrow> probe list" where
  "callers t = map fst (sk_settled t) @ sk_probes t"

definition callersOk :: "serialTask \<Rightarrow> bool" where
  "callersOk t \<longleftrightarrow>
     distinct (map pr_caller (callers t)) \<and> (\<forall>p \<in> set (callers t). pr_caller p < sk_fresh t)"

lemmas serial_defs = openBusy_def closeBusy_def clearTimer_def schedulePass_def idleArmed_def
  settleProbes_def beginPass_def enterLoop_def leaveLoop_def Let_def

subsection \<open>The invariant is kept\<close>

lemma serialOk_create: "serialOk opts createSerialTask"
  by (simp add: serialOk_def createSerialTask_def)

lemma serialOk_trigger: "serialOk opts t \<Longrightarrow> serialOk opts (triggerTask opts now t)"
  by (cases "sk_state t")
     (auto simp: serialOk_def triggerTask_def serial_defs split: option.splits)

lemma serialOk_runOnce: "serialOk opts t \<Longrightarrow> serialOk opts (runOnce opts now t)"
  by (cases "sk_state t"; cases "sk_inPass t")
     (auto simp: serialOk_def runOnce_def triggerTask_def serial_defs split: option.splits)

lemma serialOk_start: "serialOk opts t \<Longrightarrow> serialOk opts (startTask opts now t)"
proof -
  assume ok: "serialOk opts t"
  have "serialOk opts (t\<lparr>sk_started := True, sk_interval := b\<rparr>)" for b
    using ok by (auto simp: serialOk_def split: taskState.splits)
  then show ?thesis using ok by (simp add: startTask_def serialOk_trigger)
qed

lemma serialOk_stop: "serialOk opts t \<Longrightarrow> serialOk opts (stopTask now t)"
  by (cases "sk_state t"; cases "sk_inPass t")
     (auto simp: serialOk_def stopTask_def serial_defs split: option.splits)

lemma serialOk_fire: "serialOk opts t \<Longrightarrow> serialOk opts (fireTimer opts timer now t)"
  by (cases "sk_state t")
     (auto simp: serialOk_def fireTimer_def triggerTask_def serial_defs
        split: option.splits timerKind.splits)

lemma serialOk_endPass:
  assumes "serialOk opts t" "0 < sk_loops t"
  shows "serialOk opts (endPass opts ok nextPassMs now t)"
proof -
  have running: "sk_inPass t" using assms by (auto simp: serialOk_def split: if_splits)
  show ?thesis
    by (cases "sk_state t")
       (use assms running in \<open>auto simp: serialOk_def endPass_def serial_defs split: option.splits\<close>)
qed

lemma serialStep_ok: "serialStep opts now t t' \<Longrightarrow> serialOk opts t \<Longrightarrow> serialOk opts t'"
  by (induction rule: serialStep.induct)
     (simp_all add: serialOk_trigger serialOk_runOnce serialOk_start serialOk_stop serialOk_fire
        serialOk_endPass)

lemma serialReach_ok: "serialReach opts t \<Longrightarrow> serialOk opts t"
  by (induction rule: serialReach.induct) (auto intro: serialOk_create serialStep_ok)

subsection \<open>Callers of runOnce\<close>

lemma callersOk_mono:
  "mset (callers t') = mset (callers t) \<Longrightarrow> sk_fresh t \<le> sk_fresh t' \<Longrightarrow> callersOk t \<Longrightarrow> callersOk t'"
  unfolding callersOk_def
  by (metis distinct_map inj_on_def less_le_trans mset_eq_imp_distinct_iff mset_eq_setD mset_map)

lemma callersOk_cong:
  "sk_probes t' = sk_probes t \<Longrightarrow> sk_settled t' = sk_settled t \<Longrightarrow> sk_fresh t \<le> sk_fresh t' \<Longrightarrow>
   callersOk t \<Longrightarrow> callersOk t'"
  by (rule callersOk_mono) (simp_all add: callers_def)

lemma triggerTask_frame:
  "sk_probes (triggerTask opts now t) = sk_probes t"
  "sk_settled (triggerTask opts now t) = sk_settled t"
  "sk_fresh t \<le> sk_fresh (triggerTask opts now t)"
  by (auto simp: triggerTask_def serial_defs split: taskState.splits option.splits)

lemma startTask_frame:
  "sk_probes (startTask opts now t) = sk_probes t"
  "sk_settled (startTask opts now t) = sk_settled t"
  "sk_fresh t \<le> sk_fresh (startTask opts now t)"
  using triggerTask_frame(3)[of "t\<lparr>sk_started := True, sk_interval := (so_hasInterval opts \<or> sk_interval t)\<rparr>" opts now]
  by (auto simp: startTask_def triggerTask_frame)

lemma stopTask_frame:
  "sk_probes (stopTask now t) = sk_probes t"
  "sk_settled (stopTask now t) = sk_settled t"
  "sk_fresh t \<le> sk_fresh (stopTask now t)"
  by (auto simp: stopTask_def serial_defs split: taskState.splits option.splits)

lemma fireTimer_frame:
  "sk_probes (fireTimer opts timer now t) = sk_probes t"
  "sk_settled (fireTimer opts timer now t) = sk_settled t"
  "sk_fresh t \<le> sk_fresh (fireTimer opts timer now t)"
  using triggerTask_frame(3)[of "(clearTimer timer t)\<lparr>sk_state := TaskIdle None\<rparr>" opts now]
  by (auto simp: fireTimer_def triggerTask_frame serial_defs split: option.splits timerKind.splits)

lemma endPass_frame:
  "sk_probes (endPass opts ok nextPassMs now t) = sk_probes (settleProbes (sk_passes t) ok t)"
  "sk_settled (endPass opts ok nextPassMs now t) = sk_settled (settleProbes (sk_passes t) ok t)"
  "sk_fresh (settleProbes (sk_passes t) ok t) \<le> sk_fresh (endPass opts ok nextPassMs now t)"
  by (auto simp: endPass_def serial_defs split: taskState.splits option.splits)

lemma mset_filter_both: "mset (filter P xs) + mset (filter (\<lambda>x. \<not> P x) xs) = mset xs"
  by (induction xs) auto

lemma callersOk_settle: "callersOk t \<Longrightarrow> callersOk (settleProbes pass ok t)"
  by (rule callersOk_mono)
     (simp_all add: callers_def settleProbes_def comp_def add.commute mset_filter_both
        flip: mset_filter)

lemma callersOk_runOnce: "callersOk t \<Longrightarrow> callersOk (runOnce opts now t)"
proof -
  assume ok: "callersOk t"
  let ?t1 = "t\<lparr>sk_probes := sk_probes t @ [\<lparr>pr_after = sk_passes t, pr_caller = sk_fresh t\<rparr>],
                 sk_fresh := sk_fresh t + 1\<rparr>"
  have "callersOk ?t1"
  proof -
    have new: "callers ?t1 = callers t @ [\<lparr>pr_after = sk_passes t, pr_caller = sk_fresh t\<rparr>]"
      by (simp add: callers_def)
    have "sk_fresh t \<notin> pr_caller ` set (callers t)" using ok by (auto simp: callersOk_def)
    then show ?thesis using ok unfolding callersOk_def new by (auto simp: less_Suc_eq)
  qed
  moreover have "sk_probes (runOnce opts now t) = sk_probes ?t1"
    "sk_settled (runOnce opts now t) = sk_settled ?t1" "sk_fresh ?t1 \<le> sk_fresh (runOnce opts now t)"
    using triggerTask_frame[where opts = opts and now = now and t = ?t1]
    by (auto simp: runOnce_def serial_defs split: taskState.splits option.splits)
  ultimately show ?thesis by (blast intro: callersOk_cong)
qed

lemma serialStep_callersOk: "serialStep opts now t t' \<Longrightarrow> callersOk t \<Longrightarrow> callersOk t'"
proof (induction rule: serialStep.induct)
  case (ss_pass_end t ok nextPassMs)
  show ?case
    by (rule callersOk_cong[OF endPass_frame(1,2,3)]) (rule callersOk_settle[OF ss_pass_end.prems])
qed (auto intro: callersOk_cong[OF triggerTask_frame] callersOk_cong[OF startTask_frame]
      callersOk_cong[OF stopTask_frame] callersOk_cong[OF fireTimer_frame] callersOk_runOnce)

lemma serialReach_callersOk: "serialReach opts t \<Longrightarrow> callersOk t"
proof (induction rule: serialReach.induct)
  case sr_init
  show ?case by (simp add: callersOk_def callers_def createSerialTask_def)
qed (blast intro: serialStep_callersOk)

subsection \<open>An example run\<close>

definition demoSerial :: serialOptions where
  "demoSerial = \<lparr>so_overlapRerun = True, so_minIntervalMs = Some 100, so_hasInterval = False\<rparr>"

text \<open>Triggered and started at 0, probed at 10, the first pass over at 50.\<close>

definition demoRunning :: serialTask where
  "demoRunning = fireTimer demoSerial 1 0 (triggerTask demoSerial 0 createSerialTask)"

definition demoProbed :: serialTask where
  "demoProbed = runOnce demoSerial 10 demoRunning"

definition demoWaiting :: serialTask where
  "demoWaiting = endPass demoSerial True None 50 demoProbed"

lemma demoRunning_reach: "serialReach demoSerial demoRunning"
proof -
  have timer: "js_get (sk_timers (triggerTask demoSerial 0 createSerialTask)) 1 = Some (TimerSchedule, 0)"
    by code_simp
  show ?thesis unfolding demoRunning_def
    by (rule sr_step[OF sr_step[OF sr_init ss_trigger] ss_fire[OF timer]]) simp
qed

lemma demoProbed_reach: "serialReach demoSerial demoProbed"
  unfolding demoProbed_def by (rule sr_step[OF demoRunning_reach ss_runOnce])

lemma demoProbed_loops: "0 < sk_loops demoProbed"
  by code_simp

lemma demoWaiting_reach: "serialReach demoSerial demoWaiting"
  unfolding demoWaiting_def by (rule sr_step[OF demoProbed_reach ss_pass_end[OF demoProbed_loops]])

subsection \<open>Single flight\<close>

lemma serialOk_pending:
  assumes "serialOk opts t" "sk_busy t \<noteq> None \<or> sk_probes t \<noteq> []"
  shows "pendingPass t"
proof (cases "sk_state t")
  case (TaskScheduled timer)
  with assms(1) obtain due where "js_get (sk_timers t) timer = Some (TimerSchedule, due)"
    by (auto simp: serialOk_def)
  with TaskScheduled show ?thesis by (auto simp: pendingPass_def)
qed (use assms in \<open>auto simp: serialOk_def pendingPass_def split: if_splits\<close>)

text \<open>
  C18: at most one activation of the pass loop is alive, in every phase and under every
  interleaving of triggers, probes, timers, interval ticks and stops. No request is lost: while a
  trigger's promise is unresolved or a \<open>runOnce\<close> caller waits, a pass runs or its timer is armed.
\<close>

theorem serial_single_flight:
  assumes "serialReach opts t"
  shows "sk_loops t \<le> 1 \<and> (sk_inPass t \<longleftrightarrow> sk_loops t = 1) \<and>
         (sk_busy t \<noteq> None \<or> sk_probes t \<noteq> [] \<longrightarrow> pendingPass t)"
  using serialReach_ok[OF assms] serialOk_pending[OF serialReach_ok[OF assms]]
  by (auto simp: serialOk_def split: if_splits)

theorem serial_single_flight_witness:
  "sk_loops demoProbed \<le> 1 \<and> (sk_inPass demoProbed \<longleftrightarrow> sk_loops demoProbed = 1) \<and>
   sk_busy demoProbed \<noteq> None \<and> pendingPass demoProbed"
proof -
  have "sk_busy demoProbed \<noteq> None" by code_simp
  then show ?thesis using serial_single_flight[OF demoProbed_reach] by blast
qed



lemma startTask_stopped: "sk_state t = TaskStopped \<Longrightarrow> startTask opts now t = t"
  by (simp add: startTask_def)

lemma triggerTask_stopped: "sk_state t = TaskStopped \<Longrightarrow> triggerTask opts now t = t"
  by (simp add: triggerTask_def)

lemma fireTimer_stopped:
  "sk_state t = TaskStopped \<Longrightarrow>
   sk_state (fireTimer opts timer now t) = TaskStopped \<and>
   sk_passes (fireTimer opts timer now t) = sk_passes t"
  by (auto simp: fireTimer_def serial_defs split: option.splits timerKind.splits)

lemma runOnce_stopped: "sk_state t = TaskStopped \<Longrightarrow> sk_state (runOnce opts now t) = TaskStopped"
  by (auto simp: runOnce_def serial_defs split: option.splits)

lemma stopTask_stopped:
  "sk_state (stopTask now t) = TaskStopped"
  "sk_state t = TaskStopped \<Longrightarrow> sk_passes (stopTask now t) = sk_passes t"
  by (auto simp: stopTask_def serial_defs split: option.splits taskState.splits)

lemma endPass_stopped:
  "sk_state t = TaskStopped \<Longrightarrow>
   sk_state (endPass opts ok nextPassMs now t) = TaskStopped \<and>
   (sk_passes (endPass opts ok nextPassMs now t) \<noteq> sk_passes t \<longrightarrow>
      sk_probes (endPass opts ok nextPassMs now t) \<noteq> [])"
  by (auto simp: endPass_def serial_defs split: option.splits)

text \<open>
  C20: stopping is final. From a stopped task no step leaves the stopped phase, a trigger changes
  nothing, and only \<open>runOnce\<close> (or a caller it left waiting) makes another pass start.
\<close>

theorem serial_stop_final:
  assumes "serialStep opts now t t'" "sk_state t = TaskStopped"
  shows "sk_state t' = TaskStopped \<and> triggerTask opts now t = t \<and>
         (sk_passes t' = sk_passes t \<or> sk_probes t' \<noteq> [])"
  using assms
proof (induction rule: serialStep.induct)
  case (ss_runOnce t)
  have "sk_probes (runOnce opts now t) \<noteq> []"
    using ss_runOnce by (auto simp: runOnce_def serial_defs split: option.splits)
  then show ?case using ss_runOnce by (simp add: runOnce_stopped triggerTask_stopped)
next
  case (ss_pass_end t ok nextPassMs)
  then show ?case using endPass_stopped by (auto simp: triggerTask_stopped)
qed (simp_all add: startTask_stopped triggerTask_stopped fireTimer_stopped stopTask_stopped)

theorem serial_stop_final_witness:
  "sk_state (stopTask 20 (stopTask 20 demoProbed)) = TaskStopped \<and>
   triggerTask demoSerial 20 (stopTask 20 demoProbed) = stopTask 20 demoProbed"
  using serial_stop_final[OF ss_stop[where opts = demoSerial and now = 20] stopTask_stopped(1)[where now = 20 and t = demoProbed]]
  by blast

subsection \<open>Minimum gap\<close>

lemma triggerTask_gap:
  "so_minIntervalMs opts \<noteq> None \<Longrightarrow> sk_passes (triggerTask opts now t) = sk_passes t"
  by (auto simp: triggerTask_def serial_defs split: taskState.splits option.splits)

lemma runOnce_gap:
  "so_minIntervalMs opts \<noteq> None \<Longrightarrow> sk_state t \<noteq> TaskStopped \<Longrightarrow>
   sk_passes (runOnce opts now t) = sk_passes t"
  by (auto simp: runOnce_def triggerTask_gap Let_def split: taskState.splits)

lemma endPass_gap:
  "so_minIntervalMs opts \<noteq> None \<Longrightarrow> sk_state t \<noteq> TaskStopped \<Longrightarrow>
   sk_passes (endPass opts ok nextPassMs now t) = sk_passes t"
  by (auto simp: endPass_def serial_defs split: option.splits)

lemma fireTimer_gap:
  assumes "serialOk opts t" "so_minIntervalMs opts = Some gapMs"
    "js_get (sk_timers t) timer = Some (kind, due)" "due \<le> now"
    "sk_passes (fireTimer opts timer now t) \<noteq> sk_passes t" "sk_lastStartMs t = Some began"
  shows "began + gapMs \<le> now"
proof -
  have "sk_state t = TaskScheduled timer" "kind = TimerSchedule"
    using assms(2,3,5)
    by (auto simp: fireTimer_def clearTimer_def Let_def triggerTask_gap
        split: timerKind.splits if_splits)
  then show ?thesis using assms by (auto simp: serialOk_def)
qed

text \<open>
  C21: with a minimum interval configured, two passes of a task that has not been stopped start at
  least that far apart: a pass that starts at \<open>now\<close> leaves the gap after the previous start.
\<close>

theorem serial_min_gap:
  assumes "serialReach opts t" "serialStep opts now t t'" "so_minIntervalMs opts = Some gapMs"
    "sk_state t' \<noteq> TaskStopped" "sk_passes t' \<noteq> sk_passes t" "sk_lastStartMs t = Some began"
  shows "began + gapMs \<le> now \<and> sk_lastStartMs t' = Some now"
proof -
  have running: "sk_state t \<noteq> TaskStopped"
    using assms(2,4) by (auto elim!: serialStep.cases simp: runOnce_stopped stopTask_stopped
        endPass_stopped fireTimer_stopped triggerTask_stopped startTask_stopped)
  obtain timer kind due where fired: "t' = fireTimer opts timer now t"
    "js_get (sk_timers t) timer = Some (kind, due)" "due \<le> now"
    using assms(2)
  proof cases
    case ss_start
    then show ?thesis using assms(3,5) by (auto simp: startTask_def triggerTask_gap split: if_splits)
  qed (use assms(3-5) running in \<open>auto simp: triggerTask_gap runOnce_gap endPass_gap stopTask_stopped\<close>)
  have "sk_lastStartMs t' = Some now"
    using assms(3,5) fired(1,2)
    by (auto simp: fireTimer_def Let_def triggerTask_gap enterLoop_def beginPass_def clearTimer_def
        split: timerKind.splits if_splits)
  with fired fireTimer_gap[OF serialReach_ok[OF assms(1)] assms(3) fired(2,3)] assms(5,6)
  show ?thesis by simp
qed

theorem serial_min_gap_witness:
  "(0 :: int) + 100 \<le> 100 \<and> sk_lastStartMs (fireTimer demoSerial 3 100 demoWaiting) = Some 100"
proof -
  have timer: "js_get (sk_timers demoWaiting) 3 = Some (TimerSchedule, 100)" by code_simp
  have facts: "sk_state (fireTimer demoSerial 3 100 demoWaiting) \<noteq> TaskStopped"
    "sk_passes (fireTimer demoSerial 3 100 demoWaiting) \<noteq> sk_passes demoWaiting"
    "sk_lastStartMs demoWaiting = Some 0" "so_minIntervalMs demoSerial = Some 100"
    by code_simp+
  show ?thesis
    using serial_min_gap[OF demoWaiting_reach ss_fire[OF timer, of 100 demoSerial] facts(4,1,2,3)] by simp
qed

end
