(* ===== verification/TerminalTickets.thy ===== *)
theory TerminalTickets
  imports Wmp_Prelude
begin

text \<open>
  One-use tickets of the browser terminal socket
  (\<^verbatim>\<open>apps/server/src/relay/terminal-tickets.ts\<close>).

  The SHA-256 digest is the parameter \<open>digest\<close>; what \<^verbatim>\<open>randomBytes\<close> returns is an
  argument of \<open>mint\<close> (\<open>ticket\<close> and \<open>freshId\<close>), and so is the clock. The store is the insertion
  ordered map from digests to entries. Deleting keys of a \<^verbatim>\<open>Map\<close> while iterating over it
  is a filter.
\<close>

definition TERMINAL_TICKET_TTL_MS :: millis where
  "TERMINAL_TICKET_TTL_MS = 60000"

definition TERMINAL_TICKETS_PER_USER :: nat where
  "TERMINAL_TICKETS_PER_USER = 16"

text \<open>The pattern \<^verbatim>\<open>^[A-Za-z0-9_-]{43}$\<close>.\<close>

definition ticketChar :: "char \<Rightarrow> bool" where
  "ticketChar c \<longleftrightarrow>
     (let n = (of_char c :: nat)
      in 65 \<le> n \<and> n \<le> 90 \<or> 97 \<le> n \<and> n \<le> 122 \<or> 48 \<le> n \<and> n \<le> 57 \<or> n = 95 \<or> n = 45)"

definition TERMINAL_TICKET_PATTERN :: "string \<Rightarrow> bool" where
  "TERMINAL_TICKET_PATTERN t \<longleftrightarrow> length t = 43 \<and> list_all ticketChar t"

record ticketEntry =
  te_userId :: ident
  te_sessionId :: ident
  te_impersonatedBy :: "ident option"
  te_nodeId :: ident
  te_terminalId :: ident
  te_stepId :: "ident option"
  te_shell :: "string option"
  te_expiresAt :: millis

datatype redeemedTicket =
    RedeemedOpen ident ident "string option"
  | RedeemedAttach ident ident ident

record mintInput =
  mi_userId :: ident
  mi_sessionId :: ident
  mi_impersonatedBy :: "ident option"
  mi_nodeId :: ident
  mi_attach :: "(ident \<times> ident) option"
  mi_shell :: "string option"

record mintedTicket =
  mt_ticket :: string
  mt_terminalId :: ident
  mt_expiresAt :: millis

type_synonym ticketStore = "(string, ticketEntry) js_map"

subsection \<open>Operations\<close>

definition pruneTickets :: "millis \<Rightarrow> ticketStore \<Rightarrow> ticketStore" where
  "pruneTickets now s = filter (\<lambda>(_, entry). \<not> te_expiresAt entry \<le> now) s"

fun deleteKeys :: "string list \<Rightarrow> ticketStore \<Rightarrow> ticketStore" where
  "deleteKeys [] s = s"
| "deleteKeys (key # keys) s = deleteKeys keys (js_del key s)"

definition heldBy :: "ident \<Rightarrow> ticketStore \<Rightarrow> ticketStore" where
  "heldBy userId s = filter (\<lambda>(_, entry). te_userId entry = userId) s"

definition dropOldest :: "ident \<Rightarrow> ticketStore \<Rightarrow> ticketStore" where
  "dropOldest userId s =
     (let held = heldBy userId s
      in deleteKeys (map fst (take (length held + 1 - TERMINAL_TICKETS_PER_USER) held)) s)"

definition mintedEntry :: "millis \<Rightarrow> ident \<Rightarrow> mintInput \<Rightarrow> millis \<Rightarrow> ticketEntry" where
  "mintedEntry ttlMs freshId input now =
     \<lparr>te_userId = mi_userId input, te_sessionId = mi_sessionId input,
      te_impersonatedBy = mi_impersonatedBy input, te_nodeId = mi_nodeId input,
      te_terminalId = (case mi_attach input of Some (_, terminalId) \<Rightarrow> terminalId | None \<Rightarrow> freshId),
      te_stepId = map_option fst (mi_attach input),
      te_shell = (if mi_attach input \<noteq> None then None else mi_shell input),
      te_expiresAt = now + ttlMs\<rparr>"

definition mintTicket ::
    "(string \<Rightarrow> string) \<Rightarrow> millis \<Rightarrow> string \<Rightarrow> ident \<Rightarrow> mintInput \<Rightarrow> millis \<Rightarrow> ticketStore \<Rightarrow>
     ticketStore \<times> mintedTicket" where
  "mintTicket digest ttlMs ticket freshId input now s =
     (let entry = mintedEntry ttlMs freshId input now
      in (js_put (digest ticket) entry (dropOldest (mi_userId input) (pruneTickets now s)),
          \<lparr>mt_ticket = ticket, mt_terminalId = te_terminalId entry, mt_expiresAt = te_expiresAt entry\<rparr>))"

definition redeemTicket ::
    "(string \<Rightarrow> string) \<Rightarrow> string \<Rightarrow> ident \<Rightarrow> ident \<Rightarrow> millis \<Rightarrow> ticketStore \<Rightarrow>
     ticketStore \<times> redeemedTicket option" where
  "redeemTicket digest ticket userId sessionId now s =
     (if \<not> TERMINAL_TICKET_PATTERN ticket then (s, None)
      else case js_get s (digest ticket) of
             None \<Rightarrow> (s, None)
           | Some entry \<Rightarrow>
               (js_del (digest ticket) s,
                if te_expiresAt entry \<le> now then None
                else if te_userId entry \<noteq> userId \<or> te_sessionId entry \<noteq> sessionId then None
                else Some (case te_stepId entry of
                       None \<Rightarrow> RedeemedOpen (te_nodeId entry) (te_terminalId entry) (te_shell entry)
                     | Some stepId \<Rightarrow> RedeemedAttach (te_nodeId entry) (te_terminalId entry) stepId)))"

definition revokeForUser :: "ident \<Rightarrow> ticketStore \<Rightarrow> ticketStore" where
  "revokeForUser userId s =
     filter (\<lambda>(_, entry). \<not> (te_userId entry = userId \<or> te_impersonatedBy entry = Some userId)) s"

definition revokeForSession :: "ident \<Rightarrow> ticketStore \<Rightarrow> ticketStore" where
  "revokeForSession sessionId s = filter (\<lambda>(_, entry). te_sessionId entry \<noteq> sessionId) s"

definition ticketCount :: "ticketStore \<Rightarrow> nat" where
  "ticketCount s = length s"

subsection \<open>Runs\<close>

text \<open>
  A call on the store at an instant. \<open>runTickets\<close> runs a sequence of calls and returns the store
  and the successful redemptions, each with the digest it used up.
\<close>

datatype ticketOp =
    OpMint string ident mintInput
  | OpRedeem string ident ident
  | OpRevokeUser ident
  | OpRevokeSession ident

fun ticketStep ::
    "(string \<Rightarrow> string) \<Rightarrow> millis \<Rightarrow> millis \<Rightarrow> ticketOp \<Rightarrow> ticketStore \<Rightarrow>
     ticketStore \<times> (string \<times> redeemedTicket) list" where
  "ticketStep digest ttlMs now (OpMint ticket freshId input) s =
     (fst (mintTicket digest ttlMs ticket freshId input now s), [])"
| "ticketStep digest ttlMs now (OpRedeem ticket userId sessionId) s =
     (case redeemTicket digest ticket userId sessionId now s of
        (s', None) \<Rightarrow> (s', [])
      | (s', Some r) \<Rightarrow> (s', [(digest ticket, r)]))"
| "ticketStep digest ttlMs now (OpRevokeUser userId) s = (revokeForUser userId s, [])"
| "ticketStep digest ttlMs now (OpRevokeSession sessionId) s = (revokeForSession sessionId s, [])"

fun runTickets ::
    "(string \<Rightarrow> string) \<Rightarrow> millis \<Rightarrow> (millis \<times> ticketOp) list \<Rightarrow> ticketStore \<Rightarrow>
     ticketStore \<times> (string \<times> redeemedTicket) list" where
  "runTickets digest ttlMs [] s = (s, [])"
| "runTickets digest ttlMs ((now, op) # ops) s =
     (let (s1, log1) = ticketStep digest ttlMs now op s;
          (s2, log2) = runTickets digest ttlMs ops s1
      in (s2, log1 @ log2))"

text \<open>How often a digest was minted in a sequence of calls.\<close>

fun mintsOf :: "(string \<Rightarrow> string) \<Rightarrow> string \<Rightarrow> (millis \<times> ticketOp) list \<Rightarrow> nat" where
  "mintsOf digest key [] = 0"
| "mintsOf digest key ((_, OpMint ticket _ _) # ops) =
     (if digest ticket = key then 1 else 0) + mintsOf digest key ops"
| "mintsOf digest key (_ # ops) = mintsOf digest key ops"

definition redeemedOf :: "string \<Rightarrow> (string \<times> redeemedTicket) list \<Rightarrow> nat" where
  "redeemedOf key redeemed = length (filter (\<lambda>(k, _). k = key) redeemed)"

subsection \<open>Well-formedness and the per-user bound\<close>

definition ticketsOk :: "ticketStore \<Rightarrow> bool" where
  "ticketsOk s \<longleftrightarrow> js_map_ok s \<and> (\<forall>userId. length (heldBy userId s) \<le> TERMINAL_TICKETS_PER_USER)"

lemma filter_map_ok: "js_map_ok s \<Longrightarrow> js_map_ok (filter P s)"
  by (simp add: distinct_map_filter)

lemma filter_get:
  "js_map_ok s \<Longrightarrow> js_get (filter P s) key = Some entry \<longleftrightarrow> js_get s key = Some entry \<and> P (key, entry)"
  by (simp add: js_map_ok_get filter_map_ok)

lemma js_del_filter: "js_del key s = filter (\<lambda>(k, _). k \<noteq> key) s"
  by (auto simp: AList.delete_eq intro!: filter_cong)

lemma deleteKeys_filter: "deleteKeys keys s = filter (\<lambda>(k, _). k \<notin> set keys) s"
  by (induction keys arbitrary: s)
     (auto simp: js_del_filter case_prod_unfold intro!: filter_cong)

lemma heldBy_filter: "heldBy userId (filter P s) = filter P (heldBy userId s)"
  by (auto simp: heldBy_def intro!: filter_cong)

lemma dropOldest_filter:
  "\<exists>keys. dropOldest userId s = filter (\<lambda>(k, _). k \<notin> keys) s"
  unfolding dropOldest_def Let_def deleteKeys_filter by blast

lemma filter_keep_drop:
  "distinct (map fst xs) \<Longrightarrow> filter (\<lambda>(k, _). k \<notin> fst ` set (take n xs)) xs = drop n xs"
proof (induction xs arbitrary: n)
  case (Cons x xs)
  show ?case
  proof (cases n)
    case 0
    then show ?thesis by simp
  next
    case (Suc m)
    have "filter (\<lambda>(k, _). k \<notin> insert (fst x) (fst ` set (take m xs))) xs =
          filter (\<lambda>(k, _). k \<notin> fst ` set (take m xs)) xs"
      using Cons.prems by (intro filter_cong) (auto simp: image_iff)
    with Suc Cons show ?thesis by (simp add: case_prod_unfold)
  qed
qed simp

lemma dropOldest_held:
  assumes "js_map_ok s" "length (heldBy userId s) \<le> TERMINAL_TICKETS_PER_USER"
  shows "length (heldBy userId (dropOldest userId s)) < TERMINAL_TICKETS_PER_USER"
proof -
  let ?held = "heldBy userId s" and ?n = "length (heldBy userId s) + 1 - TERMINAL_TICKETS_PER_USER"
  have "distinct (map fst ?held)" using assms(1) by (simp add: heldBy_def distinct_map_filter)
  then have "heldBy userId (dropOldest userId s) = drop ?n ?held"
    unfolding dropOldest_def Let_def deleteKeys_filter heldBy_filter
    using filter_keep_drop[of ?held ?n] by simp
  with assms(2) show ?thesis by (simp add: TERMINAL_TICKETS_PER_USER_def)
qed

lemma filter_ticketsOk: "ticketsOk s \<Longrightarrow> ticketsOk (filter P s)"
  unfolding ticketsOk_def heldBy_filter
  by (meson filter_map_ok length_filter_le order_trans)

lemma heldBy_put:
  assumes "te_userId entry = userId'"
  shows "length (heldBy userId (js_put key entry s)) \<le>
    length (heldBy userId s) + (if userId = userId' then 1 else 0)"
  using assms by (induction s) (auto simp: heldBy_def)

lemma mint_ticketsOk:
  assumes "ticketsOk s"
  shows "ticketsOk (fst (mintTicket digest ttlMs ticket freshId input now s))"
proof -
  let ?user = "mi_userId input" and ?s1 = "pruneTickets now s"
  let ?s2 = "dropOldest ?user ?s1"
  let ?s3 = "js_put (digest ticket) (mintedEntry ttlMs freshId input now) ?s2"
  have ok1: "ticketsOk ?s1" unfolding pruneTickets_def by (rule filter_ticketsOk[OF assms])
  have ok2: "ticketsOk ?s2" using dropOldest_filter filter_ticketsOk[OF ok1] by metis
  have "te_userId (mintedEntry ttlMs freshId input now) = ?user" by (simp add: mintedEntry_def)
  note put = heldBy_put[OF this, of _ "digest ticket" ?s2]
  have "length (heldBy ?user ?s2) < TERMINAL_TICKETS_PER_USER"
    using ok1 by (intro dropOldest_held) (simp_all add: ticketsOk_def)
  then have "length (heldBy userId ?s3) \<le> TERMINAL_TICKETS_PER_USER" for userId
    using put[of userId] ok2 by (cases "userId = ?user") (auto simp: ticketsOk_def intro: order_trans)
  then show ?thesis
    using ok2 by (auto simp: ticketsOk_def mintTicket_def Let_def)
qed

lemma ticketStep_ok: "ticketsOk s \<Longrightarrow> ticketsOk (fst (ticketStep digest ttlMs now op s))"
  by (cases op)
     (auto simp: mint_ticketsOk redeemTicket_def js_del_filter filter_ticketsOk revokeForUser_def
        revokeForSession_def split: option.splits)

lemma runTickets_ok: "ticketsOk s \<Longrightarrow> ticketsOk (fst (runTickets digest ttlMs ops s))"
proof (induction ops arbitrary: s)
  case (Cons x ops)
  then show ?case by (cases x) (simp add: Let_def case_prod_unfold ticketStep_ok)
qed simp

subsection \<open>One use\<close>

abbreviation holds :: "ticketStore \<Rightarrow> string \<Rightarrow> nat" where
  "holds s key \<equiv> (if js_has s key then 1 else 0)"

lemma js_has_filter: "js_has (filter P s) key \<Longrightarrow> js_has s key"
  by (auto simp: js_has_def)

lemma mint_has:
  "js_has (fst (mintTicket digest ttlMs ticket freshId input now s)) key \<Longrightarrow>
   key = digest ticket \<or> js_has s key"
  using dropOldest_filter[of "mi_userId input" "pruneTickets now s"]
  by (auto simp: mintTicket_def Let_def pruneTickets_def dest: js_has_filter)

lemma ticketStep_use:
  "redeemedOf key (snd (ticketStep digest ttlMs now op s)) + holds (fst (ticketStep digest ttlMs now op s)) key
   \<le> mintsOf digest key [(now, op)] + holds s key"
proof (cases op)
  case (OpMint ticket freshId input)
  then show ?thesis using mint_has[of digest ttlMs ticket freshId input now s key] by (auto simp: redeemedOf_def)
next
  case (OpRedeem ticket userId sessionId)
  then show ?thesis by (auto simp: redeemedOf_def redeemTicket_def js_has_get split: option.splits)
qed (auto simp: redeemedOf_def revokeForUser_def revokeForSession_def dest: js_has_filter)

lemma mintsOf_Cons: "mintsOf digest key (x # ops) = mintsOf digest key [x] + mintsOf digest key ops"
  by (cases x; cases "snd x") auto

lemma redeemedOf_append: "redeemedOf key (xs @ ys) = redeemedOf key xs + redeemedOf key ys"
  by (simp add: redeemedOf_def)

lemma runTickets_use:
  "redeemedOf key (snd (runTickets digest ttlMs ops s)) + holds (fst (runTickets digest ttlMs ops s)) key
   \<le> mintsOf digest key ops + holds s key"
proof (induction digest ttlMs ops s rule: runTickets.induct)
  case (2 digest ttlMs now op ops s)
  obtain s1 log1 where step: "ticketStep digest ttlMs now op s = (s1, log1)" by fastforce
  obtain s2 log2 where rest: "runTickets digest ttlMs ops s1 = (s2, log2)" by fastforce
  have "redeemedOf key log2 + holds s2 key \<le> mintsOf digest key ops + holds s1 key"
    using 2[OF step[symmetric] refl] rest by simp
  moreover have "redeemedOf key log1 + holds s1 key \<le> mintsOf digest key [(now, op)] + holds s key"
    using ticketStep_use[of key digest ttlMs now op s] step by simp
  ultimately show ?case
    unfolding mintsOf_Cons[of digest key "(now, op)" ops]
    by (simp add: step rest redeemedOf_append)
qed (simp add: redeemedOf_def)

subsection \<open>Provenance\<close>

text \<open>Every stored entry is what some earlier mint call wrote for its digest.\<close>

definition provenance ::
    "(string \<Rightarrow> string) \<Rightarrow> millis \<Rightarrow> (millis \<times> ticketOp) list \<Rightarrow> ticketStore \<Rightarrow> bool" where
  "provenance digest ttlMs past s \<longleftrightarrow>
     (\<forall>(key, entry) \<in> set s. \<exists>minted ticket freshId input.
        (minted, OpMint ticket freshId input) \<in> set past \<and> digest ticket = key \<and>
        entry = mintedEntry ttlMs freshId input minted)"

lemma provenance_filter: "provenance digest ttlMs past s \<Longrightarrow> provenance digest ttlMs past (filter P s)"
  by (auto simp: provenance_def)

lemma provenance_more: "provenance digest ttlMs past s \<Longrightarrow> provenance digest ttlMs (past @ rest) s"
  by (fastforce simp: provenance_def)

lemma set_js_put: "set (js_put k v s) \<subseteq> insert (k, v) (set s)"
  by (induction s) auto

lemma provenance_put:
  assumes "provenance digest ttlMs past s" "(now, OpMint ticket freshId input) \<in> set past"
  shows "provenance digest ttlMs past (js_put (digest ticket) (mintedEntry ttlMs freshId input now) s)"
  unfolding provenance_def
proof (intro ballI, clarify)
  fix key entry
  assume "(key, entry) \<in> set (js_put (digest ticket) (mintedEntry ttlMs freshId input now) s)"
  then consider "key = digest ticket \<and> entry = mintedEntry ttlMs freshId input now" | "(key, entry) \<in> set s"
    using set_js_put by fast
  then show "\<exists>minted ticket freshId input. (minted, OpMint ticket freshId input) \<in> set past \<and>
      digest ticket = key \<and> entry = mintedEntry ttlMs freshId input minted"
  proof cases
    case 1
    then show ?thesis using assms(2) by blast
  next
    case 2
    then show ?thesis using assms(1) unfolding provenance_def by blast
  qed
qed

lemma provenance_step:
  assumes "provenance digest ttlMs past s"
  shows "provenance digest ttlMs (past @ [(now, op)]) (fst (ticketStep digest ttlMs now op s))"
proof -
  let ?past = "past @ [(now, op)]"
  have keep: "provenance digest ttlMs ?past (filter P s)" for P
    by (rule provenance_filter[OF provenance_more[OF assms]])
  show ?thesis
  proof (cases op)
    case (OpMint ticket freshId input)
    obtain keys where keys: "dropOldest (mi_userId input) (pruneTickets now s) =
        filter (\<lambda>(k, _). k \<notin> keys) (pruneTickets now s)" using dropOldest_filter by metis
    have "provenance digest ttlMs ?past (dropOldest (mi_userId input) (pruneTickets now s))"
      unfolding keys unfolding pruneTickets_def by (rule provenance_filter[OF keep])
    from provenance_put[OF this, of now ticket freshId input] show ?thesis
      by (simp add: OpMint mintTicket_def Let_def)
  next
    case (OpRedeem ticket userId sessionId)
    then show ?thesis using keep[of "\<lambda>(k, _). k \<noteq> digest ticket"] provenance_more[OF assms, of "[(now, op)]"]
      by (auto simp: redeemTicket_def js_del_filter split: option.splits)
  qed (use keep in \<open>auto simp: revokeForUser_def revokeForSession_def\<close>)
qed

text \<open>What a successful redemption shows of the entry it used up.\<close>

lemma redeem_entry:
  assumes "(key, r) \<in> set (snd (ticketStep digest ttlMs now op s))"
  obtains ticket userId sessionId entry where "op = OpRedeem ticket userId sessionId"
    "digest ticket = key" "js_get s key = Some entry" "now < te_expiresAt entry"
    "te_userId entry = userId" "te_sessionId entry = sessionId"
    "r = (case te_stepId entry of
            None \<Rightarrow> RedeemedOpen (te_nodeId entry) (te_terminalId entry) (te_shell entry)
          | Some stepId \<Rightarrow> RedeemedAttach (te_nodeId entry) (te_terminalId entry) stepId)"
  using assms by (cases op) (auto simp: redeemTicket_def split: option.splits if_splits)

definition redeemedFor :: "ident \<Rightarrow> mintInput \<Rightarrow> redeemedTicket" where
  "redeemedFor freshId input =
     (case mi_attach input of
        None \<Rightarrow> RedeemedOpen (mi_nodeId input) freshId (mi_shell input)
      | Some (stepId, terminalId) \<Rightarrow> RedeemedAttach (mi_nodeId input) terminalId stepId)"

lemma runTickets_provenance:
  assumes "provenance digest ttlMs past s" "(key, r) \<in> set (snd (runTickets digest ttlMs ops s))"
  shows "\<exists>minted ticket freshId input now shown.
    (minted, OpMint ticket freshId input) \<in> set (past @ ops) \<and> digest ticket = key \<and>
    (now, OpRedeem shown (mi_userId input) (mi_sessionId input)) \<in> set ops \<and> digest shown = key \<and>
    now < minted + ttlMs \<and> r = redeemedFor freshId input"
  using assms
proof (induction ops arbitrary: past s)
  case (Cons x ops)
  obtain now op where x: "x = (now, op)" by fastforce
  let ?s1 = "fst (ticketStep digest ttlMs now op s)"
  consider (here) "(key, r) \<in> set (snd (ticketStep digest ttlMs now op s))"
    | (later) "(key, r) \<in> set (snd (runTickets digest ttlMs ops ?s1))"
    using Cons.prems(2) by (auto simp: x Let_def case_prod_unfold)
  then show ?case
  proof cases
    case here
    then obtain shown entry where op: "op = OpRedeem shown (te_userId entry) (te_sessionId entry)"
      "digest shown = key" and entry: "js_get s key = Some entry" "now < te_expiresAt entry"
      and r: "r = (case te_stepId entry of
            None \<Rightarrow> RedeemedOpen (te_nodeId entry) (te_terminalId entry) (te_shell entry)
          | Some stepId \<Rightarrow> RedeemedAttach (te_nodeId entry) (te_terminalId entry) stepId)"
      by (elim redeem_entry) blast
    from Cons.prems(1) js_get_SomeD[OF entry(1)] obtain minted ticket freshId input where
      mint: "(minted, OpMint ticket freshId input) \<in> set past" "digest ticket = key"
        "entry = mintedEntry ttlMs freshId input minted" by (fastforce simp: provenance_def)
    have "te_userId entry = mi_userId input" "te_sessionId entry = mi_sessionId input"
      "now < minted + ttlMs" "r = redeemedFor freshId input"
      using entry(2) r mint(3) by (auto simp: mintedEntry_def redeemedFor_def split: option.splits)
    then show ?thesis using mint(1,2) op x by fastforce
  next
    case later
    from Cons.IH[OF provenance_step[OF Cons.prems(1)] this] show ?thesis by (fastforce simp: x)
  qed
qed simp

text \<open>
  C22: tickets are one-use and honest. In any sequence of calls a digest is redeemed successfully at
  most as often as it was minted; every successful redemption is by the user and session the
  ticket was minted for, before its expiry, and names exactly the node, terminal and step of that
  mint; and no user ever holds more than sixteen unredeemed tickets.
\<close>

theorem tickets_one_use:
  assumes "runTickets digest ttlMs ops [] = (s, redeemed)"
  shows "redeemedOf key redeemed \<le> mintsOf digest key ops \<and>
    ((key, r) \<in> set redeemed \<longrightarrow>
       (\<exists>minted ticket freshId input now shown.
          (minted, OpMint ticket freshId input) \<in> set ops \<and> digest ticket = key \<and>
          (now, OpRedeem shown (mi_userId input) (mi_sessionId input)) \<in> set ops \<and>
          digest shown = key \<and> now < minted + ttlMs \<and> r = redeemedFor freshId input)) \<and>
    length (heldBy userId s) \<le> TERMINAL_TICKETS_PER_USER"
proof -
  have "redeemedOf key redeemed \<le> mintsOf digest key ops"
    using runTickets_use[of key digest ttlMs ops "[]"] assms by (simp split: if_splits)
  moreover have "provenance digest ttlMs [] []" by (simp add: provenance_def)
  note runTickets_provenance[OF this, of key r ops]
  moreover have "ticketsOk s"
    using runTickets_ok[of "[]" digest ttlMs ops] assms by (simp add: ticketsOk_def heldBy_def)
  ultimately show ?thesis using assms by (simp add: ticketsOk_def)
qed

definition demoTicket :: string where
  "demoTicket = replicate 43 (CHR ''A'')"

definition demoMint :: mintInput where
  "demoMint = \<lparr>mi_userId = ''user'', mi_sessionId = ''session'', mi_impersonatedBy = Some ''admin'',
     mi_nodeId = ''node'', mi_attach = None, mi_shell = None\<rparr>"

definition demoCalls :: "(millis \<times> ticketOp) list" where
  "demoCalls = [(0, OpMint demoTicket ''terminal'' demoMint), (5, OpRedeem demoTicket ''user'' ''session''),
     (6, OpRedeem demoTicket ''user'' ''session'')]"

lemma demoTicket_pattern: "TERMINAL_TICKET_PATTERN demoTicket"
  by code_simp

lemma demoCalls_run:
  "runTickets id 60000 demoCalls [] = ([], [(demoTicket, RedeemedOpen ''node'' ''terminal'' None)])"
  by (simp add: demoCalls_def mintTicket_def redeemTicket_def demoTicket_pattern pruneTickets_def
      dropOldest_def heldBy_def mintedEntry_def demoMint_def Let_def)

theorem tickets_one_use_witness:
  "redeemedOf demoTicket [(demoTicket, RedeemedOpen ''node'' ''terminal'' None)] \<le>
     mintsOf id demoTicket demoCalls \<and>
   length (heldBy ''user'' []) \<le> TERMINAL_TICKETS_PER_USER"
  using tickets_one_use[OF demoCalls_run, of demoTicket _ "''user''"] by blast

subsection \<open>Round trip and revocation\<close>

lemma mint_get:
  "js_get (fst (mintTicket digest ttlMs ticket freshId input now s)) (digest ticket) =
     Some (mintedEntry ttlMs freshId input now)"
  by (simp add: mintTicket_def Let_def)

text \<open>
  C23: minting and redeeming are inverse for the right caller: a well-formed ticket shown by its own
  user and session before it expires yields what was minted; shown by anyone else or too late it
  yields nothing; and in every case it is gone, so a second presentation yields nothing.
\<close>

theorem ticket_roundtrip:
  assumes "TERMINAL_TICKET_PATTERN ticket"
    and "mintTicket digest ttlMs ticket freshId input now s = (s1, minted)"
    and "redeemTicket digest ticket userId sessionId later s1 = (s2, result)"
  shows "result =
      (if later < now + ttlMs \<and> userId = mi_userId input \<and> sessionId = mi_sessionId input
       then Some (redeemedFor freshId input) else None) \<and>
    mt_expiresAt minted = now + ttlMs \<and>
    redeemTicket digest ticket userId' sessionId' later' s2 = (s2, None)"
proof -
  have get: "js_get s1 (digest ticket) = Some (mintedEntry ttlMs freshId input now)"
    using mint_get[of digest ttlMs ticket freshId input now s] assms(2) by simp
  then have s2: "s2 = js_del (digest ticket) s1"
    using assms(1,3) by (simp add: redeemTicket_def)
  have "result = (if later < now + ttlMs \<and> userId = mi_userId input \<and> sessionId = mi_sessionId input
       then Some (redeemedFor freshId input) else None)"
    using assms(1,3) get by (auto simp: redeemTicket_def mintedEntry_def redeemedFor_def split: option.splits)
  moreover have "mt_expiresAt minted = now + ttlMs"
    using assms(2) by (auto simp: mintTicket_def mintedEntry_def Let_def)
  moreover have "redeemTicket digest ticket userId' sessionId' later' s2 = (s2, None)"
    by (simp add: redeemTicket_def s2)
  ultimately show ?thesis by blast
qed

theorem ticket_roundtrip_witness:
  "snd (redeemTicket id demoTicket ''user'' ''session'' 5
      (fst (mintTicket id 60000 demoTicket ''terminal'' demoMint 0 []))) =
     Some (RedeemedOpen ''node'' ''terminal'' None)"
proof -
  have "snd (redeemTicket id demoTicket ''user'' ''session'' 5
      (fst (mintTicket id 60000 demoTicket ''terminal'' demoMint 0 []))) =
     Some (redeemedFor ''terminal'' demoMint)"
    using ticket_roundtrip[OF demoTicket_pattern surjective_pairing surjective_pairing,
        of id "''user''" "''session''" 5 60000 "''terminal''" demoMint 0 "[]"]
    by (simp add: demoMint_def)
  then show ?thesis by (simp add: redeemedFor_def demoMint_def)
qed

definition isMint :: "ticketOp \<Rightarrow> bool" where
  "isMint op \<longleftrightarrow> (case op of OpMint _ _ _ \<Rightarrow> True | _ \<Rightarrow> False)"

lemma step_no_mint:
  assumes "\<not> isMint op" "js_map_ok s"
  shows "js_map_ok (fst (ticketStep digest ttlMs now op s)) \<and>
    set (fst (ticketStep digest ttlMs now op s)) \<subseteq> set s"
  using assms by (cases op)
    (auto simp: isMint_def redeemTicket_def js_del_filter revokeForUser_def revokeForSession_def
      filter_map_ok split: option.splits)

lemma run_no_mint:
  assumes "\<forall>(_, op) \<in> set ops. \<not> isMint op" "js_map_ok s"
    "(key, r) \<in> set (snd (runTickets digest ttlMs ops s))"
  shows "\<exists>entry. js_get s key = Some entry"
  using assms
proof (induction ops arbitrary: s)
  case (Cons x ops)
  obtain now op where x: "x = (now, op)" by fastforce
  let ?s1 = "fst (ticketStep digest ttlMs now op s)"
  have step: "js_map_ok ?s1" "set ?s1 \<subseteq> set s" using step_no_mint[of op s digest ttlMs now] Cons.prems(1,2) x by auto
  consider "(key, r) \<in> set (snd (ticketStep digest ttlMs now op s))"
    | "(key, r) \<in> set (snd (runTickets digest ttlMs ops ?s1))"
    using Cons.prems(3) by (auto simp: x Let_def case_prod_unfold)
  then show ?case
  proof cases
    case 1
    then show ?thesis by (elim redeem_entry) blast
  next
    case 2
    then obtain entry where "js_get ?s1 key = Some entry" using Cons.IH[OF _ step(1)] Cons.prems(1) by auto
    then show ?thesis using step js_map_ok_get[OF Cons.prems(2)] by (blast dest: js_get_SomeD)
  qed
qed simp



end
