(* ===== verification/McpAdmission.thy ===== *)
theory McpAdmission
  imports Wmp_Prelude
begin

text \<open>
  The MCP admission barrier (\<^verbatim>\<open>apps/server/src/mcp/admission.ts\<close>).

  A permit's abort controller is named by a number; the \<^verbatim>\<open>released\<close> flag each permit's
  \<^verbatim>\<open>release\<close> closes over is a member of \<open>ga_released\<close>. Promises \<^verbatim>\<open>close()\<close>
  returned are numbered; those it resolved are logged in \<open>ga_resolved\<close>. \<open>ga_onClosed\<close> counts the
  calls of the \<^verbatim>\<open>onClosed\<close> hook.
\<close>

record gate =
  ga_closed :: bool
  ga_outstanding :: int
  ga_waiters :: "nat list"
  ga_controllers :: "nat js_set"
  ga_admitted :: nat
  ga_released :: "nat js_set"
  ga_aborted :: "nat js_set"
  ga_promises :: nat
  ga_resolved :: "nat list"
  ga_onClosed :: nat

definition createMcpAdmissionGate :: gate where
  "createMcpAdmissionGate =
     \<lparr>ga_closed = False, ga_outstanding = 0, ga_waiters = [], ga_controllers = [], ga_admitted = 0,
      ga_released = [], ga_aborted = [], ga_promises = 0, ga_resolved = [], ga_onClosed = 0\<rparr>"

definition settleIfDrained :: "gate \<Rightarrow> gate" where
  "settleIfDrained g =
     (if ga_closed g \<and> ga_outstanding g = 0
      then g\<lparr>ga_waiters := [], ga_resolved := ga_resolved g @ ga_waiters g\<rparr> else g)"

definition admitGate :: "gate \<Rightarrow> gate \<times> nat option" where
  "admitGate g =
     (if ga_closed g then (g, None)
      else (g\<lparr>ga_outstanding := ga_outstanding g + 1,
              ga_controllers := js_add (ga_admitted g) (ga_controllers g),
              ga_admitted := ga_admitted g + 1\<rparr>, Some (ga_admitted g)))"

definition releaseGate :: "nat \<Rightarrow> gate \<Rightarrow> gate" where
  "releaseGate permit g =
     (if permit \<in> set (ga_released g) then g
      else settleIfDrained
             (g\<lparr>ga_released := js_add permit (ga_released g),
                ga_controllers := remove1 permit (ga_controllers g),
                ga_outstanding := ga_outstanding g - 1\<rparr>))"

text \<open>The promise \<open>close\<close> returns is resolved at once when nothing is outstanding.\<close>

definition closeGate :: "gate \<Rightarrow> gate \<times> nat" where
  "closeGate g =
     (let firstClose = \<not> ga_closed g;
          g1 = g\<lparr>ga_closed := True, ga_onClosed := ga_onClosed g + (if firstClose then 1 else 0)\<rparr>;
          g2 = g1\<lparr>ga_controllers := [], ga_aborted := fold js_add (ga_controllers g1) (ga_aborted g1)\<rparr>;
          g3 = settleIfDrained g2;
          promise = ga_promises g3;
          g4 = g3\<lparr>ga_promises := promise + 1\<rparr>
      in (if ga_outstanding g4 = 0 then g4\<lparr>ga_resolved := ga_resolved g4 @ [promise]\<rparr>
          else g4\<lparr>ga_waiters := ga_waiters g4 @ [promise]\<rparr>, promise))"

inductive gateReach :: "gate \<Rightarrow> bool" where
    gr_create: "gateReach createMcpAdmissionGate"
  | gr_admit: "gateReach g \<Longrightarrow> gateReach (fst (admitGate g))"
  | gr_release: "gateReach g \<Longrightarrow> permit < ga_admitted g \<Longrightarrow> gateReach (releaseGate permit g)"
  | gr_close: "gateReach g \<Longrightarrow> gateReach (fst (closeGate g))"

text \<open>The permits handed out whose handler has not settled.\<close>

definition unsettled :: "gate \<Rightarrow> nat set" where
  "unsettled g = {permit. permit < ga_admitted g \<and> permit \<notin> set (ga_released g)}"

definition gateOk :: "gate \<Rightarrow> bool" where
  "gateOk g \<longleftrightarrow>
     ga_outstanding g = int (card (unsettled g)) \<and>
     set (ga_released g) \<subseteq> {..<ga_admitted g} \<and>
     distinct (ga_controllers g) \<and> set (ga_controllers g) \<subseteq> unsettled g \<and>
     unsettled g \<subseteq> set (ga_controllers g) \<union> set (ga_aborted g) \<and>
     (ga_closed g \<longrightarrow> ga_controllers g = []) \<and>
     (ga_waiters g \<noteq> [] \<longrightarrow> ga_closed g \<and> ga_outstanding g > 0) \<and>
     set (ga_waiters g) \<union> set (ga_resolved g) = {..<ga_promises g} \<and>
     distinct (ga_waiters g @ ga_resolved g) \<and>
     ga_onClosed g = (if ga_closed g then 1 else 0)"

lemma finite_unsettled [simp]: "finite (unsettled g)"
  by (rule finite_subset[of _ "{..<ga_admitted g}"]) (auto simp: unsettled_def)

lemma set_fold_js_add [simp]: "set (fold js_add xs s) = set xs \<union> set s"
  by (induction xs arbitrary: s) auto

lemma gateOk_create: "gateOk createMcpAdmissionGate"
  by (simp add: gateOk_def createMcpAdmissionGate_def unsettled_def)

lemma gateOk_admit:
  assumes "gateOk g"
  shows "gateOk (fst (admitGate g))"
proof (cases "ga_closed g")
  case False
  have "ga_admitted g \<notin> unsettled g" "ga_admitted g \<notin> set (ga_released g)"
    using assms by (auto simp: unsettled_def gateOk_def)
  moreover have "unsettled (fst (admitGate g)) = insert (ga_admitted g) (unsettled g)"
    using False calculation by (auto simp: admitGate_def unsettled_def)
  ultimately show ?thesis
    using assms False by (auto simp: gateOk_def admitGate_def intro: less_SucI)
qed (use assms in \<open>simp add: admitGate_def\<close>)

lemma settle_unsettled [simp]: "unsettled (settleIfDrained g) = unsettled g"
  by (simp add: settleIfDrained_def unsettled_def)

text \<open>Before the drained promises are resolved, they may still be waiting.\<close>

definition gateOkBut :: "gate \<Rightarrow> bool" where
  "gateOkBut g \<longleftrightarrow>
     ga_outstanding g = int (card (unsettled g)) \<and>
     set (ga_released g) \<subseteq> {..<ga_admitted g} \<and>
     distinct (ga_controllers g) \<and> set (ga_controllers g) \<subseteq> unsettled g \<and>
     unsettled g \<subseteq> set (ga_controllers g) \<union> set (ga_aborted g) \<and>
     (ga_closed g \<longrightarrow> ga_controllers g = []) \<and>
     (ga_waiters g \<noteq> [] \<longrightarrow> ga_closed g) \<and>
     set (ga_waiters g) \<union> set (ga_resolved g) = {..<ga_promises g} \<and>
     distinct (ga_waiters g @ ga_resolved g) \<and>
     ga_onClosed g = (if ga_closed g then 1 else 0)"

lemma gateOk_settle:
  assumes "gateOkBut g"
  shows "gateOk (settleIfDrained g)"
proof (cases "ga_closed g \<and> ga_outstanding g = 0")
  case True
  have "unsettled (settleIfDrained g) = unsettled g" by simp
  with True assms show ?thesis
    by (auto simp: gateOk_def gateOkBut_def settleIfDrained_def unsettled_def)
next
  case False
  then show ?thesis using assms by (auto simp: gateOk_def gateOkBut_def settleIfDrained_def)
qed

lemma gateOk_release:
  assumes "gateOk g" "permit < ga_admitted g"
  shows "gateOk (releaseGate permit g)"
proof (cases "permit \<in> set (ga_released g)")
  case False
  let ?g1 = "g\<lparr>ga_released := js_add permit (ga_released g),
               ga_controllers := remove1 permit (ga_controllers g),
               ga_outstanding := ga_outstanding g - 1\<rparr>"
  have mem: "permit \<in> unsettled g" using False assms(2) by (simp add: unsettled_def)
  have less: "unsettled ?g1 = unsettled g - {permit}" by (auto simp: unsettled_def)
  have card: "int (card (unsettled g - {permit})) = int (card (unsettled g)) - 1"
    using card_Suc_Diff1[OF finite_unsettled mem] by simp
  have "gateOkBut ?g1"
    unfolding gateOkBut_def less using assms card by (auto simp: gateOk_def)
  then show ?thesis using False by (simp add: releaseGate_def gateOk_settle)
qed (use assms in \<open>simp add: releaseGate_def\<close>)

lemma gateOk_close:
  assumes "gateOk g"
  shows "gateOk (fst (closeGate g))"
proof -
  let ?g2 = "g\<lparr>ga_closed := True, ga_onClosed := ga_onClosed g + (if \<not> ga_closed g then 1 else 0),
               ga_controllers := [], ga_aborted := fold js_add (ga_controllers g) (ga_aborted g)\<rparr>"
  have "unsettled ?g2 = unsettled g" by (simp add: unsettled_def)
  then have "gateOkBut ?g2" using assms unfolding gateOkBut_def gateOk_def by auto
  then have ok3: "gateOk (settleIfDrained ?g2)" by (rule gateOk_settle)
  let ?g3 = "settleIfDrained ?g2"
  have closed: "ga_closed ?g3" by (simp add: settleIfDrained_def)
  have fresh: "ga_promises ?g3 \<notin> set (ga_waiters ?g3)" "ga_promises ?g3 \<notin> set (ga_resolved ?g3)"
    using ok3 by (auto simp: gateOk_def)
  have "unsettled (fst (closeGate g)) = unsettled ?g3"
    by (simp add: closeGate_def Let_def unsettled_def settleIfDrained_def)
  moreover have "fst (closeGate g) =
      (if ga_outstanding ?g3 = 0 then ?g3\<lparr>ga_promises := ga_promises ?g3 + 1, ga_resolved := ga_resolved ?g3 @ [ga_promises ?g3]\<rparr>
       else ?g3\<lparr>ga_promises := ga_promises ?g3 + 1, ga_waiters := ga_waiters ?g3 @ [ga_promises ?g3]\<rparr>)"
    by (simp add: closeGate_def Let_def)
  ultimately show ?thesis
    using ok3 closed fresh by (cases "ga_outstanding ?g3 = 0") (auto simp: gateOk_def less_Suc_eq)
qed

lemma gateReach_ok: "gateReach g \<Longrightarrow> gateOk g"
  by (induction rule: gateReach.induct)
     (simp_all add: gateOk_create gateOk_admit gateOk_release gateOk_close)


text \<open>Two requests admitted, the gate closed, one of them settled.\<close>

definition demoGate :: gate where
  "demoGate = releaseGate 0 (fst (closeGate (fst (admitGate (fst (admitGate createMcpAdmissionGate))))))"

lemma demoGate_reach: "gateReach demoGate"
proof -
  let ?g = "fst (closeGate (fst (admitGate (fst (admitGate createMcpAdmissionGate)))))"
  have "gateReach ?g" by (intro gateReach.intros)
  moreover have "0 < ga_admitted ?g" by code_simp
  ultimately show ?thesis unfolding demoGate_def by (rule gr_release)
qed


text \<open>
  C26: the last handler to settle resolves every waiting \<open>close\<close>, and a \<open>close\<close> made when none is
  left is resolved at once; releasing a permit again changes nothing.
\<close>

theorem mcp_gate_close_resolves:
  assumes "gateReach g" "ga_closed g" "unsettled g = {permit}"
  shows "ga_waiters (releaseGate permit g) = [] \<and>
    set (ga_resolved (releaseGate permit g)) = {..<ga_promises g} \<and>
    releaseGate permit (releaseGate permit g) = releaseGate permit g \<and>
    snd (closeGate (releaseGate permit g)) \<in> set (ga_resolved (fst (closeGate (releaseGate permit g))))"
proof -
  have mem: "permit < ga_admitted g" "permit \<notin> set (ga_released g)"
    using assms(3) by (auto simp: unsettled_def)
  let ?g = "releaseGate permit g"
  have reach: "gateReach ?g" by (rule gr_release[OF assms(1) mem(1)])
  have out: "ga_outstanding g = 1" using gateReach_ok[OF assms(1)] assms(3) by (simp add: gateOk_def)
  then have "ga_outstanding ?g = 0" "ga_closed ?g" "ga_waiters ?g = []" "permit \<in> set (ga_released ?g)"
    "ga_promises ?g = ga_promises g"
    using mem assms(2) by (simp_all add: releaseGate_def settleIfDrained_def)
  then show ?thesis
    using gateReach_ok[OF reach]
    by (auto simp: gateOk_def closeGate_def Let_def settleIfDrained_def releaseGate_def)
qed

theorem mcp_gate_close_resolves_witness:
  "ga_waiters (releaseGate 1 demoGate) = [] \<and>
   set (ga_resolved (releaseGate 1 demoGate)) = {..<ga_promises demoGate}"
proof -
  have facts: "ga_closed demoGate" "ga_admitted demoGate = 2" "set (ga_released demoGate) = {0}" by code_simp+
  have "unsettled demoGate = {1}" unfolding unsettled_def facts(2,3) by auto
  from mcp_gate_close_resolves[OF demoGate_reach facts(1) this] show ?thesis by blast
qed

end
