(* ===== verification/SessionPhase.thy ===== *)
theory SessionPhase
  imports Wmp_Prelude
begin

text \<open>
  The lifecycles of the relay session manager
  (\<^verbatim>\<open>apps/server/src/relay/session-phase.ts\<close>): the handshake phase of one node socket and the
  manager's own running, draining, disposed state.

  The holder of a phase is a record with the log of the timers \<^verbatim>\<open>clearTimeout\<close> was called
  on. What a registered node's features, terminal identity and routing verdicts are is left to the
  type parameters \<open>'f\<close>, \<open>'i\<close> and \<open>'r\<close>: this component only carries them.
\<close>

record ('f, 'i, 'r) registeredNode =
  rn_nodeId :: ident
  rn_slug :: string
  rn_connectionGeneration :: int
  rn_protocolVersion :: string
  rn_nodeVersion :: "string option"
  rn_features :: 'f
  rn_terminalPublicKey :: string
  rn_terminalIdentity :: "'i option"
  rn_routingEvaluation :: 'r

datatype 'n sessionPhase =
    AwaitingHello string nat
  | Registering nat
  | Registered 'n
  | Ready 'n
  | Closed "'n option"

record 'n phaseHolder =
  ph_phase :: "'n sessionPhase"
  ph_cleared :: "nat list"

definition awaitingHello :: "string \<Rightarrow> nat \<Rightarrow> 'n sessionPhase" where
  "awaitingHello nonce deadline = AwaitingHello nonce deadline"

definition beginRegistration :: "'n phaseHolder \<Rightarrow> 'n phaseHolder \<times> string option" where
  "beginRegistration h =
     (case ph_phase h of
        AwaitingHello nonce deadline \<Rightarrow> (h\<lparr>ph_phase := Registering deadline\<rparr>, Some nonce)
      | _ \<Rightarrow> (h, None))"

definition installRegistered :: "'n \<Rightarrow> 'n phaseHolder \<Rightarrow> 'n phaseHolder \<times> bool" where
  "installRegistered node h =
     (case ph_phase h of
        Registering deadline \<Rightarrow>
          (h\<lparr>ph_phase := Registered node, ph_cleared := ph_cleared h @ [deadline]\<rparr>, True)
      | _ \<Rightarrow> (h, False))"

definition acknowledgeHello :: "'n phaseHolder \<Rightarrow> 'n phaseHolder \<times> bool" where
  "acknowledgeHello h =
     (case ph_phase h of
        Registered node \<Rightarrow> (h\<lparr>ph_phase := Ready node\<rparr>, True)
      | _ \<Rightarrow> (h, False))"

definition closePhase :: "'n phaseHolder \<Rightarrow> 'n phaseHolder \<times> bool \<times> 'n option" where
  "closePhase h =
     (case ph_phase h of
        Closed _ \<Rightarrow> (h, False, None)
      | AwaitingHello _ deadline \<Rightarrow>
          (h\<lparr>ph_phase := Closed None, ph_cleared := ph_cleared h @ [deadline]\<rparr>, True, None)
      | Registering deadline \<Rightarrow>
          (h\<lparr>ph_phase := Closed None, ph_cleared := ph_cleared h @ [deadline]\<rparr>, True, None)
      | Registered node \<Rightarrow> (h\<lparr>ph_phase := Closed (Some node)\<rparr>, True, Some node)
      | Ready node \<Rightarrow> (h\<lparr>ph_phase := Closed (Some node)\<rparr>, True, Some node))"

fun preRegistration :: "'n sessionPhase \<Rightarrow> bool" where
  "preRegistration (AwaitingHello _ _) = True"
| "preRegistration (Registering _) = True"
| "preRegistration _ = False"

fun registeredNodeOf :: "'n sessionPhase \<Rightarrow> 'n option" where
  "registeredNodeOf (AwaitingHello _ _) = None"
| "registeredNodeOf (Registering _) = None"
| "registeredNodeOf (Registered node) = Some node"
| "registeredNodeOf (Ready node) = Some node"
| "registeredNodeOf (Closed node) = node"

fun liveNode :: "'n sessionPhase \<Rightarrow> 'n option" where
  "liveNode (Registered node) = Some node"
| "liveNode (Ready node) = Some node"
| "liveNode _ = None"

fun readyNode :: "'n sessionPhase \<Rightarrow> 'n option" where
  "readyNode (Ready node) = Some node"
| "readyNode _ = None"

datatype managerLifecycle = Running | Draining | Disposed

fun LIFECYCLE_ORDER :: "managerLifecycle \<Rightarrow> nat" where
  "LIFECYCLE_ORDER Running = 0"
| "LIFECYCLE_ORDER Draining = 1"
| "LIFECYCLE_ORDER Disposed = 2"

definition advanceLifecycle :: "managerLifecycle \<Rightarrow> managerLifecycle \<Rightarrow> managerLifecycle" where
  "advanceLifecycle current new = (if LIFECYCLE_ORDER new > LIFECYCLE_ORDER current then new else current)"

subsection \<open>Runs of a socket\<close>

datatype 'n phaseCall = CallBegin | CallInstall 'n | CallAcknowledge | CallClose

text \<open>A call and whether it took effect, by what it returns.\<close>

definition phaseStep :: "'n phaseCall \<Rightarrow> 'n phaseHolder \<Rightarrow> 'n phaseHolder \<times> bool" where
  "phaseStep call h =
     (case call of
        CallBegin \<Rightarrow> map_prod id (\<lambda>nonce. nonce \<noteq> None) (beginRegistration h)
      | CallInstall node \<Rightarrow> installRegistered node h
      | CallAcknowledge \<Rightarrow> acknowledgeHello h
      | CallClose \<Rightarrow> map_prod id fst (closePhase h))"

fun runPhase :: "'n phaseCall list \<Rightarrow> 'n phaseHolder \<Rightarrow> 'n phaseHolder \<times> 'n phaseCall list" where
  "runPhase [] h = (h, [])"
| "runPhase (call # calls) h =
     (let (h1, took) = phaseStep call h;
          (h2, taken) = runPhase calls h1
      in (h2, if took then call # taken else taken))"

text \<open>The calls a phase still allows, in order.\<close>

inductive phaseLanguage :: "'n sessionPhase \<Rightarrow> 'n phaseCall list \<Rightarrow> 'n sessionPhase \<Rightarrow> bool" where
    pl_stay: "phaseLanguage p [] p"
  | pl_begin: "phaseLanguage (Registering d) calls p \<Longrightarrow>
      phaseLanguage (AwaitingHello nonce d) (CallBegin # calls) p"
  | pl_install: "phaseLanguage (Registered node) calls p \<Longrightarrow>
      phaseLanguage (Registering d) (CallInstall node # calls) p"
  | pl_acknowledge: "phaseLanguage (Ready node) calls p \<Longrightarrow>
      phaseLanguage (Registered node) (CallAcknowledge # calls) p"
  | pl_close: "\<not> (\<exists>node. p = Closed node) \<Longrightarrow>
      phaseLanguage p [CallClose] (Closed (registeredNodeOf p))"

inductive_cases language_closed: "phaseLanguage (Closed node) calls p"
inductive_cases language_ready: "phaseLanguage (Ready node) calls p"
inductive_cases language_registered: "phaseLanguage (Registered node) calls p"
inductive_cases language_registering: "phaseLanguage (Registering d) calls p"
inductive_cases language_awaiting: "phaseLanguage (AwaitingHello nonce d) calls p"

lemma language_close:
  "phaseLanguage (AwaitingHello nonce d) [CallClose] (Closed None)"
  "phaseLanguage (Registering d) [CallClose] (Closed None)"
  "phaseLanguage (Registered node) [CallClose] (Closed (Some node))"
  "phaseLanguage (Ready node) [CallClose] (Closed (Some node))"
  using pl_close[of "AwaitingHello nonce d"] pl_close[of "Registering d"] pl_close[of "Registered node"]
    pl_close[of "Ready node"] by simp_all

lemma phaseStep_language:
  assumes "phaseStep call h = (h1, took)"
  shows "(\<not> took \<longrightarrow> h1 = h) \<and>
    (took \<longrightarrow> (\<forall>calls p. phaseLanguage (ph_phase h1) calls p \<longrightarrow> phaseLanguage (ph_phase h) (call # calls) p))"
  using assms
  by (cases call; cases "ph_phase h")
     (auto simp: phaseStep_def beginRegistration_def installRegistered_def acknowledgeHello_def
        closePhase_def intro: phaseLanguage.intros language_close elim!: language_closed)

lemma runPhase_language:
  "phaseLanguage (ph_phase h) (snd (runPhase calls h)) (ph_phase (fst (runPhase calls h)))"
proof (induction calls arbitrary: h)
  case Nil
  show ?case by (simp add: pl_stay)
next
  case (Cons call calls)
  obtain h1 took where step: "phaseStep call h = (h1, took)" by fastforce
  from phaseStep_language[OF step] Cons.IH[of h1] show ?case
    by (auto simp: step Let_def case_prod_unfold)
qed

text \<open>The registration deadline is cleared exactly when the session leaves its handshake.\<close>

definition deadlineOk :: "nat \<Rightarrow> 'n phaseHolder \<Rightarrow> bool" where
  "deadlineOk d h \<longleftrightarrow>
     (case ph_phase h of
        AwaitingHello _ d' \<Rightarrow> d' = d \<and> ph_cleared h = []
      | Registering d' \<Rightarrow> d' = d \<and> ph_cleared h = []
      | _ \<Rightarrow> ph_cleared h = [d])"

lemma phaseStep_deadline: "deadlineOk d h \<Longrightarrow> deadlineOk d (fst (phaseStep call h))"
  by (cases call; cases "ph_phase h")
     (auto simp: deadlineOk_def phaseStep_def beginRegistration_def installRegistered_def
        acknowledgeHello_def closePhase_def)

lemma runPhase_deadline: "deadlineOk d h \<Longrightarrow> deadlineOk d (fst (runPhase calls h))"
  by (induction calls arbitrary: h) (auto simp: Let_def case_prod_unfold phaseStep_deadline)

text \<open>The words of the language from the start, spelt out.\<close>

lemma language_words:
  assumes "phaseLanguage (AwaitingHello nonce d) calls p"
  shows "\<exists>node k. calls = take k [CallBegin, CallInstall node, CallAcknowledge] @
      (if \<exists>n. p = Closed n then [CallClose] else []) \<and> k \<le> 3 \<and>
    registeredNodeOf p = (if 2 \<le> k then Some node else None) \<and>
    readyNode p = (if k = 3 \<and> \<not> (\<exists>n. p = Closed n) then Some node else None)"
  using assms
proof (cases rule: language_awaiting [consumes 1])
  case 1
  show ?thesis by (rule exI[of _ undefined], rule exI[of _ 0]) (use 1 in simp)
next
  case (2 calls1)
  from 2(2) show ?thesis
  proof (cases rule: language_registering [consumes 1])
    case 1
    show ?thesis by (rule exI[of _ undefined], rule exI[of _ 1]) (use 1 2 in simp)
  next
    case (2 node calls2)
    note began = \<open>calls = CallBegin # calls1\<close> and install = 2
    from 2(2) show ?thesis
    proof (cases rule: language_registered [consumes 1])
      case 1
      show ?thesis by (rule exI[of _ node], rule exI[of _ 2]) (use 1 began install in simp)
    next
      case (2 calls3)
      note ack = 2
      show ?thesis
        by (rule exI[of _ node], rule exI[of _ 3], rule language_ready[OF ack(2)])
           (use began install ack in simp_all)
    next
      case 3
      show ?thesis by (rule exI[of _ node], rule exI[of _ 2]) (use 3 began install in simp)
    qed
  next
    case 3
    show ?thesis by (rule exI[of _ undefined], rule exI[of _ 1]) (use 3 2 in simp)
  qed
next
  case 3
  show ?thesis by (rule exI[of _ undefined], rule exI[of _ 0]) (use 3 in simp)
qed

text \<open>
  C27: whatever calls a socket's frames cause, those that take effect spell a prefix of begin,
  install, acknowledge, followed by at most one close. So the challenge nonce is handed out at most
  once and never after a close, the session names the node that was installed and no other, it is
  ready only after the acknowledgement and before the close, and the registration deadline is
  cleared exactly once, when the session leaves its handshake.
\<close>

theorem session_phase_protocol:
  fixes calls :: "'n phaseCall list"
  assumes "runPhase calls \<lparr>ph_phase = awaitingHello nonce d, ph_cleared = []\<rparr> = (h, taken)"
  shows "(\<exists>node k. taken = take k [CallBegin, CallInstall node, CallAcknowledge] @
      (if \<exists>n. ph_phase h = Closed n then [CallClose] else []) \<and> k \<le> 3 \<and>
      registeredNodeOf (ph_phase h) = (if 2 \<le> k then Some node else None) \<and>
      readyNode (ph_phase h) = (if k = 3 \<and> \<not> (\<exists>n. ph_phase h = Closed n) then Some node else None)) \<and>
    ph_cleared h = (if preRegistration (ph_phase h) then [] else [d])"
proof -
  let ?h0 = "\<lparr>ph_phase = awaitingHello nonce d, ph_cleared = []\<rparr> :: 'n phaseHolder"
  have "phaseLanguage (AwaitingHello nonce d) taken (ph_phase h)"
    using runPhase_language[of ?h0 calls] assms by (simp add: awaitingHello_def)
  note words = language_words[OF this]
  have "deadlineOk d ?h0" by (simp add: deadlineOk_def awaitingHello_def)
  from runPhase_deadline[OF this, of calls] have "deadlineOk d h" by (simp only: assms fst_conv)
  then have "ph_cleared h = (if preRegistration (ph_phase h) then [] else [d])"
    by (cases "ph_phase h") (auto simp: deadlineOk_def)
  with words show ?thesis by blast
qed

theorem session_phase_protocol_witness:
  "ph_cleared (fst (runPhase [CallBegin, CallBegin, CallInstall (1 :: nat), CallClose, CallInstall 2]
      \<lparr>ph_phase = awaitingHello ''nonce'' 7, ph_cleared = []\<rparr>)) = [7]"
proof -
  let ?calls = "[CallBegin, CallBegin, CallInstall (1 :: nat), CallClose, CallInstall 2]"
  let ?h0 = "\<lparr>ph_phase = awaitingHello ''nonce'' 7, ph_cleared = []\<rparr> :: nat phaseHolder"
  have "runPhase ?calls ?h0 =
      (\<lparr>ph_phase = Closed (Some 1), ph_cleared = [7]\<rparr>, [CallBegin, CallInstall 1, CallClose])"
    by (simp add: phaseStep_def beginRegistration_def installRegistered_def closePhase_def awaitingHello_def)
  from session_phase_protocol[OF this] this show ?thesis by simp
qed

subsection \<open>The manager's lifecycle\<close>

lemma LIFECYCLE_ORDER_inj: "LIFECYCLE_ORDER a = LIFECYCLE_ORDER b \<longleftrightarrow> a = b"
  by (cases a; cases b) auto

instantiation managerLifecycle :: linorder
begin

definition less_eq_managerLifecycle :: "managerLifecycle \<Rightarrow> managerLifecycle \<Rightarrow> bool" where
  "less_eq_managerLifecycle a b \<longleftrightarrow> LIFECYCLE_ORDER a \<le> LIFECYCLE_ORDER b"

definition less_managerLifecycle :: "managerLifecycle \<Rightarrow> managerLifecycle \<Rightarrow> bool" where
  "less_managerLifecycle a b \<longleftrightarrow> LIFECYCLE_ORDER a < LIFECYCLE_ORDER b"

instance
  by standard (auto simp: less_eq_managerLifecycle_def less_managerLifecycle_def LIFECYCLE_ORDER_inj)

end

lemma advanceLifecycle_max: "advanceLifecycle current new = max current new"
  by (auto simp: advanceLifecycle_def max_def less_eq_managerLifecycle_def LIFECYCLE_ORDER_inj)


end
