(* ===== verification/LeaseOwner.thy ===== *)
theory LeaseOwner
  imports Wmp_Prelude
begin

text \<open>
  The owner of a capacity lease from admission to the end of its response, and the request scope
  that releases owners a route forgot (\<^verbatim>\<open>apps/server/src/model-api/capacity/lease-owner.ts\<close>,
  \<^verbatim>\<open>lease-loss.ts\<close>, \<^verbatim>\<open>request-scope.ts\<close>).

  The synchronous stretches of the code are the operations: the constructor, \<open>heartbeat\<close> up to
  its query, what follows a query that answered or threw, the wake-up from a retry backoff, the
  timers, and \<open>release\<close>. A timer is the instant it is due; a query in flight carries its retry
  number and its start, a backoff its retry number and the instant it ends. \<open>lo_acked\<close> is the
  start of the query acknowledged last (the construction before any was) and \<open>lo_dbUntil\<close> the
  expiry the database wrote for it: they are not read by the code.
\<close>

subsection \<open>Losses\<close>

datatype leaseLossKind =
  OwnershipLost | HeartbeatTimeout | HeartbeatFailed | MaxLifetime | RequestScopeClosed

datatype abortReason = LeaseLost leaseLossKind | ParentAborted | PlainRelease

definition isCapacityLeaseLost :: "abortReason \<Rightarrow> bool" where
  "isCapacityLeaseLost reason \<longleftrightarrow> (case reason of LeaseLost _ \<Rightarrow> True | _ \<Rightarrow> False)"

text \<open>A signal is the reason it was aborted with, if it was.\<close>

definition capacityLeaseLostSignal :: "abortReason option option \<Rightarrow> bool" where
  "capacityLeaseLostSignal signal \<longleftrightarrow>
     (case signal of Some (Some reason) \<Rightarrow> isCapacityLeaseLost reason | _ \<Rightarrow> False)"

definition precommitLeaseLost :: "abortReason option \<Rightarrow> abortReason option option \<Rightarrow> bool \<Rightarrow> bool" where
  "precommitLeaseLost error leaseSignal clientAborted \<longleftrightarrow>
     \<not> clientAborted \<and>
     ((case error of None \<Rightarrow> False | Some e \<Rightarrow> isCapacityLeaseLost e) \<or> capacityLeaseLostSignal leaseSignal)"

record localTerminal =
  lt_ok :: bool
  lt_failure :: "string option"

definition servedLocalTerminal :: "localTerminal \<Rightarrow> bool \<Rightarrow> localTerminal" where
  "servedLocalTerminal terminal leaseLost =
     (if \<not> leaseLost then terminal
      else if lt_ok terminal \<or> lt_failure terminal = None \<or> lt_failure terminal = Some ''unknown''
      then terminal\<lparr>lt_ok := False, lt_failure := Some ''capacity_lease_lost''\<rparr>
      else terminal)"

subsection \<open>Release with retries\<close>

datatype releaseOutcome = ReleaseAcknowledged | ReleaseNotAcknowledged | ReleaseThrew

definition RELEASE_RETRY_DELAYS_MS :: "millis list" where
  "RELEASE_RETRY_DELAYS_MS = [0, 25, 100, 250]"

text \<open>The loop over the delays: \<open>store n\<close> is what the \<open>n\<close>-th call of \<^verbatim>\<open>store.release\<close>
  does; the result is what is returned, the calls made and the time waited.\<close>

fun releaseLoop :: "millis list \<Rightarrow> (nat \<Rightarrow> releaseOutcome) \<Rightarrow> nat \<Rightarrow> millis \<Rightarrow> bool \<times> nat \<times> millis" where
  "releaseLoop [] store calls waited = (False, calls, waited)"
| "releaseLoop (delay # delays) store calls waited =
     (if store calls = ReleaseAcknowledged then (True, calls + 1, waited + delay)
      else releaseLoop delays store (calls + 1) (waited + delay))"

definition releaseCapacityLeaseWithRetry :: "(nat \<Rightarrow> releaseOutcome) \<Rightarrow> bool \<times> nat \<times> millis" where
  "releaseCapacityLeaseWithRetry store = releaseLoop RELEASE_RETRY_DELAYS_MS store 0 0"

subsection \<open>The owner\<close>

definition CAPACITY_HEARTBEAT_RETRY_DELAYS_MS :: "millis list" where
  "CAPACITY_HEARTBEAT_RETRY_DELAYS_MS = [1000, 2000, 4000]"

definition CAPACITY_HEARTBEAT_RETRY_MARGIN_MS :: millis where
  "CAPACITY_HEARTBEAT_RETRY_MARGIN_MS = 2000"

definition MODEL_API_RELAY_TIMEOUT_MS :: millis where
  "MODEL_API_RELAY_TIMEOUT_MS = 15 * 60 * 1000"

definition CAPACITY_LEASE_MAX_LIFETIME_MS :: millis where
  "CAPACITY_LEASE_MAX_LIFETIME_MS = MODEL_API_RELAY_TIMEOUT_MS + 60000"

record leaseOwner =
  lo_timer :: bool
  lo_heartbeatRunning :: bool
  lo_watchdog :: "millis option"
  lo_lifetimeCap :: "millis option"
  lo_acknowledgedUntil :: millis
  lo_query :: "(nat \<times> millis) option"
  lo_backoff :: "(nat \<times> millis) option"
  lo_listening :: bool
  lo_releases :: nat
  lo_stopped :: bool
  lo_reason :: "abortReason option"
  lo_acked :: millis
  lo_dbUntil :: "millis option"

definition releaseOwner :: "abortReason \<Rightarrow> millis \<Rightarrow> leaseOwner \<Rightarrow> leaseOwner" where
  "releaseOwner reason now o1 =
     (if lo_releases o1 > 0 then o1
      else o1\<lparr>lo_stopped := True, lo_timer := False, lo_watchdog := None, lo_lifetimeCap := None,
              lo_backoff := map_option (\<lambda>(retry, _). (retry, now)) (lo_backoff o1),
              lo_listening := False, lo_releases := lo_releases o1 + 1, lo_reason := Some reason\<rparr>)"

definition watchOwnership :: "millis \<Rightarrow> millis \<Rightarrow> leaseOwner \<Rightarrow> leaseOwner" where
  "watchOwnership milliseconds now o1 = o1\<lparr>lo_watchdog := Some (now + max 0 milliseconds)\<rparr>"

definition heartbeatStart :: "millis \<Rightarrow> leaseOwner \<Rightarrow> leaseOwner" where
  "heartbeatStart now o1 =
     (if lo_stopped o1 \<or> lo_heartbeatRunning o1 then o1
      else o1\<lparr>lo_heartbeatRunning := True, lo_query := Some (0, now)\<rparr>)"

text \<open>The \<^verbatim>\<open>finally\<close> of \<open>heartbeat\<close>.\<close>

definition heartbeatEnd :: "leaseOwner \<Rightarrow> leaseOwner" where
  "heartbeatEnd o1 = o1\<lparr>lo_heartbeatRunning := False, lo_query := None, lo_backoff := None\<rparr>"

definition heartbeatThrew :: "nat \<Rightarrow> millis \<Rightarrow> leaseOwner \<Rightarrow> leaseOwner" where
  "heartbeatThrew retry now o1 =
     (if lo_stopped o1 then heartbeatEnd o1
      else
        let delay = CAPACITY_HEARTBEAT_RETRY_DELAYS_MS !
              min retry (length CAPACITY_HEARTBEAT_RETRY_DELAYS_MS - 1);
            remaining = lo_acknowledgedUntil o1 - now
        in if remaining \<le> delay + CAPACITY_HEARTBEAT_RETRY_MARGIN_MS
           then heartbeatEnd (releaseOwner (LeaseLost HeartbeatFailed) now o1)
           else o1\<lparr>lo_query := None, lo_backoff := Some (retry, now + delay)\<rparr>)"

definition heartbeatRetry :: "nat \<Rightarrow> millis \<Rightarrow> leaseOwner \<Rightarrow> leaseOwner" where
  "heartbeatRetry retry now o1 =
     (if lo_stopped o1 then heartbeatEnd o1
      else o1\<lparr>lo_backoff := None, lo_query := Some (retry + 1, now)\<rparr>)"

text \<open>A query started at \<open>startedAt\<close> answers at \<open>now\<close>; when it retained the lease the database
  extended it at \<open>granted\<close>.\<close>

definition heartbeatAnswered ::
    "millis \<Rightarrow> bool \<Rightarrow> millis \<Rightarrow> millis \<Rightarrow> millis \<Rightarrow> leaseOwner \<Rightarrow> leaseOwner" where
  "heartbeatAnswered extensionMs retained granted startedAt now o1 =
     (if lo_stopped o1 then heartbeatEnd o1
      else if \<not> retained then heartbeatEnd (releaseOwner (LeaseLost OwnershipLost) now o1)
      else
        let acknowledgedUntil = startedAt + extensionMs;
            remaining = acknowledgedUntil - now
        in if remaining \<le> 0 then heartbeatEnd (releaseOwner (LeaseLost HeartbeatTimeout) now o1)
           else heartbeatEnd (watchOwnership remaining now
                  (o1\<lparr>lo_acknowledgedUntil := acknowledgedUntil, lo_acked := startedAt,
                      lo_dbUntil := Some (granted + extensionMs)\<rparr>)))"

record ownerOptions =
  oo_heartbeatIntervalMs :: millis
  oo_leaseExtensionMs :: millis
  oo_renewOnStart :: bool
  oo_maxLifetimeMs :: "millis option"
  oo_hasParent :: bool

text \<open>The constructor. \<open>scopeClosed\<close>: its request scope is closed already, which releases it.\<close>

definition newOwner :: "ownerOptions \<Rightarrow> bool \<Rightarrow> bool \<Rightarrow> millis \<Rightarrow> leaseOwner" where
  "newOwner opts scopeClosed parentAborted now =
     (let beats = oo_heartbeatIntervalMs opts > 0;
          o1 = \<lparr>lo_timer = beats, lo_heartbeatRunning = False, lo_watchdog = None,
            lo_lifetimeCap = (case oo_maxLifetimeMs opts of
                None \<Rightarrow> None | Some ms \<Rightarrow> if ms > 0 then Some (now + ms) else None),
            lo_acknowledgedUntil = now + oo_leaseExtensionMs opts, lo_query = None, lo_backoff = None,
            lo_listening = False, lo_releases = 0, lo_stopped = False, lo_reason = None,
            lo_acked = now, lo_dbUntil = None\<rparr>;
          o2 = (if beats then watchOwnership (oo_leaseExtensionMs opts) now o1 else o1);
          o3 = (if scopeClosed then releaseOwner (LeaseLost RequestScopeClosed) now o2 else o2);
          o4 = o3\<lparr>lo_listening := oo_hasParent opts\<rparr>;
          o5 = (if oo_hasParent opts \<and> parentAborted then releaseOwner ParentAborted now o4 else o4)
      in if oo_renewOnStart opts then heartbeatStart now o5 else o5)"

definition watchdogFires :: "millis \<Rightarrow> leaseOwner \<Rightarrow> leaseOwner" where
  "watchdogFires now o1 = releaseOwner (LeaseLost HeartbeatTimeout) now (o1\<lparr>lo_watchdog := None\<rparr>)"

definition lifetimeCapFires :: "millis \<Rightarrow> leaseOwner \<Rightarrow> leaseOwner" where
  "lifetimeCapFires now o1 = releaseOwner (LeaseLost MaxLifetime) now (o1\<lparr>lo_lifetimeCap := None\<rparr>)"

definition parentAborts :: "millis \<Rightarrow> leaseOwner \<Rightarrow> leaseOwner" where
  "parentAborts now o1 =
     (if lo_listening o1 then releaseOwner ParentAborted now (o1\<lparr>lo_listening := False\<rparr>) else o1)"

inductive ownerStep :: "ownerOptions \<Rightarrow> millis \<Rightarrow> leaseOwner \<Rightarrow> leaseOwner \<Rightarrow> bool" for opts now where
    os_tick: "lo_timer o1 \<Longrightarrow> ownerStep opts now o1 (heartbeatStart now o1)"
  | os_threw: "lo_query o1 = Some (retry, startedAt) \<Longrightarrow> ownerStep opts now o1 (heartbeatThrew retry now o1)"
  | os_retry: "lo_backoff o1 = Some (retry, wakeAt) \<Longrightarrow> wakeAt \<le> now \<Longrightarrow>
      ownerStep opts now o1 (heartbeatRetry retry now o1)"
  | os_answered: "lo_query o1 = Some (retry, startedAt) \<Longrightarrow> startedAt \<le> granted \<Longrightarrow> granted \<le> now \<Longrightarrow>
      ownerStep opts now o1 (heartbeatAnswered (oo_leaseExtensionMs opts) retained granted startedAt now o1)"
  | os_watchdog: "lo_watchdog o1 = Some due \<Longrightarrow> due \<le> now \<Longrightarrow> ownerStep opts now o1 (watchdogFires now o1)"
  | os_cap: "lo_lifetimeCap o1 = Some due \<Longrightarrow> due \<le> now \<Longrightarrow> ownerStep opts now o1 (lifetimeCapFires now o1)"
  | os_abort: "ownerStep opts now o1 (parentAborts now o1)"
  | os_release: "ownerStep opts now o1 (releaseOwner reason now o1)"

inductive ownerReach :: "ownerOptions \<Rightarrow> leaseOwner \<Rightarrow> bool" for opts where
    or_new: "ownerReach opts (newOwner opts scopeClosed parentAborted now)"
  | or_step: "ownerReach opts o1 \<Longrightarrow> ownerStep opts now o1 o2 \<Longrightarrow> ownerReach opts o2"

subsection \<open>Invariant\<close>

definition ownerOk :: "ownerOptions \<Rightarrow> leaseOwner \<Rightarrow> bool" where
  "ownerOk opts o1 \<longleftrightarrow>
     lo_releases o1 = (if lo_stopped o1 then 1 else 0) \<and>
     (lo_stopped o1 \<longleftrightarrow> lo_reason o1 \<noteq> None) \<and>
     (lo_stopped o1 \<longrightarrow> \<not> lo_timer o1 \<and> lo_watchdog o1 = None \<and> lo_lifetimeCap o1 = None) \<and>
     (\<not> lo_stopped o1 \<longrightarrow>
        lo_acknowledgedUntil o1 = lo_acked o1 + oo_leaseExtensionMs opts \<and>
        (oo_heartbeatIntervalMs opts > 0 \<longrightarrow> lo_watchdog o1 \<noteq> None) \<and>
        (\<forall>due. lo_watchdog o1 = Some due \<longrightarrow> due = lo_acknowledgedUntil o1) \<and>
        (\<forall>retry wakeAt. lo_backoff o1 = Some (retry, wakeAt) \<longrightarrow>
           wakeAt + CAPACITY_HEARTBEAT_RETRY_MARGIN_MS < lo_acknowledgedUntil o1) \<and>
        (\<forall>dbUntil. lo_dbUntil o1 = Some dbUntil \<longrightarrow> lo_acknowledgedUntil o1 \<le> dbUntil)) \<and>
     (lo_query o1 = None \<or> lo_backoff o1 = None) \<and>
     (lo_heartbeatRunning o1 \<longleftrightarrow> lo_query o1 \<noteq> None \<or> lo_backoff o1 \<noteq> None)"

lemma ownerOk_stopped:
  "ownerOk opts o1 \<Longrightarrow> lo_releases o1 > 0 \<longleftrightarrow> lo_stopped o1"
  by (auto simp: ownerOk_def split: if_splits)

lemma ownerOk_release: "ownerOk opts o1 \<Longrightarrow> ownerOk opts (releaseOwner reason now o1)"
  by (cases "lo_stopped o1") (auto simp: ownerOk_def releaseOwner_def)

lemma releaseOwner_stops: "ownerOk opts o1 \<Longrightarrow> lo_stopped (releaseOwner reason now o1)"
  by (auto simp: releaseOwner_def dest: ownerOk_stopped)

lemma ownerOk_end: "ownerOk opts o1 \<Longrightarrow> ownerOk opts (heartbeatEnd o1)"
  by (auto simp: ownerOk_def heartbeatEnd_def)

lemma ownerOk_start: "ownerOk opts o1 \<Longrightarrow> ownerOk opts (heartbeatStart now o1)"
  by (auto simp: ownerOk_def heartbeatStart_def)

lemma ownerOk_threw:
  assumes "ownerOk opts o1" "lo_query o1 = Some (retry, startedAt)"
  shows "ownerOk opts (heartbeatThrew retry now o1)"
proof -
  let ?delay = "CAPACITY_HEARTBEAT_RETRY_DELAYS_MS ! min retry (length CAPACITY_HEARTBEAT_RETRY_DELAYS_MS - 1)"
  consider (stop) "lo_stopped o1"
    | (lost) "\<not> lo_stopped o1"
        "lo_acknowledgedUntil o1 - now \<le> ?delay + CAPACITY_HEARTBEAT_RETRY_MARGIN_MS"
    | (wait) "\<not> lo_stopped o1"
        "\<not> lo_acknowledgedUntil o1 - now \<le> ?delay + CAPACITY_HEARTBEAT_RETRY_MARGIN_MS"
    by blast
  then show ?thesis
  proof cases
    case wait
    then show ?thesis using assms by (auto simp: heartbeatThrew_def Let_def ownerOk_def)
  qed (use assms in \<open>simp_all add: heartbeatThrew_def Let_def ownerOk_end ownerOk_release\<close>)
qed

lemma ownerOk_retry:
  "ownerOk opts o1 \<Longrightarrow> lo_backoff o1 = Some (retry, wakeAt) \<Longrightarrow> ownerOk opts (heartbeatRetry retry now o1)"
  by (cases "lo_stopped o1") (auto simp: heartbeatRetry_def ownerOk_end, auto simp: ownerOk_def)

lemma ownerOk_answered:
  assumes "ownerOk opts o1" "startedAt \<le> granted"
  shows "ownerOk opts (heartbeatAnswered (oo_leaseExtensionMs opts) retained granted startedAt now o1)"
proof -
  let ?until = "startedAt + oo_leaseExtensionMs opts"
  consider (stop) "lo_stopped o1 \<or> \<not> retained \<or> ?until - now \<le> 0"
    | (kept) "\<not> lo_stopped o1" "retained" "\<not> ?until - now \<le> 0" by blast
  then show ?thesis
  proof cases
    case stop
    then show ?thesis using assms by (auto simp: heartbeatAnswered_def Let_def ownerOk_end ownerOk_release)
  next
    case kept
    then show ?thesis using assms
      by (auto simp: heartbeatAnswered_def Let_def heartbeatEnd_def watchOwnership_def ownerOk_def)
  qed
qed

lemma ownerOk_timer_gone:
  assumes "ownerOk opts o1"
  shows "ownerOk opts (releaseOwner reason now (o1\<lparr>lo_watchdog := None\<rparr>))"
    "ownerOk opts (releaseOwner reason now (o1\<lparr>lo_lifetimeCap := None\<rparr>))"
    "ownerOk opts (releaseOwner reason now (o1\<lparr>lo_listening := False\<rparr>))"
  using assms by (cases "lo_stopped o1"; auto simp: ownerOk_def releaseOwner_def)+

lemma ownerOk_step: "ownerStep opts now o1 o2 \<Longrightarrow> ownerOk opts o1 \<Longrightarrow> ownerOk opts o2"
  by (induction rule: ownerStep.induct)
     (auto simp: ownerOk_start ownerOk_threw ownerOk_retry ownerOk_answered watchdogFires_def
        lifetimeCapFires_def parentAborts_def ownerOk_timer_gone ownerOk_release)

lemma ownerOk_new:
  assumes "0 \<le> oo_leaseExtensionMs opts"
  shows "ownerOk opts (newOwner opts scopeClosed parentAborted now)"
proof -
  let ?beats = "oo_heartbeatIntervalMs opts > 0"
  let ?o1 = "\<lparr>lo_timer = ?beats, lo_heartbeatRunning = False,
      lo_watchdog = (if ?beats then Some (now + oo_leaseExtensionMs opts) else None),
      lo_lifetimeCap = (case oo_maxLifetimeMs opts of
          None \<Rightarrow> None | Some ms \<Rightarrow> if ms > 0 then Some (now + ms) else None),
      lo_acknowledgedUntil = now + oo_leaseExtensionMs opts, lo_query = None, lo_backoff = None,
      lo_listening = False, lo_releases = 0, lo_stopped = False, lo_reason = None,
      lo_acked = now, lo_dbUntil = None\<rparr>"
  have ok: "ownerOk opts ?o1" by (simp add: ownerOk_def)
  have listen: "ownerOk opts (o1\<lparr>lo_listening := b\<rparr>) = ownerOk opts o1" for o1 :: leaseOwner and b
    by (simp add: ownerOk_def)
  have "newOwner opts scopeClosed parentAborted now =
    (let o3 = (if scopeClosed then releaseOwner (LeaseLost RequestScopeClosed) now ?o1 else ?o1);
         o4 = o3\<lparr>lo_listening := oo_hasParent opts\<rparr>;
         o5 = (if oo_hasParent opts \<and> parentAborted then releaseOwner ParentAborted now o4 else o4)
     in if oo_renewOnStart opts then heartbeatStart now o5 else o5)"
    using assms by (simp add: newOwner_def Let_def watchOwnership_def max_def)
  then show ?thesis using ok by (simp add: Let_def ownerOk_release ownerOk_start listen)
qed

lemma ownerReach_ok: "ownerReach opts o1 \<Longrightarrow> 0 \<le> oo_leaseExtensionMs opts \<Longrightarrow> ownerOk opts o1"
  by (induction rule: ownerReach.induct) (auto intro: ownerOk_new ownerOk_step)


definition demoOwner :: ownerOptions where
  "demoOwner = \<lparr>oo_heartbeatIntervalMs = 10000, oo_leaseExtensionMs = 30000, oo_renewOnStart = True,
     oo_maxLifetimeMs = Some CAPACITY_LEASE_MAX_LIFETIME_MS, oo_hasParent = True\<rparr>"

text \<open>Created at 0 with a renewal, which answers at 40 after the database extended the lease at 20.\<close>

definition demoLease :: leaseOwner where
  "demoLease = heartbeatAnswered 30000 True 20 0 40 (newOwner demoOwner False False 0)"

lemma demoLease_reach: "ownerReach demoOwner demoLease"
proof -
  have "lo_query (newOwner demoOwner False False 0) = Some (0, 0)" by code_simp
  from os_answered[OF this, of 20 40 demoOwner True] show ?thesis
    unfolding demoLease_def
    by (intro or_step[OF or_new]) (simp_all add: demoOwner_def)
qed


text \<open>
  C31: an owner is released once and for good: its store release is started at most once, exactly
  when it stopped; no timer of a stopped owner is armed, no later event revives it or changes the
  reason dispatches were aborted with; and a heartbeat that ends afterwards changes nothing but its
  own bookkeeping.
\<close>

theorem lease_released_once:
  assumes "ownerReach opts o1" "0 \<le> oo_leaseExtensionMs opts" "ownerStep opts now o1 o2"
  shows "lo_releases o1 = (if lo_stopped o1 then 1 else 0) \<and>
    (lo_stopped o1 \<longrightarrow> \<not> lo_timer o1 \<and> lo_watchdog o1 = None \<and> lo_lifetimeCap o1 = None \<and>
       lo_stopped o2 \<and> lo_reason o2 = lo_reason o1 \<and> lo_acknowledgedUntil o2 = lo_acknowledgedUntil o1)"
proof -
  have ok: "ownerOk opts o1" by (rule ownerReach_ok[OF assms(1,2)])
  have "lo_stopped o2 \<and> lo_reason o2 = lo_reason o1 \<and> lo_acknowledgedUntil o2 = lo_acknowledgedUntil o1"
    if stopped: "lo_stopped o1"
  proof -
    have rel: "lo_releases o1 > 0" using ownerOk_stopped[OF ok] stopped by blast
    from assms(3) show ?thesis
      by cases (use stopped rel in \<open>auto simp: heartbeatStart_def heartbeatThrew_def heartbeatRetry_def
          heartbeatAnswered_def heartbeatEnd_def watchdogFires_def lifetimeCapFires_def parentAborts_def
          releaseOwner_def\<close>)
  qed
  with ok show ?thesis by (simp add: ownerOk_def)
qed

theorem lease_released_once_witness:
  "lo_stopped (releaseOwner PlainRelease 60 (watchdogFires 30000 demoLease)) \<and>
   lo_reason (releaseOwner PlainRelease 60 (watchdogFires 30000 demoLease)) = Some (LeaseLost HeartbeatTimeout)"
proof -
  have due: "lo_watchdog demoLease = Some 30000" by code_simp
  have reach: "ownerReach demoOwner (watchdogFires 30000 demoLease)"
    by (rule or_step[OF demoLease_reach os_watchdog[OF due]]) simp
  have "lo_stopped (watchdogFires 30000 demoLease)" "0 \<le> oo_leaseExtensionMs demoOwner"
    "lo_reason (watchdogFires 30000 demoLease) = Some (LeaseLost HeartbeatTimeout)" by code_simp+
  with lease_released_once[OF reach _ os_release] show ?thesis by simp
qed

subsection \<open>Release retries\<close>

lemma releaseLoop_spec:
  assumes "releaseLoop delays store calls waited = (acked, calls', waited')"
  shows "(acked \<longleftrightarrow> (\<exists>i < length delays. store (calls + i) = ReleaseAcknowledged)) \<and>
    calls' \<le> calls + length delays \<and>
    (acked \<longrightarrow> calls < calls' \<and> store (calls' - 1) = ReleaseAcknowledged) \<and>
    (\<forall>i. calls \<le> i \<and> i + 1 < calls' \<longrightarrow> store i \<noteq> ReleaseAcknowledged) \<and>
    waited' = waited + sum_list (take (calls' - calls) delays) \<and> calls \<le> calls'"
  using assms
proof (induction delays store calls waited rule: releaseLoop.induct)
  case (2 delay delays store calls waited)
  show ?case
  proof (cases "store calls = ReleaseAcknowledged")
    case True
    with 2(2) show ?thesis by (auto intro: exI[of _ 0])
  next
    case False
    with 2(2) have loop: "releaseLoop delays store (calls + 1) (waited + delay) = (acked, calls', waited')" by simp
    note IH = 2(1)[OF False loop]
    have "(\<exists>i < length (delay # delays). store (calls + i) = ReleaseAcknowledged) \<longleftrightarrow>
        (\<exists>i < length delays. store (calls + 1 + i) = ReleaseAcknowledged)"
      using False by (auto simp: less_Suc_eq_0_disj)
    moreover have "store i \<noteq> ReleaseAcknowledged" if "calls \<le> i" "i + 1 < calls'" for i
      using IH that False by (cases "i = calls") auto
    moreover have "take (calls' - calls) (delay # delays) = delay # take (calls' - (calls + 1)) delays"
    proof -
      have "calls' - calls = Suc (calls' - (calls + 1))" using IH by arith
      then show ?thesis by simp
    qed
    ultimately show ?thesis using IH by auto
  qed
qed auto

text \<open>
  C32: releasing tries at most four times, waits at most 375 ms in all, stops at the first
  acknowledgement, and reports success exactly when one of the four calls was acknowledged.
\<close>

theorem release_retry_bounded:
  "case releaseCapacityLeaseWithRetry store of (acked, calls, waited) \<Rightarrow>
     (acked \<longleftrightarrow> (\<exists>i < 4. store i = ReleaseAcknowledged)) \<and> calls \<le> 4 \<and>
     (\<forall>i. i + 1 < calls \<longrightarrow> store i \<noteq> ReleaseAcknowledged) \<and> 0 \<le> waited \<and> waited \<le> 375"
proof -
  obtain acked calls waited where r: "releaseLoop RELEASE_RETRY_DELAYS_MS store 0 0 = (acked, calls, waited)"
    by (metis prod_cases3)
  note spec = releaseLoop_spec[OF r]
  have "calls \<le> 4" using spec by (simp add: RELEASE_RETRY_DELAYS_MS_def)
  then have "calls \<in> {0, 1, 2, 3, 4}" by auto
  moreover have "waited = sum_list (take calls RELEASE_RETRY_DELAYS_MS)" using spec by simp
  ultimately have "0 \<le> waited \<and> waited \<le> 375"
    by (auto simp: RELEASE_RETRY_DELAYS_MS_def numeral_eq_Suc)
  moreover have "length RELEASE_RETRY_DELAYS_MS = 4" by (simp add: RELEASE_RETRY_DELAYS_MS_def)
  ultimately show ?thesis
    using spec unfolding releaseCapacityLeaseWithRetry_def r prod.case by simp
qed

theorem release_retry_bounded_witness:
  "case releaseCapacityLeaseWithRetry (\<lambda>n. if n = 1 then ReleaseAcknowledged else ReleaseThrew) of
     (acked, calls, waited) \<Rightarrow> acked \<and> calls = 2 \<and> waited = 25 \<and> calls \<le> 4 \<and> waited \<le> 375"
  using release_retry_bounded[of "\<lambda>n. if n = 1 then ReleaseAcknowledged else ReleaseThrew"]
  by (simp add: releaseCapacityLeaseWithRetry_def RELEASE_RETRY_DELAYS_MS_def)

subsection \<open>The request scope\<close>

text \<open>
  A scope and the owners created in it, by creation number. \<open>register\<close> of a closed scope releases
  the new owner, which is the \<open>scopeClosed\<close> argument of the constructor.
\<close>

record requestScope =
  rq_registered :: "nat js_set"
  rq_closing :: bool
  rq_owners :: "leaseOwner list"

definition newScope :: requestScope where
  "newScope = \<lparr>rq_registered = [], rq_closing = False, rq_owners = []\<rparr>"

definition createOwner :: "ownerOptions \<Rightarrow> bool \<Rightarrow> millis \<Rightarrow> requestScope \<Rightarrow> requestScope" where
  "createOwner opts parentAborted now sc =
     (let owner = newOwner opts (rq_closing sc) parentAborted now;
          sc1 = (if rq_closing sc then sc
                 else sc\<lparr>rq_registered := js_add (length (rq_owners sc)) (rq_registered sc)\<rparr>)
      in sc1\<lparr>rq_owners := rq_owners sc1 @ [owner]\<rparr>)"

definition closeScope :: "millis \<Rightarrow> requestScope \<Rightarrow> requestScope" where
  "closeScope now sc =
     (if rq_closing sc then sc
      else
        let leaked = filter (\<lambda>i. \<not> lo_stopped (rq_owners sc ! i)) (rq_registered sc)
        in sc\<lparr>rq_registered := [], rq_closing := True,
              rq_owners := fold (\<lambda>i owners. owners[i := releaseOwner (LeaseLost RequestScopeClosed) now (owners ! i)])
                leaked (rq_owners sc)\<rparr>)"

inductive scopeReach :: "ownerOptions \<Rightarrow> requestScope \<Rightarrow> bool" for opts where
    sc_new: "scopeReach opts newScope"
  | sc_create: "scopeReach opts sc \<Longrightarrow> scopeReach opts (createOwner opts parentAborted now sc)"
  | sc_owner: "scopeReach opts sc \<Longrightarrow> i < length (rq_owners sc) \<Longrightarrow>
      ownerStep opts now (rq_owners sc ! i) o2 \<Longrightarrow> scopeReach opts (sc\<lparr>rq_owners := (rq_owners sc)[i := o2]\<rparr>)"
  | sc_close: "scopeReach opts sc \<Longrightarrow> scopeReach opts (closeScope now sc)"

definition scopeOk :: "ownerOptions \<Rightarrow> requestScope \<Rightarrow> bool" where
  "scopeOk opts sc \<longleftrightarrow>
     (\<forall>i < length (rq_owners sc). ownerOk opts (rq_owners sc ! i) \<and>
        (if rq_closing sc then lo_stopped (rq_owners sc ! i) else i \<in> set (rq_registered sc))) \<and>
     (\<forall>i \<in> set (rq_registered sc). i < length (rq_owners sc))"

lemma ownerStep_stays_stopped:
  assumes "ownerOk opts o1" "ownerStep opts now o1 o2" "lo_stopped o1"
  shows "lo_stopped o2"
proof -
  have rel: "lo_releases o1 > 0" using ownerOk_stopped[OF assms(1)] assms(3) by blast
  from assms(2) show ?thesis
    by cases (use assms(3) rel in \<open>auto simp: heartbeatStart_def heartbeatThrew_def heartbeatRetry_def
        heartbeatAnswered_def heartbeatEnd_def watchdogFires_def lifetimeCapFires_def parentAborts_def
        releaseOwner_def\<close>)
qed

lemma newOwner_scope_closed: "lo_stopped (newOwner opts True parentAborted now)"
  by (auto simp: newOwner_def Let_def releaseOwner_def heartbeatStart_def watchOwnership_def)

lemma release_all:
  assumes "\<forall>i < length owners. ownerOk opts (owners ! i)" "\<forall>i \<in> set ids. i < length owners"
  shows "let owners' = fold (\<lambda>i owners. owners[i := releaseOwner reason now (owners ! i)]) ids owners
    in length owners' = length owners \<and>
       (\<forall>i < length owners. ownerOk opts (owners' ! i) \<and>
          (i \<in> set ids \<or> lo_stopped (owners ! i) \<longrightarrow> lo_stopped (owners' ! i)))"
  using assms
proof (induction ids arbitrary: owners)
  case (Cons i ids)
  let ?owners = "owners[i := releaseOwner reason now (owners ! i)]"
  have i: "i < length owners" "ownerOk opts (owners ! i)" using Cons.prems by auto
  have ok: "\<forall>j < length ?owners. ownerOk opts (?owners ! j)"
    using Cons.prems ownerOk_release[OF i(2)] by (auto simp: nth_list_update)
  have stop: "lo_stopped (?owners ! j)" if "j = i \<or> lo_stopped (owners ! j)" "j < length owners" for j
    using that releaseOwner_stops[OF i(2)] i(1) by (auto simp: nth_list_update)
  from Cons.IH[OF ok] Cons.prems(2) stop show ?case by (auto simp: Let_def)
qed simp

lemma scopeReach_ok:
  assumes "scopeReach opts sc" "0 \<le> oo_leaseExtensionMs opts"
  shows "scopeOk opts sc"
  using assms
proof (induction rule: scopeReach.induct)
  case sc_new
  then show ?case by (simp add: scopeOk_def newScope_def)
next
  case (sc_create sc parentAborted now)
  then show ?case
    using ownerOk_new[OF sc_create.prems] newOwner_scope_closed
    by (auto simp: scopeOk_def createOwner_def Let_def nth_append less_Suc_eq)
next
  case (sc_owner sc i now o2)
  then have ok: "scopeOk opts sc" by simp
  then have "ownerOk opts (rq_owners sc ! i)" using sc_owner.hyps(2) by (simp add: scopeOk_def)
  with ok sc_owner.hyps(2,3) show ?case
    by (auto simp: scopeOk_def nth_list_update ownerOk_step ownerStep_stays_stopped)
next
  case (sc_close sc now)
  then have ok: "scopeOk opts sc" by simp
  show ?case
  proof (cases "rq_closing sc")
    case False
    let ?leaked = "filter (\<lambda>i. \<not> lo_stopped (rq_owners sc ! i)) (rq_registered sc)"
    have "\<forall>i < length (rq_owners sc). i \<in> set ?leaked \<or> lo_stopped (rq_owners sc ! i)"
      using ok False by (auto simp: scopeOk_def)
    moreover have "\<forall>i < length (rq_owners sc). ownerOk opts (rq_owners sc ! i)"
      "\<forall>i \<in> set ?leaked. i < length (rq_owners sc)" using ok by (auto simp: scopeOk_def)
    note release_all[OF this, of "LeaseLost RequestScopeClosed" now]
    ultimately show ?thesis using False by (auto simp: scopeOk_def closeScope_def Let_def)
  qed (use ok in \<open>simp add: closeScope_def\<close>)
qed

text \<open>
  C30: no lease outlives its request. Once a request scope has closed, every owner ever created in
  it has been released, those created after the close included, and each store release was started
  exactly once.
\<close>

theorem scope_releases_all:
  assumes "scopeReach opts sc" "0 \<le> oo_leaseExtensionMs opts" "rq_closing sc" "owner \<in> set (rq_owners sc)"
  shows "lo_stopped owner \<and> lo_releases owner = 1 \<and> lo_watchdog owner = None \<and> \<not> lo_timer owner"
proof -
  obtain i where "i < length (rq_owners sc)" "owner = rq_owners sc ! i"
    using assms(4) by (auto simp: in_set_conv_nth)
  then show ?thesis
    using scopeReach_ok[OF assms(1,2)] assms(3) by (auto simp: scopeOk_def ownerOk_def)
qed

theorem scope_releases_all_witness:
  "lo_stopped (hd (rq_owners (closeScope 50 (createOwner demoOwner False 0 newScope))))"
proof -
  let ?sc = "closeScope 50 (createOwner demoOwner False 0 newScope)"
  have "scopeReach demoOwner ?sc" by (intro scopeReach.intros)
  moreover have "0 \<le> oo_leaseExtensionMs demoOwner" "rq_closing ?sc" "rq_owners ?sc \<noteq> []" by code_simp+
  ultimately show ?thesis using scope_releases_all list.set_sel(1) by blast
qed

end
