(* ===== verification/NodeEventHub.thy ===== *)
theory NodeEventHub
  imports Wmp_Prelude
begin

text \<open>
  The browser's node event streams (\<^verbatim>\<open>apps/server/src/node-events/hub.ts\<close> and the admission
  sequence of \<^verbatim>\<open>route.ts\<close>).

  A subscriber is named by its number in \<open>hb_subs\<close>. Its stream controller is the bytes queued
  unread (\<open>sb_queued\<close>), whether the stream broke underneath (\<open>sb_broken\<close>), and the frames it was
  given (\<open>sb_frames\<close>). The byte length of an encoded frame is the parameter \<open>byteLength\<close>, and the time
  stamp of a node frame an argument. \<open>hb_awaiting\<close> lists the reservations whose session row the
  route is still reading: each of them is activated or released once.
\<close>

definition NODE_EVENTS_PING_MS :: millis where
  "NODE_EVENTS_PING_MS = 25000"

definition NODE_EVENTS_RETRY_MS :: millis where
  "NODE_EVENTS_RETRY_MS = 3000"

definition NODE_EVENTS_MAX_QUEUED_BYTES :: nat where
  "NODE_EVENTS_MAX_QUEUED_BYTES = 64 * 1024"

record nodeEventLimits =
  nl_perUser :: nat
  nl_perServer :: nat

definition NODE_EVENTS_LIMITS :: nodeEventLimits where
  "NODE_EVENTS_LIMITS = \<lparr>nl_perUser = 16, nl_perServer = 2048\<rparr>"

datatype unauthorizedReason = SessionEnded | AccessBlocked | TwoFactorRequired | UserDeletionPending

datatype sessionVerdict = VerdictOk | VerdictEnded | VerdictBlocked | VerdictTwoFactorRequired

datatype nodeEvent =
    NodeConnection ident ident bool "int option"
  | NodeTrust ident ident
  | NodeAgentUpdate ident ident
  | NodeAdded ident ident
  | NodeRemoved ident ident

fun eventUser :: "nodeEvent \<Rightarrow> ident" where
  "eventUser (NodeConnection userId _ _ _) = userId"
| "eventUser (NodeTrust userId _) = userId"
| "eventUser (NodeAgentUpdate userId _) = userId"
| "eventUser (NodeAdded userId _) = userId"
| "eventUser (NodeRemoved userId _) = userId"

datatype hubFrame =
    FrameRetry millis
  | FrameHello
  | FrameNode nodeEvent string
  | FrameUnauthorized unauthorizedReason
  | FramePing

datatype subscriberState = SubPending | SubOpen | SubClosed

record subscriber =
  sb_userId :: ident
  sb_sessionId :: ident
  sb_impersonatedBy :: "ident option"
  sb_state :: subscriberState
  sb_controller :: bool
  sb_queued :: nat
  sb_broken :: bool
  sb_frames :: "hubFrame list"
  sb_streamClosed :: bool

record hub =
  hb_byUser :: "(ident, nat js_set) js_map"
  hb_total :: int
  hb_closing :: bool
  hb_pingTimer :: bool
  hb_subs :: "subscriber list"
  hb_awaiting :: "nat list"

definition newHub :: hub where
  "newHub = \<lparr>hb_byUser = [], hb_total = 0, hb_closing = False, hb_pingTimer = False, hb_subs = [],
     hb_awaiting = []\<rparr>"

subsection \<open>Operations\<close>

abbreviation sub :: "hub \<Rightarrow> nat \<Rightarrow> subscriber" where
  "sub h i \<equiv> hb_subs h ! i"

abbreviation updateSub :: "nat \<Rightarrow> (subscriber \<Rightarrow> subscriber) \<Rightarrow> hub \<Rightarrow> hub" where
  "updateSub i f h \<equiv> h\<lparr>hb_subs := (hb_subs h)[i := f (hb_subs h ! i)]\<rparr>"

definition allSubs :: "hub \<Rightarrow> nat list" where
  "allSubs h = concat (js_values (hb_byUser h))"

definition forgetSub :: "nat \<Rightarrow> hub \<Rightarrow> hub" where
  "forgetSub i h =
     (let userId = sb_userId (sub h i)
      in case js_get (hb_byUser h) userId of
           None \<Rightarrow> h
         | Some ids \<Rightarrow>
             if i \<notin> set ids then h
             else
               let ids' = remove1 i ids
               in h\<lparr>hb_total := hb_total h - 1,
                    hb_byUser := (if ids' = [] then js_del userId (hb_byUser h)
                                  else js_put userId ids' (hb_byUser h)),
                    hb_pingTimer := (if hb_total h - 1 = 0 then False else hb_pingTimer h)\<rparr>)"

definition endSub :: "unauthorizedReason option \<Rightarrow> nat \<Rightarrow> hub \<Rightarrow> hub" where
  "endSub reason i h =
     (let wasOpen = (sb_state (sub h i) = SubOpen);
          hadController = sb_controller (sub h i);
          h1 = updateSub i (\<lambda>s. s\<lparr>sb_state := SubClosed, sb_controller := False\<rparr>) h;
          h2 = forgetSub i h1
      in if \<not> wasOpen \<or> \<not> hadController then h2
         else if sb_broken (sub h2 i) then h2
         else updateSub i (\<lambda>s. s\<lparr>sb_frames := sb_frames s @
                (case reason of None \<Rightarrow> [] | Some r \<Rightarrow> [FrameUnauthorized r]),
                sb_streamClosed := True\<rparr>) h2)"

definition desiredSize :: "subscriber \<Rightarrow> int" where
  "desiredSize s =
     (if sb_broken s then 0 else int NODE_EVENTS_MAX_QUEUED_BYTES - int (sb_queued s))"

definition enqueueFrame :: "(hubFrame \<Rightarrow> nat) \<Rightarrow> hubFrame \<Rightarrow> subscriber \<Rightarrow> subscriber" where
  "enqueueFrame byteLength frame s =
     s\<lparr>sb_frames := sb_frames s @ [frame], sb_queued := sb_queued s + byteLength frame\<rparr>"

definition writeSub :: "(hubFrame \<Rightarrow> nat) \<Rightarrow> hubFrame \<Rightarrow> nat \<Rightarrow> hub \<Rightarrow> hub" where
  "writeSub byteLength frame i h =
     (if sb_state (sub h i) \<noteq> SubOpen \<or> \<not> sb_controller (sub h i) then h
      else if desiredSize (sub h i) < int (byteLength frame) then endSub None i h
      else if sb_broken (sub h i) then endSub None i h
      else updateSub i (enqueueFrame byteLength frame) h)"

definition pendingSub :: "ident \<Rightarrow> ident \<Rightarrow> ident option \<Rightarrow> subscriber" where
  "pendingSub userId sessionId impersonatedBy =
     \<lparr>sb_userId = userId, sb_sessionId = sessionId, sb_impersonatedBy = impersonatedBy,
      sb_state = SubPending, sb_controller = False, sb_queued = 0, sb_broken = False,
      sb_frames = [], sb_streamClosed = False\<rparr>"

datatype reserveRefusal = UserLimit | ServerLimit | HubClosing

definition reserveSub ::
    "nodeEventLimits \<Rightarrow> ident \<Rightarrow> ident \<Rightarrow> ident option \<Rightarrow> hub \<Rightarrow> hub \<times> (reserveRefusal + nat)" where
  "reserveSub limits userId sessionId impersonatedBy h =
     (if hb_closing h then (h, Inl HubClosing)
      else if hb_total h \<ge> int (nl_perServer limits) then (h, Inl ServerLimit)
      else
        let own = js_get (hb_byUser h) userId
        in if (case own of None \<Rightarrow> 0 | Some ids \<Rightarrow> length ids) \<ge> nl_perUser limits then (h, Inl UserLimit)
           else
             let i = length (hb_subs h);
                 s = pendingSub userId sessionId impersonatedBy
             in (h\<lparr>hb_subs := hb_subs h @ [s],
                   hb_byUser := js_put userId (case own of None \<Rightarrow> [i] | Some ids \<Rightarrow> js_add i ids) (hb_byUser h),
                   hb_total := hb_total h + 1, hb_awaiting := i # hb_awaiting h\<rparr>, Inr i))"

definition releaseSub :: "nat \<Rightarrow> hub \<Rightarrow> hub" where
  "releaseSub i h = (forgetSub i h)\<lparr>hb_awaiting := removeAll i (hb_awaiting h)\<rparr>"

definition ensurePing :: "hub \<Rightarrow> hub" where
  "ensurePing h = (if hb_pingTimer h \<or> hb_closing h then h else h\<lparr>hb_pingTimer := True\<rparr>)"

definition activateSub :: "(hubFrame \<Rightarrow> nat) \<Rightarrow> nat \<Rightarrow> hub \<Rightarrow> hub \<times> bool" where
  "activateSub byteLength i h =
     (let h0 = h\<lparr>hb_awaiting := removeAll i (hb_awaiting h)\<rparr>
      in if sb_state (sub h i) \<noteq> SubPending then (h0, False)
         else (ensurePing (updateSub i (\<lambda>s. enqueueFrame byteLength FrameHello
                 (enqueueFrame byteLength (FrameRetry NODE_EVENTS_RETRY_MS)
                   (s\<lparr>sb_controller := True, sb_state := SubOpen\<rparr>))) h0), True))"

text \<open>The stream's \<^verbatim>\<open>cancel\<close> callback: the browser went away.\<close>

definition cancelSub :: "nat \<Rightarrow> hub \<Rightarrow> hub" where
  "cancelSub i h = forgetSub i (updateSub i (\<lambda>s. s\<lparr>sb_state := SubClosed, sb_controller := False\<rparr>) h)"

definition publishEvent :: "(hubFrame \<Rightarrow> nat) \<Rightarrow> nodeEvent \<Rightarrow> string \<Rightarrow> hub \<Rightarrow> hub" where
  "publishEvent byteLength event at h =
     (case js_get (hb_byUser h) (eventUser event) of
        None \<Rightarrow> h
      | Some ids \<Rightarrow> fold (writeSub byteLength (FrameNode event at)) ids h)"

definition pingAll :: "(hubFrame \<Rightarrow> nat) \<Rightarrow> hub \<Rightarrow> hub" where
  "pingAll byteLength h = fold (writeSub byteLength FramePing) (allSubs h) h"

definition endSession :: "ident \<Rightarrow> unauthorizedReason \<Rightarrow> hub \<Rightarrow> hub" where
  "endSession sessionId reason h =
     fold (endSub (Some reason)) (filter (\<lambda>i. sb_sessionId (sub h i) = sessionId) (allSubs h)) h"

definition closeUser :: "ident \<Rightarrow> unauthorizedReason \<Rightarrow> hub \<Rightarrow> hub" where
  "closeUser userId reason h =
     fold (endSub (Some reason))
       (filter (\<lambda>i. sb_userId (sub h i) = userId \<or> sb_impersonatedBy (sub h i) = Some userId) (allSubs h)) h"

definition closeAll :: "hub \<Rightarrow> hub" where
  "closeAll h =
     (let h1 = h\<lparr>hb_closing := True\<rparr>
      in (fold (endSub None) (allSubs h1) h1)\<lparr>hb_pingTimer := False\<rparr>)"

text \<open>
  \<^verbatim>\<open>recheckSessions\<close> takes the open sessions, each with its first subscriber, and ends those
  whose check does not answer ok; a check that threw is None. Other calls may run between two
  checks, so each is a step of its own.
\<close>

definition recheckList :: "hub \<Rightarrow> (ident \<times> nat) list" where
  "recheckList h =
     fold (\<lambda>i sessions. if sb_state (sub h i) = SubOpen \<and> \<not> js_has sessions (sb_sessionId (sub h i))
             then js_put (sb_sessionId (sub h i)) i sessions else sessions) (allSubs h) []"

definition recheckSession :: "ident \<Rightarrow> sessionVerdict option \<Rightarrow> hub \<Rightarrow> hub" where
  "recheckSession sessionId verdict h =
     (case verdict of
        None \<Rightarrow> h
      | Some VerdictOk \<Rightarrow> h
      | Some VerdictEnded \<Rightarrow> endSession sessionId SessionEnded h
      | Some VerdictBlocked \<Rightarrow> endSession sessionId AccessBlocked h
      | Some VerdictTwoFactorRequired \<Rightarrow> endSession sessionId TwoFactorRequired h)"

subsection \<open>Steps\<close>

inductive hubStep :: "nodeEventLimits \<Rightarrow> (hubFrame \<Rightarrow> nat) \<Rightarrow> hub \<Rightarrow> hub \<Rightarrow> bool" for limits byteLength where
    hs_reserve: "hubStep limits byteLength h (fst (reserveSub limits userId sessionId impersonatedBy h))"
  | hs_release: "i \<in> set (hb_awaiting h) \<Longrightarrow> hubStep limits byteLength h (releaseSub i h)"
  | hs_activate: "i \<in> set (hb_awaiting h) \<Longrightarrow> hubStep limits byteLength h (fst (activateSub byteLength i h))"
  | hs_cancel: "i < length (hb_subs h) \<Longrightarrow> sb_state (sub h i) = SubOpen \<Longrightarrow> hubStep limits byteLength h (cancelSub i h)"
  | hs_read: "i < length (hb_subs h) \<Longrightarrow> n \<le> sb_queued (sub h i) \<Longrightarrow>
      hubStep limits byteLength h (updateSub i (\<lambda>s. s\<lparr>sb_queued := n\<rparr>) h)"
  | hs_break: "i < length (hb_subs h) \<Longrightarrow> hubStep limits byteLength h (updateSub i (\<lambda>s. s\<lparr>sb_broken := True\<rparr>) h)"
  | hs_publish: "hubStep limits byteLength h (publishEvent byteLength event at h)"
  | hs_ping: "hb_pingTimer h \<Longrightarrow> hubStep limits byteLength h (pingAll byteLength h)"
  | hs_endSession: "hubStep limits byteLength h (endSession sessionId reason h)"
  | hs_closeUser: "hubStep limits byteLength h (closeUser userId reason h)"
  | hs_recheck: "hubStep limits byteLength h (recheckSession sessionId verdict h)"
  | hs_closeAll: "hubStep limits byteLength h (closeAll h)"

abbreviation hubReach :: "nodeEventLimits \<Rightarrow> (hubFrame \<Rightarrow> nat) \<Rightarrow> hub \<Rightarrow> bool" where
  "hubReach limits byteLength h \<equiv> (hubStep limits byteLength)\<^sup>*\<^sup>* newHub h"

subsection \<open>Invariant\<close>

definition registered :: "hub \<Rightarrow> nat \<Rightarrow> bool" where
  "registered h i \<longleftrightarrow>
     i < length (hb_subs h) \<and>
     (\<exists>ids. js_get (hb_byUser h) (sb_userId (sub h i)) = Some ids \<and> i \<in> set ids)"

text \<open>The index by user and the count agree, and the caps hold.\<close>

definition indexGood :: "nodeEventLimits \<Rightarrow> hub \<Rightarrow> bool" where
  "indexGood limits h \<longleftrightarrow>
     js_map_ok (hb_byUser h) \<and>
     (\<forall>userId ids. js_get (hb_byUser h) userId = Some ids \<longrightarrow>
        ids \<noteq> [] \<and> distinct ids \<and> length ids \<le> nl_perUser limits \<and>
        (\<forall>i \<in> set ids. i < length (hb_subs h) \<and> sb_userId (sub h i) = userId)) \<and>
     hb_total h = (\<Sum>ids \<leftarrow> js_values (hb_byUser h). int (length ids)) \<and>
     hb_total h \<le> int (nl_perServer limits)"

text \<open>What holds of a subscriber, except for those in \<open>X\<close> that are being closed.\<close>

definition subGood :: "hub \<Rightarrow> nat \<Rightarrow> bool" where
  "subGood h i \<longleftrightarrow>
     (sb_controller (sub h i) \<longleftrightarrow> sb_state (sub h i) = SubOpen) \<and>
     (sb_state (sub h i) = SubOpen \<longrightarrow> registered h i \<and> hb_pingTimer h) \<and>
     (registered h i \<longrightarrow> sb_state (sub h i) \<noteq> SubClosed) \<and>
     (i \<in> set (hb_awaiting h) \<longrightarrow>
        sb_state (sub h i) \<noteq> SubOpen \<and> (sb_state (sub h i) = SubPending \<longrightarrow> registered h i))"

definition hubOkBut :: "nodeEventLimits \<Rightarrow> nat set \<Rightarrow> hub \<Rightarrow> bool" where
  "hubOkBut limits X h \<longleftrightarrow>
     indexGood limits h \<and> (\<forall>i < length (hb_subs h). i \<notin> X \<longrightarrow> subGood h i) \<and>
     (\<forall>i \<in> set (hb_awaiting h). i < length (hb_subs h)) \<and>
     (hb_pingTimer h \<longrightarrow> hb_total h > 0) \<and> (hb_closing h \<longrightarrow> (\<forall>i. \<not> registered h i))"

abbreviation hubOk :: "nodeEventLimits \<Rightarrow> hub \<Rightarrow> bool" where
  "hubOk limits h \<equiv> hubOkBut limits {} h"

lemma js_values_del_sum:
  fixes f :: "'v \<Rightarrow> int"
  assumes "js_map_ok m" "js_get m k = Some v"
  shows "(\<Sum>x \<leftarrow> js_values (js_del k m). f x) = (\<Sum>x \<leftarrow> js_values m. f x) - f v"
  using assms
proof (induction m)
  case (Cons p m)
  show ?case
  proof (cases "fst p = k")
    case True
    then have "js_del k m = m" using Cons.prems(1) by (intro delete_id) auto
    with True Cons.prems show ?thesis by (cases p) auto
  next
    case False
    with Cons show ?thesis by (cases p) auto
  qed
qed simp

lemma js_values_put_sum:
  fixes f :: "'v \<Rightarrow> int"
  assumes "js_map_ok m"
  shows "(\<Sum>x \<leftarrow> js_values (js_put k v m). f x) =
    (\<Sum>x \<leftarrow> js_values m. f x) + f v - (case js_get m k of None \<Rightarrow> 0 | Some w \<Rightarrow> f w)"
  using assms
proof (induction m)
  case (Cons p m)
  show ?case
  proof (cases "fst p = k")
    case True
    with Cons.prems have "js_get m k = None" by (auto simp: map_of_eq_None_iff)
    with True Cons.prems show ?thesis by (cases p) auto
  next
    case False
    with Cons show ?thesis by (cases p) (auto split: option.splits)
  qed
qed simp

lemma registered_in_all:
  assumes "indexGood limits h"
  shows "i \<in> set (allSubs h) \<longleftrightarrow> registered h i"
proof
  assume "i \<in> set (allSubs h)"
  then obtain userId ids where "(userId, ids) \<in> set (hb_byUser h)" "i \<in> set ids"
    by (auto simp: allSubs_def)
  then show "registered h i" using assms by (auto simp: indexGood_def registered_def js_map_ok_get)
next
  assume "registered h i"
  then show "i \<in> set (allSubs h)" by (force simp: registered_def allSubs_def dest: js_get_SomeD)
qed

subsection \<open>Forgetting and ending\<close>

lemma forget_subs [simp]: "hb_subs (forgetSub i h) = hb_subs h" "hb_awaiting (forgetSub i h) = hb_awaiting h"
  "hb_closing (forgetSub i h) = hb_closing h"
  by (simp_all add: forgetSub_def Let_def split: option.splits)

lemma remove1_Nil: "remove1 i xs = [] \<Longrightarrow> j \<in> set xs \<Longrightarrow> j = i"
  by (cases xs) (auto split: if_splits)

lemma forget_registered:
  assumes "indexGood limits h"
  shows "registered (forgetSub i h) j \<longleftrightarrow> registered h j \<and> j \<noteq> i"
proof -
  have "distinct ids" if "js_get (hb_byUser h) userId = Some ids" for userId ids
    using assms that by (simp add: indexGood_def)
  then show ?thesis
    by (auto simp: registered_def forgetSub_def Let_def split: option.splits if_splits dest: remove1_Nil)
qed

lemma forget_noop: "\<not> registered h i \<Longrightarrow> i < length (hb_subs h) \<Longrightarrow> forgetSub i h = h"
  by (auto simp: forgetSub_def registered_def Let_def split: option.splits)

lemma forget_registered_eq:
  assumes "registered h i"
  obtains ids where "js_get (hb_byUser h) (sb_userId (sub h i)) = Some ids" "i \<in> set ids"
    "forgetSub i h = h\<lparr>hb_total := hb_total h - 1,
       hb_byUser := (if remove1 i ids = [] then js_del (sb_userId (sub h i)) (hb_byUser h)
                     else js_put (sb_userId (sub h i)) (remove1 i ids) (hb_byUser h)),
       hb_pingTimer := (if hb_total h - 1 = 0 then False else hb_pingTimer h)\<rparr>"
  using assms by (auto simp: registered_def forgetSub_def Let_def)

lemma forget_total:
  assumes "indexGood limits h" "i < length (hb_subs h)"
  shows "hb_total (forgetSub i h) = (if registered h i then hb_total h - 1 else hb_total h)"
    and "hb_pingTimer (forgetSub i h) =
      (if registered h i \<and> hb_total h = 1 then False else hb_pingTimer h)"
  using forget_noop[OF _ assms(2)] by (cases "registered h i"; auto elim!: forget_registered_eq)+

lemma forget_index:
  assumes good: "indexGood limits h" and i: "i < length (hb_subs h)"
  shows "indexGood limits (forgetSub i h)"
proof (cases "registered h i")
  case True
  then obtain ids where ids: "js_get (hb_byUser h) (sb_userId (sub h i)) = Some ids" "i \<in> set ids"
    and eq: "forgetSub i h = h\<lparr>hb_total := hb_total h - 1,
       hb_byUser := (if remove1 i ids = [] then js_del (sb_userId (sub h i)) (hb_byUser h)
                     else js_put (sb_userId (sub h i)) (remove1 i ids) (hb_byUser h)),
       hb_pingTimer := (if hb_total h - 1 = 0 then False else hb_pingTimer h)\<rparr>"
    by (rule forget_registered_eq)
  have ok: "js_map_ok (hb_byUser h)" using good by (simp add: indexGood_def)
  have at: "ids \<noteq> []" "distinct ids" "length ids \<le> nl_perUser limits"
    "\<forall>j \<in> set ids. j < length (hb_subs h) \<and> sb_userId (sub h j) = sb_userId (sub h i)"
    using good ids(1) by (simp_all add: indexGood_def)
  have len: "int (length (remove1 i ids)) = int (length ids) - 1"
    using ids(2) length_pos_if_in_set[OF ids(2)] by (simp add: length_remove1 of_nat_diff Suc_leI)
  have sum: "(\<Sum>ids \<leftarrow> js_values (hb_byUser (forgetSub i h)). int (length ids)) =
      (\<Sum>ids \<leftarrow> js_values (hb_byUser h). int (length ids)) - 1"
    using js_values_del_sum[OF ok ids(1), of "\<lambda>ids. int (length ids)"]
      js_values_put_sum[OF ok, of "\<lambda>ids. int (length ids)" "sb_userId (sub h i)" "remove1 i ids"] len ids(1)
    by (auto simp: eq split: if_splits)
  have get: "xs \<noteq> [] \<and> distinct xs \<and> length xs \<le> nl_perUser limits \<and>
      (\<forall>j \<in> set xs. j < length (hb_subs h) \<and> sb_userId (sub h j) = userId)"
    if look: "js_get (hb_byUser (forgetSub i h)) userId = Some xs" for userId xs
  proof (cases "userId = sb_userId (sub h i)")
    case True
    with look have xs: "xs = remove1 i ids" "xs \<noteq> []" by (auto simp: eq split: if_splits)
    have "length (remove1 i ids) \<le> length ids" by (simp add: length_remove1)
    then show ?thesis using xs at True by (auto dest: notin_set_remove1)
  next
    case False
    with look have "js_get (hb_byUser h) userId = Some xs" by (simp add: eq split: if_splits)
    then show ?thesis using good by (simp add: indexGood_def)
  qed
  have "js_map_ok (hb_byUser (forgetSub i h))" using ok by (simp add: eq distinct_update distinct_delete)
  moreover have "hb_total (forgetSub i h) = hb_total h - 1" by (simp add: eq)
  moreover have "hb_total h = (\<Sum>ids \<leftarrow> js_values (hb_byUser h). int (length ids))"
    "hb_total h \<le> int (nl_perServer limits)" using good by (simp_all add: indexGood_def)
  ultimately show ?thesis
    unfolding indexGood_def sum forget_subs using get by simp
qed (use assms forget_noop in simp)

lemma forget_ok:
  assumes "hubOkBut limits X h" "i < length (hb_subs h)"
  shows "hubOkBut limits (insert i X) (forgetSub i h)"
proof -
  have index: "indexGood limits h" and ping: "hb_pingTimer h \<longrightarrow> hb_total h > 0"
    and awaiting: "\<forall>j \<in> set (hb_awaiting h). j < length (hb_subs h)"
    using assms(1) by (simp_all add: hubOkBut_def)
  note tot = forget_total[OF index assms(2)] and reg = forget_registered[OF index]
  have "subGood (forgetSub i h) j" if "j < length (hb_subs h)" "j \<notin> insert i X" for j
  proof -
    have good: "subGood h j" using assms(1) that by (simp add: hubOkBut_def)
    have "\<not> (registered h i \<and> hb_total h = 1)" if "registered h j"
    proof
      assume both: "registered h i \<and> hb_total h = 1"
      have "hb_total (forgetSub j (forgetSub i h)) = hb_total h - 2"
        using forget_total(1)[OF forget_index[OF index assms(2)], of j] tot(1) reg that both \<open>j \<notin> insert i X\<close>
          \<open>j < length (hb_subs h)\<close> by simp
      moreover have "indexGood limits (forgetSub j (forgetSub i h))"
        using \<open>j < length (hb_subs h)\<close> by (intro forget_index index assms(2)) simp_all
      then have "0 \<le> hb_total (forgetSub j (forgetSub i h))"
        unfolding indexGood_def by (auto intro!: sum_list_nonneg)
      ultimately show False using both by simp
    qed
    then show ?thesis using good that(2) reg tot(2) by (auto simp: subGood_def)
  qed
  moreover have "hb_pingTimer (forgetSub i h) \<longrightarrow> hb_total (forgetSub i h) > 0"
    using tot ping by auto
  ultimately show ?thesis
    using forget_index[OF index assms(2)] awaiting assms(1) reg by (simp add: hubOkBut_def)
qed

text \<open>Changing a subscriber's own fields leaves the index alone.\<close>

lemma update_registered:
  assumes "sb_userId (f (sub h i)) = sb_userId (sub h i)"
  shows "registered (updateSub i f h) j = registered h j"
  using assms by (cases "i < length (hb_subs h)") (auto simp: registered_def nth_list_update)

lemma update_index:
  assumes "sb_userId (f (sub h i)) = sb_userId (sub h i)"
  shows "indexGood limits (updateSub i f h) = indexGood limits h"
proof -
  have "sb_userId (hb_subs (updateSub i f h) ! j) = sb_userId (sub h j)" for j
    using assms by (cases "i < length (hb_subs h)") (auto simp: nth_list_update not_less list_update_beyond)
  then show ?thesis by (simp add: indexGood_def)
qed

lemma update_ok:
  assumes "hubOkBut limits X h" "i < length (hb_subs h)"
    and user: "sb_userId (f (sub h i)) = sb_userId (sub h i)"
    and good: "subGood (updateSub i f h) i"
  shows "hubOkBut limits (X - {i}) (updateSub i f h)"
proof -
  have "subGood (updateSub i f h) j" if "j < length (hb_subs h)" "j \<notin> X - {i}" for j
  proof (cases "j = i")
    case False
    then have "subGood h j" using that assms(1) by (simp add: hubOkBut_def)
    with False show ?thesis unfolding subGood_def update_registered[of f h i, OF user] by simp
  qed (use good in simp)
  then show ?thesis
    using assms(1) unfolding hubOkBut_def update_index[of f h i, OF user] update_registered[of f h i, OF user]
    by simp
qed

lemma forget_update_commute:
  assumes "sb_userId (f (sub h i)) = sb_userId (sub h i)" "i < length (hb_subs h)"
  shows "forgetSub i (updateSub i f h) = updateSub i f (forgetSub i h)"
  using assms by (simp add: forgetSub_def Let_def split: option.splits)

abbreviation closeIt :: "subscriber \<Rightarrow> subscriber" where
  "closeIt s \<equiv> s\<lparr>sb_state := SubClosed, sb_controller := False\<rparr>"

lemma cancel_ok:
  assumes "hubOkBut limits X h" "i < length (hb_subs h)"
  shows "hubOkBut limits (X - {i}) (cancelSub i h)" "\<not> registered (cancelSub i h) i"
    "sb_state (sub (cancelSub i h) i) = SubClosed"
proof -
  have eq: "cancelSub i h = updateSub i closeIt (forgetSub i h)"
    unfolding cancelSub_def by (rule forget_update_commute) (simp_all add: assms(2))
  have index: "indexGood limits h" using assms(1) by (simp add: hubOkBut_def)
  have not: "\<not> registered (updateSub i closeIt (forgetSub i h)) i"
    using update_registered[of closeIt "forgetSub i h" i i] forget_registered[OF index] by simp
  show "\<not> registered (cancelSub i h) i" using not eq by simp
  show "sb_state (sub (cancelSub i h) i) = SubClosed" using assms(2) by (simp add: eq)
  have "hubOkBut limits (insert i X - {i}) (updateSub i closeIt (forgetSub i h))"
    using not assms(2) by (intro update_ok forget_ok assms) (simp_all add: subGood_def)
  then have "hubOkBut limits (insert i X - {i}) (cancelSub i h)" by (simp only: eq)
  then show "hubOkBut limits (X - {i}) (cancelSub i h)" by (simp add: insert_Diff_if)
qed

lemma endSub_cases:
  "endSub reason i h = cancelSub i h \<or>
   (\<exists>frames. endSub reason i h = updateSub i (\<lambda>s. s\<lparr>sb_frames := sb_frames s @ frames, sb_streamClosed := True\<rparr>)
      (cancelSub i h))"
  unfolding endSub_def Let_def cancelSub_def by auto

lemma endSub_ok:
  assumes "hubOk limits h" "i < length (hb_subs h)"
  shows "hubOk limits (endSub reason i h)" "\<not> registered (endSub reason i h) i"
    "sb_state (sub (endSub reason i h) i) = SubClosed"
    "length (hb_subs (endSub reason i h)) = length (hb_subs h)"
proof -
  note c = cancel_ok[OF assms]
  have len: "length (hb_subs (cancelSub i h)) = length (hb_subs h)" by (simp add: cancelSub_def)
  let ?f = "\<lambda>frames s. s\<lparr>sb_frames := sb_frames s @ frames, sb_streamClosed := True\<rparr>"
  have user: "sb_userId (?f frames s) = sb_userId s" for frames s by simp
  have good: "subGood (updateSub i (?f frames) (cancelSub i h)) i" for frames
    using c assms(2) len update_registered[of "?f frames" "cancelSub i h" i i, OF user]
    by (simp add: subGood_def hubOkBut_def)
  have "hubOk limits (updateSub i (?f frames) (cancelSub i h))" for frames
    using update_ok[OF c(1), of i "?f frames", OF _ user good] assms(2) len by simp
  with c endSub_cases[of reason i h] show "hubOk limits (endSub reason i h)" by auto
  have "\<not> registered (updateSub i (?f frames) (cancelSub i h)) i" for frames
    using c(2) update_registered[of "?f frames" "cancelSub i h" i i, OF user] by simp
  with c endSub_cases[of reason i h] show "\<not> registered (endSub reason i h) i" by auto
  show "sb_state (sub (endSub reason i h) i) = SubClosed"
    using c endSub_cases[of reason i h] assms(2) len by auto
  show "length (hb_subs (endSub reason i h)) = length (hb_subs h)"
    using endSub_cases[of reason i h] len by auto
qed

subsection \<open>Every step keeps the invariant\<close>

lemma write_ok:
  assumes "hubOk limits h" "i < length (hb_subs h)"
  shows "hubOk limits (writeSub byteLength frame i h) \<and>
    length (hb_subs (writeSub byteLength frame i h)) = length (hb_subs h)"
proof -
  let ?f = "enqueueFrame byteLength frame"
  have user: "sb_userId (?f s) = sb_userId s" for s by (simp add: enqueueFrame_def)
  have "subGood h i" using assms by (simp add: hubOkBut_def)
  then have "subGood (updateSub i ?f h) i"
    unfolding subGood_def update_registered[of ?f h i, OF user] using assms(2) by (simp add: enqueueFrame_def)
  from update_ok[of limits "{}" h i ?f, OF assms user this] have "hubOk limits (updateSub i ?f h)" by simp
  then show ?thesis using endSub_ok[OF assms] assms by (simp add: writeSub_def)
qed

lemma fold_ok:
  assumes "\<And>i h. hubOk limits h \<Longrightarrow> i < length (hb_subs h) \<Longrightarrow>
      hubOk limits (f i h) \<and> length (hb_subs (f i h)) = length (hb_subs h)"
    and "hubOk limits h" "\<forall>i \<in> set ids. i < length (hb_subs h)"
  shows "hubOk limits (fold f ids h) \<and> length (hb_subs (fold f ids h)) = length (hb_subs h)"
  using assms(2,3)
proof (induction ids arbitrary: h)
  case (Cons i ids)
  then show ?case using assms(1)[of h i] Cons.IH[of "f i h"] by simp
qed simp

lemma hubOk_index: "hubOk limits h \<Longrightarrow> indexGood limits h"
  by (simp add: hubOkBut_def)

lemma allSubs_valid: "hubOk limits h \<Longrightarrow> \<forall>i \<in> set (allSubs h). i < length (hb_subs h)"
  using registered_in_all[OF hubOk_index] by (auto simp: registered_def)

lemma user_ids_valid:
  "hubOk limits h \<Longrightarrow> js_get (hb_byUser h) userId = Some ids \<Longrightarrow>
   (\<forall>i \<in> set ids. i < length (hb_subs h) \<and> sb_userId (sub h i) = userId) \<and> distinct ids"
  by (simp add: hubOkBut_def indexGood_def)

lemma fold_write_ok:
  "hubOk limits h \<Longrightarrow> \<forall>i \<in> set ids. i < length (hb_subs h) \<Longrightarrow>
   hubOk limits (fold (writeSub byteLength frame) ids h) \<and>
   length (hb_subs (fold (writeSub byteLength frame) ids h)) = length (hb_subs h)"
  by (rule fold_ok) (rule write_ok)

lemma endSub_keeps:
  "hubOk limits h \<Longrightarrow> i < length (hb_subs h) \<Longrightarrow>
   hubOk limits (endSub reason i h) \<and> length (hb_subs (endSub reason i h)) = length (hb_subs h)"
  using endSub_ok by blast

lemma fold_end_ok:
  "hubOk limits h \<Longrightarrow> \<forall>i \<in> set ids. i < length (hb_subs h) \<Longrightarrow>
   hubOk limits (fold (endSub reason) ids h) \<and>
   length (hb_subs (fold (endSub reason) ids h)) = length (hb_subs h)"
  by (rule fold_ok) (rule endSub_keeps)

lemma reserve_ok:
  assumes "hubOk limits h"
  shows "hubOk limits (fst (reserveSub limits userId sessionId impersonatedBy h))"
proof (cases "snd (reserveSub limits userId sessionId impersonatedBy h)")
  case (Inl refusal)
  then have "fst (reserveSub limits userId sessionId impersonatedBy h) = h"
    by (auto simp: reserveSub_def Let_def split: if_splits)
  with assms show ?thesis by simp
next
  case (Inr i)
  let ?own = "js_get (hb_byUser h) userId" and ?n = "length (hb_subs h)"
  let ?ids = "case ?own of None \<Rightarrow> [?n] | Some ids \<Rightarrow> js_add ?n ids"
  define h' where "h' = fst (reserveSub limits userId sessionId impersonatedBy h)"
  from Inr have room: "\<not> hb_closing h" "hb_total h < int (nl_perServer limits)"
    "(case ?own of None \<Rightarrow> 0 | Some ids \<Rightarrow> length ids) < nl_perUser limits"
    by (auto simp: reserveSub_def Let_def split: if_splits)
  define s where "s = pendingSub userId sessionId impersonatedBy"
  have s: "sb_userId s = userId" "sb_state s = SubPending" "\<not> sb_controller s"
    by (simp_all add: s_def pendingSub_def)
  have h': "h' = h\<lparr>hb_subs := hb_subs h @ [s], hb_byUser := js_put userId ?ids (hb_byUser h),
       hb_total := hb_total h + 1, hb_awaiting := ?n # hb_awaiting h\<rparr>"
    using room by (simp add: h'_def s_def reserveSub_def Let_def)
  have index: "indexGood limits h" using assms by (rule hubOk_index)
  then have ok: "js_map_ok (hb_byUser h)" by (simp add: indexGood_def)
  have own: "ids \<noteq> [] \<and> distinct ids \<and> (\<forall>j \<in> set ids. j < ?n \<and> sb_userId (sub h j) = userId)"
    if "?own = Some ids" for ids using index that by (simp add: indexGood_def)
  then have fresh: "?n \<notin> set ids" if "?own = Some ids" for ids using that by blast
  have sum: "(\<Sum>ids \<leftarrow> js_values (hb_byUser h'). int (length ids)) = hb_total h + 1"
    using js_values_put_sum[OF ok, of "\<lambda>ids. int (length ids)" userId ?ids] index fresh
    by (auto simp: h' indexGood_def js_add_def split: option.splits)
  have entry: "ids \<noteq> [] \<and> distinct ids \<and> length ids \<le> nl_perUser limits \<and>
      (\<forall>j \<in> set ids. j < length (hb_subs h') \<and> sb_userId (sub h' j) = user)"
    if look: "js_get (hb_byUser h') user = Some ids" for user ids
  proof (cases "user = userId")
    case True
    with look have "ids = ?ids" by (simp add: h')
    with True own fresh room(3) s(1) show ?thesis
      by (auto simp: h' js_add_def nth_append less_Suc_eq split: option.splits)
  next
    case False
    with look have "js_get (hb_byUser h) user = Some ids" by (simp add: h')
    with index show ?thesis by (auto simp: indexGood_def h' nth_append less_Suc_eq)
  qed
  have good: "indexGood limits h'"
    using sum entry room(2) ok unfolding indexGood_def by (auto simp: h' distinct_update)
  have reg: "registered h' j \<longleftrightarrow> registered h j \<or> j = ?n" for j
    using s(1) by (auto simp: registered_def h' nth_append less_Suc_eq js_add_def split: option.splits)
  have "subGood h' j" if "j < length (hb_subs h')" for j
  proof (cases "j = ?n")
    case True
    then show ?thesis using s reg by (simp add: subGood_def h' nth_append)
  next
    case False
    then have "subGood h j" using that assms by (simp add: h' hubOkBut_def)
    with False that show ?thesis unfolding subGood_def reg by (simp add: h' nth_append)
  qed
  then show ?thesis
    using good assms room(1) unfolding h'_def[symmetric] by (auto simp: hubOkBut_def h')
qed

lemma awaiting_fewer:
  assumes "hubOkBut limits X h" "set xs \<subseteq> set (hb_awaiting h)"
  shows "hubOkBut limits X (h\<lparr>hb_awaiting := xs\<rparr>)"
proof -
  have "registered (h\<lparr>hb_awaiting := xs\<rparr>) j = registered h j" for j by (simp add: registered_def)
  then show ?thesis using assms by (auto simp: hubOkBut_def indexGood_def subGood_def)
qed

lemma release_ok:
  assumes "hubOk limits h" "i \<in> set (hb_awaiting h)"
  shows "hubOk limits (releaseSub i h)"
proof -
  have i: "i < length (hb_subs h)" using assms by (simp add: hubOkBut_def)
  have index: "indexGood limits h" using assms(1) by (rule hubOk_index)
  have "hubOkBut limits {i} (releaseSub i h)"
    unfolding releaseSub_def using forget_ok[OF assms(1) i] by (intro awaiting_fewer) auto
  moreover have "registered (releaseSub i h) i \<longleftrightarrow> False"
    using forget_registered[OF index, of i i] by (simp add: releaseSub_def registered_def)
  moreover have "subGood h i" using assms(1) i by (simp add: hubOkBut_def)
  then have "sb_state (sub h i) \<noteq> SubOpen" "\<not> sb_controller (sub h i)" using assms(2) by (auto simp: subGood_def)
  ultimately have "subGood (releaseSub i h) i" by (simp add: subGood_def releaseSub_def)
  with \<open>hubOkBut limits {i} (releaseSub i h)\<close> show ?thesis by (auto simp: hubOkBut_def)
qed

lemma activate_ok:
  assumes "hubOk limits h" "i \<in> set (hb_awaiting h)"
  shows "hubOk limits (fst (activateSub byteLength i h))"
proof -
  let ?h0 = "h\<lparr>hb_awaiting := removeAll i (hb_awaiting h)\<rparr>"
  have i: "i < length (hb_subs h)" and good: "subGood h i" using assms by (auto simp: hubOkBut_def)
  have ok0: "hubOk limits ?h0" using assms(1) by (rule awaiting_fewer) auto
  show ?thesis
  proof (cases "sb_state (sub h i) = SubPending")
    case True
    then have reg: "registered ?h0 i" using good assms(2) by (auto simp: subGood_def registered_def)
    then have total: "hb_total ?h0 > 0"
    proof -
      have "i < length (hb_subs ?h0)" using i by simp
      from forget_total(1)[OF hubOk_index[OF ok0] this] reg
      have "hb_total (forgetSub i ?h0) = hb_total ?h0 - 1" by simp
      moreover have "0 \<le> hb_total (forgetSub i ?h0)"
        using forget_index[OF hubOk_index[OF ok0] \<open>i < length (hb_subs ?h0)\<close>]
        unfolding indexGood_def by (auto intro!: sum_list_nonneg)
      ultimately show ?thesis by simp
    qed
    let ?h1 = "?h0\<lparr>hb_pingTimer := True\<rparr>"
    have reg1: "registered ?h1 j = registered ?h0 j" for j by (simp add: registered_def)
    have ok1: "hubOkBut limits {i} ?h1"
      using ok0 total reg1 by (auto simp: hubOkBut_def indexGood_def subGood_def)
    let ?f = "\<lambda>s. enqueueFrame byteLength FrameHello (enqueueFrame byteLength (FrameRetry NODE_EVENTS_RETRY_MS)
        (s\<lparr>sb_controller := True, sb_state := SubOpen\<rparr>))"
    have user: "sb_userId (?f s) = sb_userId s" for s by (simp add: enqueueFrame_def)
    have "subGood (updateSub i ?f ?h1) i"
      unfolding subGood_def update_registered[of ?f ?h1 i, OF user] using i reg reg1
      by (simp add: enqueueFrame_def)
    from update_ok[of limits "{i}" ?h1 i ?f, OF ok1 _ user this] i have "hubOk limits (updateSub i ?f ?h1)" by simp
    moreover have "\<not> hb_closing ?h0" using ok0 reg by (auto simp: hubOkBut_def)
    then have "ensurePing (updateSub i ?f ?h0) = updateSub i ?f ?h1" by (simp add: ensurePing_def)
    ultimately show ?thesis using True by (simp add: activateSub_def Let_def)
  qed (use ok0 in \<open>simp add: activateSub_def Let_def\<close>)
qed

lemma endSub_registered:
  assumes "hubOk limits h" "i < length (hb_subs h)"
  shows "registered (endSub reason i h) j \<longleftrightarrow> registered h j \<and> j \<noteq> i"
proof -
  have "cancelSub i h = updateSub i closeIt (forgetSub i h)"
    unfolding cancelSub_def by (rule forget_update_commute) (simp_all add: assms(2))
  then have "registered (cancelSub i h) j = registered (forgetSub i h) j"
    using update_registered[of closeIt "forgetSub i h" i j] by simp
  moreover have "registered (updateSub i (\<lambda>s. s\<lparr>sb_frames := sb_frames s @ frames, sb_streamClosed := True\<rparr>)
      (cancelSub i h)) j = registered (cancelSub i h) j" for frames by (rule update_registered) simp
  ultimately show ?thesis
    using endSub_cases[of reason i h] forget_registered[OF hubOk_index[OF assms(1)], of i j] by auto
qed

lemma fold_end_registered:
  assumes "hubOk limits h" "\<forall>i \<in> set ids. i < length (hb_subs h)"
  shows "registered (fold (endSub reason) ids h) j \<longleftrightarrow> registered h j \<and> j \<notin> set ids"
  using assms
proof (induction ids arbitrary: h)
  case (Cons i ids)
  then show ?case
    using endSub_keeps[of limits h i reason] endSub_registered[of limits h i reason j]
      Cons.IH[of "endSub reason i h"] by auto
qed simp

lemma fold_end_closing:
  "fold (endSub reason) ids (h\<lparr>hb_closing := b\<rparr>) = (fold (endSub reason) ids h)\<lparr>hb_closing := b\<rparr>"
proof (induction ids arbitrary: h)
  case (Cons i ids)
  have "endSub reason i (h\<lparr>hb_closing := b\<rparr>) = (endSub reason i h)\<lparr>hb_closing := b\<rparr>"
    by (simp add: endSub_def forgetSub_def Let_def split: option.splits)
  with Cons show ?case by simp
qed simp

lemma closeAll_alt:
  "closeAll h = (fold (endSub None) (allSubs h) h)\<lparr>hb_closing := True, hb_pingTimer := False\<rparr>"
  by (simp add: closeAll_def Let_def allSubs_def fold_end_closing)

lemma closeAll_registered:
  assumes "hubOk limits h"
  shows "\<not> registered (closeAll h) i"
proof -
  have "\<not> registered (fold (endSub None) (allSubs h) h) i"
    using fold_end_registered[OF assms allSubs_valid[OF assms]] registered_in_all[OF hubOk_index[OF assms]] by simp
  then show ?thesis by (simp add: closeAll_alt registered_def)
qed

lemma closeAll_ok:
  assumes "hubOk limits h"
  shows "hubOk limits (closeAll h)"
proof -
  let ?h1 = "fold (endSub None) (allSubs h) h"
  have ok: "hubOk limits ?h1" using fold_end_ok[OF assms allSubs_valid[OF assms]] by blast
  have none: "\<not> registered ?h1 i" for i
    using fold_end_registered[OF assms allSubs_valid[OF assms]] registered_in_all[OF hubOk_index[OF assms]] by simp
  have same: "registered (closeAll h) i = registered ?h1 i" for i by (simp add: closeAll_alt registered_def)
  have "subGood (closeAll h) i" if "i < length (hb_subs ?h1)" for i
    using ok that none[of i] unfolding subGood_def same by (auto simp: hubOkBut_def subGood_def closeAll_alt)
  then show ?thesis using ok none same
    by (auto simp: hubOkBut_def closeAll_alt indexGood_def)
qed

lemma field_ok:
  assumes "hubOk limits h" "i < length (hb_subs h)"
    and "\<And>s. sb_userId (f s) = sb_userId s" "\<And>s. sb_state (f s) = sb_state s"
      "\<And>s. sb_controller (f s) = sb_controller s"
  shows "hubOk limits (updateSub i f h)"
proof -
  have "subGood h i" using assms(1,2) by (simp add: hubOkBut_def)
  then have "subGood (updateSub i f h) i"
    unfolding subGood_def update_registered[of f h i, OF assms(3)] using assms(2,4,5) by simp
  from update_ok[of limits "{}" h i f, OF assms(1,2,3) this] show ?thesis by simp
qed

lemma fold_endSession_ok:
  assumes "hubOk limits h"
  shows "hubOk limits (fold (endSub reason) (filter P (allSubs h)) h)"
  using fold_end_ok[OF assms, of "filter P (allSubs h)" reason] allSubs_valid[OF assms] by simp

lemma hubStep_ok:
  assumes "hubStep limits byteLength h h'" "hubOk limits h"
  shows "hubOk limits h'"
  using assms
proof (induction rule: hubStep.induct)
  case (hs_cancel i h)
  then show ?case using cancel_ok(1)[of limits "{}" h i] by simp
next
  case (hs_publish h event at)
  then show ?case
    using fold_write_ok[OF hs_publish] user_ids_valid[OF hs_publish]
    by (auto simp: publishEvent_def split: option.splits)
next
  case (hs_ping h)
  then show ?case using fold_write_ok[OF hs_ping(2) allSubs_valid[OF hs_ping(2)]] by (simp add: pingAll_def)
next
  case (hs_recheck h sessionId verdict)
  then show ?case
    by (auto simp: recheckSession_def endSession_def fold_endSession_ok split: option.splits sessionVerdict.splits)
qed (auto simp: reserve_ok release_ok activate_ok closeAll_ok endSession_def closeUser_def fold_endSession_ok
      intro!: field_ok)

lemma newHub_ok: "hubOk limits newHub"
  by (simp add: hubOkBut_def indexGood_def newHub_def registered_def)

lemma hubReach_ok: "hubReach limits byteLength h \<Longrightarrow> hubOk limits h"
  by (induction rule: rtranclp_induct) (auto intro: newHub_ok hubStep_ok)

subsection \<open>What may happen to a subscriber\<close>

inductive subMove :: "(hubFrame \<Rightarrow> nat) \<Rightarrow> subscriber \<Rightarrow> subscriber \<Rightarrow> bool" for byteLength where
    sm_close: "subMove byteLength s (closeIt s)"
  | sm_end: "sb_state s = SubOpen \<Longrightarrow>
      subMove byteLength s ((closeIt s)\<lparr>sb_frames := sb_frames s @ frames, sb_streamClosed := True\<rparr>)"
  | sm_enqueue: "sb_state s = SubOpen \<Longrightarrow> int (byteLength frame) \<le> desiredSize s \<Longrightarrow> \<not> sb_broken s \<Longrightarrow>
      subMove byteLength s (enqueueFrame byteLength frame s)"
  | sm_open: "sb_state s = SubPending \<Longrightarrow>
      subMove byteLength s (enqueueFrame byteLength FrameHello (enqueueFrame byteLength
        (FrameRetry NODE_EVENTS_RETRY_MS) (s\<lparr>sb_controller := True, sb_state := SubOpen\<rparr>)))"
  | sm_read: "n \<le> sb_queued s \<Longrightarrow> subMove byteLength s (s\<lparr>sb_queued := n\<rparr>)"
  | sm_break: "subMove byteLength s (s\<lparr>sb_broken := True\<rparr>)"

abbreviation moves :: "(hubFrame \<Rightarrow> nat) \<Rightarrow> hub \<Rightarrow> hub \<Rightarrow> bool" where
  "moves byteLength h h' \<equiv> length (hb_subs h) \<le> length (hb_subs h') \<and>
     (\<forall>i < length (hb_subs h). (subMove byteLength)\<^sup>*\<^sup>* (sub h i) (sub h' i))"

lemma moves_trans: "moves byteLength h h1 \<Longrightarrow> moves byteLength h1 h2 \<Longrightarrow> moves byteLength h h2"
  by (meson order.strict_trans2 order_trans rtranclp_trans)

lemma moves_update:
  "(subMove byteLength)\<^sup>*\<^sup>* (sub h i) (f (sub h i)) \<Longrightarrow> moves byteLength h (updateSub i f h)"
  by (cases "i < length (hb_subs h)") (auto simp: nth_list_update)

lemma sub_cancel: "i < length (hb_subs h) \<Longrightarrow>
  hb_subs (cancelSub i h) = (hb_subs h)[i := closeIt (sub h i)]"
  by (simp add: cancelSub_def)

lemma sub_endSub:
  assumes "i < length (hb_subs h)"
  shows "(\<exists>s. subMove byteLength (sub h i) s \<and> sb_state s = SubClosed \<and>
    hb_subs (endSub reason i h) = (hb_subs h)[i := s])"
proof (cases "sb_state (sub h i) \<noteq> SubOpen \<or> \<not> sb_controller (sub h i) \<or> sb_broken (sub h i)")
  case True
  then have "hb_subs (endSub reason i h) = (hb_subs h)[i := closeIt (sub h i)]"
    using assms by (auto simp: endSub_def Let_def)
  then show ?thesis using sm_close by fastforce
next
  case False
  let ?frames = "case reason of None \<Rightarrow> [] | Some r \<Rightarrow> [FrameUnauthorized r]"
  have "hb_subs (endSub reason i h) =
      (hb_subs h)[i := (closeIt (sub h i))\<lparr>sb_frames := sb_frames (sub h i) @ ?frames, sb_streamClosed := True\<rparr>]"
    using assms False by (simp add: endSub_def Let_def)
  then show ?thesis using sm_end[of "sub h i" byteLength ?frames] False by fastforce
qed

lemma moves_endSub: "i < length (hb_subs h) \<Longrightarrow> moves byteLength h (endSub reason i h)"
  using sub_endSub[of i h byteLength reason] by (auto simp: nth_list_update)

lemma sub_write:
  assumes "i < length (hb_subs h)"
  shows "\<exists>s. (subMove byteLength)\<^sup>*\<^sup>* (sub h i) s \<and> hb_subs (writeSub byteLength frame i h) = (hb_subs h)[i := s] \<and>
    (sb_state (sub h i) = SubOpen \<and> sb_controller (sub h i) \<longrightarrow>
       sb_state s = SubClosed \<or> sb_state s = SubOpen \<and> sb_frames s = sb_frames (sub h i) @ [frame])"
proof -
  obtain s where s: "subMove byteLength (sub h i) s" "sb_state s = SubClosed"
    "hb_subs (endSub None i h) = (hb_subs h)[i := s]" using sub_endSub[OF assms] by blast
  consider (skip) "sb_state (sub h i) \<noteq> SubOpen \<or> \<not> sb_controller (sub h i)"
    | (full) "sb_state (sub h i) = SubOpen" "sb_controller (sub h i)"
        "desiredSize (sub h i) < int (byteLength frame) \<or> sb_broken (sub h i)"
    | (room) "sb_state (sub h i) = SubOpen" "sb_controller (sub h i)"
        "\<not> desiredSize (sub h i) < int (byteLength frame)" "\<not> sb_broken (sub h i)" by blast
  then show ?thesis
  proof cases
    case skip
    then show ?thesis by (intro exI[of _ "sub h i"]) (auto simp: writeSub_def)
  next
    case full
    then have "writeSub byteLength frame i h = endSub None i h" by (auto simp: writeSub_def)
    then show ?thesis using s by (intro exI[of _ s]) auto
  next
    case room
    then have "subMove byteLength (sub h i) (enqueueFrame byteLength frame (sub h i))"
      by (intro sm_enqueue) simp_all
    then show ?thesis using room
      by (intro exI[of _ "enqueueFrame byteLength frame (sub h i)"]) (auto simp: writeSub_def enqueueFrame_def)
  qed
qed

lemma moves_write: "i < length (hb_subs h) \<Longrightarrow> moves byteLength h (writeSub byteLength frame i h)"
  using sub_write[of i h byteLength frame] by (auto simp: nth_list_update)

lemma moves_fold:
  assumes "\<And>i h. i < length (hb_subs h) \<Longrightarrow> moves byteLength h (f i h)"
    and "\<forall>i \<in> set ids. i < length (hb_subs h)"
  shows "moves byteLength h (fold f ids h)"
  using assms(2)
proof (induction ids arbitrary: h)
  case (Cons i ids)
  have first: "moves byteLength h (f i h)" using Cons.prems by (intro assms(1)) simp
  then have "moves byteLength (f i h) (fold f ids (f i h))" using Cons.prems by (intro Cons.IH) auto
  from moves_trans[OF first this] show ?case by simp
qed simp

lemma moves_end_filter:
  "hubOk limits h \<Longrightarrow> moves byteLength h (fold (endSub reason) (filter P (allSubs h)) h)"
  using allSubs_valid by (intro moves_fold moves_endSub) auto

lemma hubStep_moves:
  assumes "hubStep limits byteLength h h'" "hubOk limits h"
  shows "moves byteLength h h'"
  using assms
proof (induction rule: hubStep.induct)
  case (hs_reserve h userId sessionId impersonatedBy)
  then show ?case by (auto simp: reserveSub_def Let_def nth_append)
next
  case (hs_release i h)
  then show ?case by (simp add: releaseSub_def)
next
  case (hs_activate i h)
  show ?case
  proof (cases "sb_state (sub h i) = SubPending")
    case True
    let ?f = "\<lambda>s. enqueueFrame byteLength FrameHello (enqueueFrame byteLength (FrameRetry NODE_EVENTS_RETRY_MS)
        (s\<lparr>sb_controller := True, sb_state := SubOpen\<rparr>))"
    have "(subMove byteLength)\<^sup>*\<^sup>* (sub h i) (?f (sub h i))" by (rule r_into_rtranclp) (rule sm_open[OF True])
    from moves_update[of byteLength h i ?f, OF this] True show ?thesis
      by (simp add: activateSub_def Let_def ensurePing_def)
  qed (simp add: activateSub_def Let_def)
next
  case (hs_cancel i h)
  then show ?case using moves_update[of byteLength h i closeIt] sm_close by (auto simp: cancelSub_def)
next
  case (hs_read i h n)
  then show ?case by (intro moves_update r_into_rtranclp sm_read)
next
  case (hs_break i h)
  then show ?case by (intro moves_update r_into_rtranclp sm_break)
next
  case (hs_publish h event at)
  show ?case
  proof (cases "js_get (hb_byUser h) (eventUser event)")
    case (Some ids)
    have "moves byteLength h (fold (writeSub byteLength (FrameNode event at)) ids h)"
      using user_ids_valid[OF hs_publish Some] by (intro moves_fold moves_write) blast+
    with Some show ?thesis by (simp add: publishEvent_def)
  qed (simp add: publishEvent_def)
next
  case (hs_ping h)
  show ?case unfolding pingAll_def
    by (rule moves_fold[OF _ allSubs_valid[OF hs_ping(2)]]) (rule moves_write)
next
  case (hs_recheck h sessionId verdict)
  have "moves byteLength h (endSession sessionId reason h)" for reason
    unfolding endSession_def by (rule moves_end_filter[OF hs_recheck])
  then show ?case by (auto simp: recheckSession_def split: option.splits sessionVerdict.splits)
next
  case (hs_closeAll h)
  have "moves byteLength h (fold (endSub None) (allSubs h) h)"
    by (rule moves_fold[OF _ allSubs_valid[OF hs_closeAll]]) (rule moves_endSub)
  then show ?case by (simp add: closeAll_alt)
next
  case (hs_endSession h sessionId reason)
  show ?case unfolding endSession_def by (rule moves_end_filter[OF hs_endSession])
next
  case (hs_closeUser h userId reason)
  show ?case unfolding closeUser_def by (rule moves_end_filter[OF hs_closeUser])
qed

lemma hubSteps_moves:
  assumes "(hubStep limits byteLength)\<^sup>*\<^sup>* h h'" "hubOk limits h"
  shows "moves byteLength h h' \<and> hubOk limits h'"
  using assms
proof (induction rule: rtranclp_induct)
  case (step h1 h2)
  then have "moves byteLength h h1" "moves byteLength h1 h2" "hubOk limits h2"
    using hubStep_moves[OF step(2)] hubStep_ok[OF step(2)] by blast+
  with moves_trans show ?case by blast
qed simp

lemma subMoves_closed:
  "(subMove byteLength)\<^sup>*\<^sup>* s s' \<Longrightarrow> sb_state s = SubClosed \<Longrightarrow>
   sb_state s' = SubClosed \<and> sb_frames s' = sb_frames s"
  by (induction rule: rtranclp_induct) (auto elim!: subMove.cases)

lemma subMoves_identity:
  "(subMove byteLength)\<^sup>*\<^sup>* s s' \<Longrightarrow>
   sb_userId s' = sb_userId s \<and> sb_sessionId s' = sb_sessionId s \<and> sb_impersonatedBy s' = sb_impersonatedBy s"
  by (induction rule: rtranclp_induct) (auto elim!: subMove.cases simp: enqueueFrame_def)

lemma subMoves_queue:
  assumes "(subMove byteLength)\<^sup>*\<^sup>* s s'"
    and "byteLength (FrameRetry NODE_EVENTS_RETRY_MS) + byteLength FrameHello \<le> NODE_EVENTS_MAX_QUEUED_BYTES"
    and "sb_state s = SubPending \<longrightarrow> sb_queued s = 0" "sb_queued s \<le> NODE_EVENTS_MAX_QUEUED_BYTES"
  shows "(sb_state s' = SubPending \<longrightarrow> sb_queued s' = 0) \<and> sb_queued s' \<le> NODE_EVENTS_MAX_QUEUED_BYTES"
  using assms(1)
proof (induction rule: rtranclp_induct)
  case (step s1 s2)
  from step(2) step.IH assms(2) show ?case
    by cases (auto simp: enqueueFrame_def desiredSize_def)
qed (use assms(3,4) in simp)

definition queuesOk :: "hub \<Rightarrow> bool" where
  "queuesOk h \<longleftrightarrow> (\<forall>i < length (hb_subs h). (sb_state (sub h i) = SubPending \<longrightarrow> sb_queued (sub h i) = 0) \<and>
     sb_queued (sub h i) \<le> NODE_EVENTS_MAX_QUEUED_BYTES)"

lemma hubStep_new_subs:
  assumes "hubStep limits byteLength h h'" "length (hb_subs h) \<le> i" "i < length (hb_subs h')"
  shows "sb_queued (sub h' i) = 0"
proof -
  have same: "length (hb_subs (fold (endSub r) ids h)) = length (hb_subs h)"
    "length (hb_subs (fold (writeSub byteLength f) ids h)) = length (hb_subs h)" for r f ids
  proof -
    have e: "length (hb_subs (endSub reason i h)) = length (hb_subs h)" for reason i and h :: hub
      by (simp add: endSub_def Let_def)
    have w: "length (hb_subs (writeSub byteLength f i h)) = length (hb_subs h)" for i and h :: hub
      by (simp add: writeSub_def e)
    show "length (hb_subs (fold (endSub r) ids h)) = length (hb_subs h)"
      by (induction ids arbitrary: h) (simp_all add: e)
    show "length (hb_subs (fold (writeSub byteLength f) ids h)) = length (hb_subs h)"
      by (induction ids arbitrary: h) (simp_all add: w)
  qed
  from assms(1) show ?thesis
  proof cases
    case (hs_reserve userId sessionId impersonatedBy)
    with assms(2,3) show ?thesis
      by (auto simp: reserveSub_def Let_def nth_append pendingSub_def split: if_splits)
  qed (use assms(2,3) same in \<open>auto simp: releaseSub_def activateSub_def Let_def ensurePing_def cancelSub_def
      publishEvent_def pingAll_def endSession_def closeUser_def recheckSession_def closeAll_alt
      split: if_splits option.splits sessionVerdict.splits\<close>)
qed

lemma hubReach_queues:
  assumes "hubReach limits byteLength h"
    and "byteLength (FrameRetry NODE_EVENTS_RETRY_MS) + byteLength FrameHello \<le> NODE_EVENTS_MAX_QUEUED_BYTES"
  shows "queuesOk h"
  using assms(1)
proof (induction rule: rtranclp_induct)
  case base
  then show ?case by (simp add: queuesOk_def newHub_def)
next
  case (step h1 h2)
  have mv: "moves byteLength h1 h2" by (rule hubStep_moves[OF step(2) hubReach_ok[OF step(1)]])
  show ?case unfolding queuesOk_def
  proof (intro allI impI)
    fix i
    assume "i < length (hb_subs h2)"
    show "(sb_state (sub h2 i) = SubPending \<longrightarrow> sb_queued (sub h2 i) = 0) \<and>
        sb_queued (sub h2 i) \<le> NODE_EVENTS_MAX_QUEUED_BYTES"
    proof (cases "i < length (hb_subs h1)")
      case True
      with mv have "(subMove byteLength)\<^sup>*\<^sup>* (sub h1 i) (sub h2 i)" by blast
      from subMoves_queue[OF this assms(2)] step.IH True show ?thesis by (simp add: queuesOk_def)
    next
      case False
      with hubStep_new_subs[OF step(2)] \<open>i < length (hb_subs h2)\<close> show ?thesis by simp
    qed
  qed
qed

lemma int_sum_list: "int (\<Sum>x \<leftarrow> xs. f x) = (\<Sum>x \<leftarrow> xs. int (f x))"
  by (induction xs) simp_all

text \<open>
  C34: the caps hold. However reservations, activations, cancellations, publications and closings
  interleave, at most \<open>perServer\<close> streams are open and at most \<open>perUser\<close> of one user; no open stream
  has more than the queue limit unread; an open stream is pinged; and after shutdown none is open.
\<close>

theorem hub_caps:
  assumes "hubReach limits byteLength h"
    and "byteLength (FrameRetry NODE_EVENTS_RETRY_MS) + byteLength FrameHello \<le> NODE_EVENTS_MAX_QUEUED_BYTES"
  shows "card {i. i < length (hb_subs h) \<and> sb_state (sub h i) = SubOpen} \<le> nl_perServer limits \<and>
    card {i. i < length (hb_subs h) \<and> sb_state (sub h i) = SubOpen \<and> sb_userId (sub h i) = userId}
      \<le> nl_perUser limits \<and>
    (\<forall>i < length (hb_subs h). sb_state (sub h i) = SubOpen \<longrightarrow>
       sb_queued (sub h i) \<le> NODE_EVENTS_MAX_QUEUED_BYTES \<and> hb_pingTimer h \<and> \<not> hb_closing h)"
proof -
  let ?open = "{i. i < length (hb_subs h) \<and> sb_state (sub h i) = SubOpen}"
  have ok: "hubOk limits h" by (rule hubReach_ok[OF assms(1)])
  then have good: "i \<in> ?open \<Longrightarrow> registered h i \<and> hb_pingTimer h" for i
    by (auto simp: hubOkBut_def subGood_def)
  have "?open \<subseteq> set (allSubs h)" using good registered_in_all[OF hubOk_index[OF ok]] by auto
  then have "card ?open \<le> length (allSubs h)" by (meson card_length card_mono finite_set order_trans)
  moreover have "int (length (allSubs h)) = hb_total h"
    using hubOk_index[OF ok] by (simp add: indexGood_def allSubs_def length_concat comp_def int_sum_list)
  moreover have "hb_total h \<le> int (nl_perServer limits)" using hubOk_index[OF ok] by (simp add: indexGood_def)
  ultimately have server: "card ?open \<le> nl_perServer limits" by linarith
  have user: "card {i. i < length (hb_subs h) \<and> sb_state (sub h i) = SubOpen \<and> sb_userId (sub h i) = userId}
      \<le> nl_perUser limits" (is "card ?mine \<le> _")
  proof (cases "js_get (hb_byUser h) userId")
    case None
    then have "?mine = {}" using good by (fastforce simp: registered_def)
    then have "card ?mine = 0" by (simp only: card.empty)
    then show ?thesis by linarith
  next
    case (Some ids)
    then have "?mine \<subseteq> set ids" using good by (fastforce simp: registered_def)
    then have "card ?mine \<le> length ids" by (meson card_length card_mono finite_set order_trans)
    moreover have "length ids \<le> nl_perUser limits" using Some hubOk_index[OF ok] unfolding indexGood_def by blast
    ultimately show ?thesis by (rule order_trans)
  qed
  have "sb_queued (sub h i) \<le> NODE_EVENTS_MAX_QUEUED_BYTES \<and> hb_pingTimer h \<and> \<not> hb_closing h"
    if "i \<in> ?open" for i
    using good[OF that] hubReach_queues[OF assms] that ok by (auto simp: queuesOk_def hubOkBut_def)
  with server user show ?thesis by blast
qed

definition demoHub :: hub where
  "demoHub = fst (activateSub (\<lambda>_. 10) 0 (fst (reserveSub NODE_EVENTS_LIMITS ''user'' ''session'' None newHub)))"

lemma demoHub_reach: "hubReach NODE_EVENTS_LIMITS (\<lambda>_. 10) demoHub"
proof -
  let ?h1 = "fst (reserveSub NODE_EVENTS_LIMITS ''user'' ''session'' None newHub)"
  have "0 \<in> set (hb_awaiting ?h1)" by code_simp
  then have "hubStep NODE_EVENTS_LIMITS (\<lambda>_. 10) ?h1 demoHub" unfolding demoHub_def by (rule hs_activate)
  moreover have "hubStep NODE_EVENTS_LIMITS (\<lambda>_. 10) newHub ?h1" by (rule hs_reserve)
  ultimately show ?thesis by (meson r_into_rtranclp rtranclp.rtrancl_into_rtrancl)
qed

theorem hub_caps_witness:
  "sb_state (sub demoHub 0) = SubOpen \<and> sb_queued (sub demoHub 0) \<le> NODE_EVENTS_MAX_QUEUED_BYTES \<and>
   hb_pingTimer demoHub"
proof -
  have facts: "0 < length (hb_subs demoHub)" "sb_state (sub demoHub 0) = SubOpen" by code_simp+
  have "(10 :: nat) + 10 \<le> NODE_EVENTS_MAX_QUEUED_BYTES" by (simp add: NODE_EVENTS_MAX_QUEUED_BYTES_def)
  with hub_caps[OF demoHub_reach] facts show ?thesis by blast
qed

subsection \<open>Delivery\<close>

lemma fold_write_at:
  assumes "distinct ids" "\<forall>i \<in> set ids. i < length (hb_subs h)" "j < length (hb_subs h)"
  shows "(j \<notin> set ids \<longrightarrow> sub (fold (writeSub byteLength frame) ids h) j = sub h j) \<and>
    (j \<in> set ids \<and> sb_state (sub h j) = SubOpen \<and> sb_controller (sub h j) \<longrightarrow>
       (let s = sub (fold (writeSub byteLength frame) ids h) j
        in sb_state s = SubClosed \<or> sb_state s = SubOpen \<and> sb_frames s = sb_frames (sub h j) @ [frame]))"
  using assms
proof (induction ids arbitrary: h)
  case (Cons i ids)
  have i: "i < length (hb_subs h)" using Cons.prems by simp
  obtain s where s: "hb_subs (writeSub byteLength frame i h) = (hb_subs h)[i := s]"
    "sb_state (sub h i) = SubOpen \<and> sb_controller (sub h i) \<longrightarrow>
       sb_state s = SubClosed \<or> sb_state s = SubOpen \<and> sb_frames s = sb_frames (sub h i) @ [frame]"
    using sub_write[OF i, of byteLength frame] by blast
  let ?h1 = "writeSub byteLength frame i h"
  have IH: "j \<notin> set ids \<longrightarrow> sub (fold (writeSub byteLength frame) ids ?h1) j = sub ?h1 j"
    "j \<in> set ids \<and> sb_state (sub ?h1 j) = SubOpen \<and> sb_controller (sub ?h1 j) \<longrightarrow>
       (let s = sub (fold (writeSub byteLength frame) ids ?h1) j
        in sb_state s = SubClosed \<or> sb_state s = SubOpen \<and> sb_frames s = sb_frames (sub ?h1 j) @ [frame])"
    using Cons.IH[of ?h1] Cons.prems s(1) by auto
  have at: "sub ?h1 j = (if j = i then s else sub h j)" using s(1) i by (auto simp: nth_list_update)
  show ?case
  proof (cases "j = i")
    case True
    then have "j \<notin> set ids" "sub ?h1 j = s" using Cons.prems(1) at by auto
    with True IH(1) s(2) show ?thesis by (simp add: Let_def)
  next
    case False
    then have "sub ?h1 j = sub h j" by (simp add: at)
    with False IH show ?thesis by (simp only: fold_simps set_simps insert_iff o_apply) blast
  qed
qed simp

text \<open>
  C35: a committed node change reaches its owner and nobody else: publishing leaves every stream of
  another user untouched, and each open stream of the owner either gets exactly this one frame or is
  closed because it stopped reading (its browser reconnects and refetches).
\<close>

theorem hub_publish_isolated:
  assumes "hubReach limits byteLength h" "i < length (hb_subs h)"
  shows "(sb_userId (sub h i) \<noteq> eventUser event \<longrightarrow> sub (publishEvent byteLength event at h) i = sub h i) \<and>
    (sb_userId (sub h i) = eventUser event \<and> sb_state (sub h i) = SubOpen \<longrightarrow>
       (let s = sub (publishEvent byteLength event at h) i
        in sb_state s = SubClosed \<or>
           sb_state s = SubOpen \<and> sb_frames s = sb_frames (sub h i) @ [FrameNode event at]))"
proof -
  have ok: "hubOk limits h" by (rule hubReach_ok[OF assms(1)])
  then have good: "sb_state (sub h i) = SubOpen \<longrightarrow> registered h i \<and> sb_controller (sub h i)"
    using assms(2) by (auto simp: hubOkBut_def subGood_def)
  show ?thesis
  proof (cases "js_get (hb_byUser h) (eventUser event)")
    case None
    then show ?thesis using good by (auto simp: publishEvent_def registered_def)
  next
    case (Some ids)
    note valid = user_ids_valid[OF ok Some]
    have "i \<in> set ids" if "sb_userId (sub h i) = eventUser event" "sb_state (sub h i) = SubOpen"
      using good that Some by (auto simp: registered_def)
    then show ?thesis
      using fold_write_at[of ids h i byteLength "FrameNode event at"] valid assms(2) good Some
      by (auto simp: publishEvent_def)
  qed
qed

theorem hub_publish_isolated_witness:
  "sub (publishEvent (\<lambda>_. 10) (NodeTrust ''other'' ''node'') ''now'' demoHub) 0 = sub demoHub 0"
proof -
  have "0 < length (hb_subs demoHub)" "sb_userId (sub demoHub 0) = ''user''" by code_simp+
  with hub_publish_isolated[OF demoHub_reach, of 0 "NodeTrust ''other'' ''node''" "''now''"] show ?thesis by simp
qed

subsection \<open>Ending a session\<close>

lemma fold_end_closed:
  assumes "hubOk limits h" "\<forall>j \<in> set ids. j < length (hb_subs h)" "i \<in> set ids"
  shows "sb_state (sub (fold (endSub reason) ids h) i) = SubClosed"
  using assms
proof (induction ids arbitrary: h)
  case (Cons j ids)
  have j: "j < length (hb_subs h)" using Cons.prems(2) by simp
  note keep = endSub_keeps[OF Cons.prems(1) j, of reason]
  show ?case
  proof (cases "i \<in> set ids")
    case True
    then show ?thesis using Cons.IH[of "endSub reason j h"] keep Cons.prems(2) by simp
  next
    case False
    then have i: "i = j" using Cons.prems(3) by simp
    have closed: "sb_state (sub (endSub reason j h) j) = SubClosed" by (rule endSub_ok(3)[OF Cons.prems(1) j])
    have "moves byteLength (endSub reason j h) (fold (endSub reason) ids (endSub reason j h))"
      for byteLength :: "hubFrame \<Rightarrow> nat"
      using Cons.prems(2) keep by (intro moves_fold moves_endSub) auto
    then have "(subMove (\<lambda>_. 0))\<^sup>*\<^sup>* (sub (endSub reason j h) j)
        (sub (fold (endSub reason) ids (endSub reason j h)) j)" using j keep by simp
    from subMoves_closed[OF this closed] show ?thesis by (simp add: i)
  qed
qed simp

lemma ended_stays:
  assumes "hubOk limits h" "i < length (hb_subs h)" "sb_state (sub h i) = SubClosed"
    "(hubStep limits byteLength)\<^sup>*\<^sup>* h h'"
  shows "sb_state (sub h' i) = SubClosed \<and> sb_frames (sub h' i) = sb_frames (sub h i) \<and>
    snd (activateSub byteLength i h') = False"
proof -
  have "(subMove byteLength)\<^sup>*\<^sup>* (sub h i) (sub h' i)"
    using hubSteps_moves[OF assms(4,1)] assms(2) by blast
  from subMoves_closed[OF this assms(3)] show ?thesis by (simp add: activateSub_def Let_def)
qed

lemma end_filter_final:
  assumes "hubReach limits byteLength h" "i < length (hb_subs h)" "P i"
    and "i \<in> set (hb_awaiting h) \<or> sb_state (sub h i) = SubOpen"
    and "(hubStep limits byteLength)\<^sup>*\<^sup>* (fold (endSub reason) (filter P (allSubs h)) h) h'"
  shows "sb_state (sub h' i) = SubClosed \<and> snd (activateSub byteLength i h') = False"
proof -
  let ?h1 = "fold (endSub reason) (filter P (allSubs h)) h"
  have ok: "hubOk limits h" by (rule hubReach_ok[OF assms(1)])
  have ok1: "hubOk limits ?h1" "length (hb_subs ?h1) = length (hb_subs h)"
    using fold_end_ok[OF ok, of "filter P (allSubs h)" reason] allSubs_valid[OF ok] by auto
  have good: "subGood h i" using ok assms(2) by (simp add: hubOkBut_def)
  have "sb_state (sub ?h1 i) = SubClosed"
  proof (cases "registered h i")
    case True
    then have "i \<in> set (filter P (allSubs h))"
      using registered_in_all[OF hubOk_index[OF ok]] assms(3) by simp
    then show ?thesis using allSubs_valid[OF ok] by (intro fold_end_closed[OF ok]) auto
  next
    case False
    then have "sb_state (sub h i) = SubClosed"
      using good assms(4) by (cases "sb_state (sub h i)") (auto simp: subGood_def)
    moreover have "(subMove byteLength)\<^sup>*\<^sup>* (sub h i) (sub ?h1 i)"
      using moves_end_filter[OF ok] assms(2) by blast
    ultimately show ?thesis using subMoves_closed by blast
  qed
  from ended_stays[OF ok1(1) _ this assms(5)] ok1(2) assms(2) show ?thesis by simp
qed

text \<open>
  C33: a sign-out or a lost access can never race an admission. Once a session is ended or a user
  closed, every stream of it that was open, and every reservation whose session row was still being
  read, is closed for good: whatever happens next it is never activated.
\<close>

theorem hub_session_end_final:
  assumes "hubReach limits byteLength h" "i < length (hb_subs h)"
    and "i \<in> set (hb_awaiting h) \<or> sb_state (sub h i) = SubOpen"
  shows "(sb_sessionId (sub h i) = sessionId \<and> (hubStep limits byteLength)\<^sup>*\<^sup>* (endSession sessionId reason h) h' \<longrightarrow>
      sb_state (sub h' i) = SubClosed \<and> snd (activateSub byteLength i h') = False) \<and>
    ((sb_userId (sub h i) = userId \<or> sb_impersonatedBy (sub h i) = Some userId) \<and>
      (hubStep limits byteLength)\<^sup>*\<^sup>* (closeUser userId reason h) h' \<longrightarrow>
      sb_state (sub h' i) = SubClosed \<and> snd (activateSub byteLength i h') = False)"
  using end_filter_final[where P = "\<lambda>i. sb_sessionId (sub h i) = sessionId" and reason = "Some reason",
      OF assms(1,2) _ assms(3)]
    end_filter_final[where P = "\<lambda>i. sb_userId (sub h i) = userId \<or> sb_impersonatedBy (sub h i) = Some userId"
      and reason = "Some reason", OF assms(1,2) _ assms(3)]
  unfolding endSession_def closeUser_def by blast

text \<open>A reservation whose session ends before its row was read.\<close>

definition demoReserved :: hub where
  "demoReserved = fst (reserveSub NODE_EVENTS_LIMITS ''user'' ''session'' None newHub)"

theorem hub_session_end_final_witness:
  "snd (activateSub (\<lambda>_. 10) 0 (endSession ''session'' SessionEnded demoReserved)) = False"
proof -
  have "hubReach NODE_EVENTS_LIMITS (\<lambda>_. 10) demoReserved"
    unfolding demoReserved_def by (rule r_into_rtranclp) (rule hs_reserve)
  moreover have "0 < length (hb_subs demoReserved)" "0 \<in> set (hb_awaiting demoReserved)"
    "sb_sessionId (sub demoReserved 0) = ''session''" by code_simp+
  ultimately show ?thesis using hub_session_end_final by blast
qed

end
