(* ===== verification/AccountAccess.thy ===== *)
theory AccountAccess
  imports Wmp_Prelude
begin

text \<open>
  Account-access rules (\<^verbatim>\<open>packages/db/src/user-deletion-access.ts\<close>): when a ban is active,
  when access is blocked, and the same rules as database filters.

  A filter is evaluated the way SQL does: a comparison with a NULL column is unknown, \<^verbatim>\<open>AND\<close>
  and \<^verbatim>\<open>OR\<close> are Kleene's, and a row is selected when the condition is true. An unknown
  truth value is \<^const>\<open>None\<close>. A missing and a null column are both \<^const>\<open>None\<close>.
\<close>

subsection \<open>SQL truth values\<close>

type_synonym sqlBool = "bool option"

fun sqlAnd :: "sqlBool \<Rightarrow> sqlBool \<Rightarrow> sqlBool" where
  "sqlAnd (Some False) _ = Some False"
| "sqlAnd _ (Some False) = Some False"
| "sqlAnd (Some True) (Some True) = Some True"
| "sqlAnd _ _ = None"

fun sqlOr :: "sqlBool \<Rightarrow> sqlBool \<Rightarrow> sqlBool" where
  "sqlOr (Some True) _ = Some True"
| "sqlOr _ (Some True) = Some True"
| "sqlOr (Some False) (Some False) = Some False"
| "sqlOr _ _ = None"

definition sqlCompare :: "('a \<Rightarrow> bool) \<Rightarrow> 'a option \<Rightarrow> sqlBool" where
  "sqlCompare P column = map_option P column"

definition sqlIsNull :: "'a option \<Rightarrow> sqlBool" where
  "sqlIsNull column = Some (column = None)"

definition sqlSelects :: "sqlBool \<Rightarrow> bool" where
  "sqlSelects condition \<longleftrightarrow> condition = Some True"

lemma sqlSelects_and [simp]: "sqlSelects (sqlAnd a b) \<longleftrightarrow> sqlSelects a \<and> sqlSelects b"
  by (induction a b rule: sqlAnd.induct) (auto simp: sqlSelects_def)

lemma sqlSelects_or [simp]: "sqlSelects (sqlOr a b) \<longleftrightarrow> sqlSelects a \<or> sqlSelects b"
  by (induction a b rule: sqlOr.induct) (auto simp: sqlSelects_def)

lemma sqlSelects_compare [simp]: "sqlSelects (sqlCompare P column) \<longleftrightarrow> (\<exists>v. column = Some v \<and> P v)"
  by (auto simp: sqlSelects_def sqlCompare_def)

lemma sqlSelects_null [simp]: "sqlSelects (sqlIsNull column) \<longleftrightarrow> column = None"
  by (simp add: sqlSelects_def sqlIsNull_def)

lemma sqlSelects_const [simp]: "sqlSelects (Some b) \<longleftrightarrow> b"
  by (simp add: sqlSelects_def)

subsection \<open>The rules\<close>

record userAccessRow =
  ua_banned :: "bool option"
  ua_banExpires :: "millis option"
  ua_deletionRequestedAt :: "millis option"

definition isUserBanned :: "userAccessRow \<Rightarrow> millis \<Rightarrow> bool" where
  "isUserBanned user now \<longleftrightarrow>
     (if ua_banned user \<noteq> Some True then False
      else case ua_banExpires user of None \<Rightarrow> True | Some expires \<Rightarrow> expires \<ge> now)"

definition userCredentialAccessBlocked :: "userAccessRow \<Rightarrow> millis \<Rightarrow> bool" where
  "userCredentialAccessBlocked row now \<longleftrightarrow> ua_deletionRequestedAt row \<noteq> None \<or> isUserBanned row now"

definition poolOwnerActive :: "userAccessRow \<Rightarrow> millis \<Rightarrow> bool" where
  "poolOwnerActive owner now \<longleftrightarrow> \<not> userCredentialAccessBlocked owner now"

definition userBanActiveWhere :: "millis \<Rightarrow> userAccessRow \<Rightarrow> sqlBool" where
  "userBanActiveWhere now user =
     sqlAnd (sqlCompare (\<lambda>b. b = True) (ua_banned user))
       (sqlOr (sqlIsNull (ua_banExpires user)) (sqlCompare (\<lambda>t. t \<ge> now) (ua_banExpires user)))"

definition userBanInactiveWhere :: "millis \<Rightarrow> userAccessRow \<Rightarrow> sqlBool" where
  "userBanInactiveWhere now user =
     sqlOr (sqlIsNull (ua_banned user))
       (sqlOr (sqlCompare (\<lambda>b. b = False) (ua_banned user)) (sqlCompare (\<lambda>t. t < now) (ua_banExpires user)))"

definition userAccessBlockedWhere :: "millis \<Rightarrow> userAccessRow \<Rightarrow> sqlBool" where
  "userAccessBlockedWhere now user =
     sqlOr (Some (ua_deletionRequestedAt user \<noteq> None)) (userBanActiveWhere now user)"

definition userAccessActiveWhere :: "millis \<Rightarrow> userAccessRow \<Rightarrow> sqlBool" where
  "userAccessActiveWhere now user =
     sqlAnd (sqlIsNull (ua_deletionRequestedAt user)) (userBanInactiveWhere now user)"

text \<open>
  C36: the database filters select exactly the users the in-memory rules name, NULL columns and the
  boundary instant included: banned, not banned, blocked and active; and every user is selected by
  exactly one of the blocked and the active filter.
\<close>

theorem access_filters_agree:
  "(sqlSelects (userBanActiveWhere now user) \<longleftrightarrow> isUserBanned user now) \<and>
   (sqlSelects (userBanInactiveWhere now user) \<longleftrightarrow> \<not> isUserBanned user now) \<and>
   (sqlSelects (userAccessBlockedWhere now user) \<longleftrightarrow> userCredentialAccessBlocked user now) \<and>
   (sqlSelects (userAccessActiveWhere now user) \<longleftrightarrow> poolOwnerActive user now) \<and>
   (sqlSelects (userAccessActiveWhere now user) \<longleftrightarrow> \<not> sqlSelects (userAccessBlockedWhere now user))"
  by (auto simp: userBanActiveWhere_def userBanInactiveWhere_def userAccessBlockedWhere_def
      userAccessActiveWhere_def isUserBanned_def userCredentialAccessBlocked_def poolOwnerActive_def
      split: option.splits if_splits)

end
