(* ===== verification/NodeCommandTracker.thy ===== *)
theory NodeCommandTracker
  imports AccountAccess
begin

text \<open>
  The running node commands the server tracks
  (\<^verbatim>\<open>apps/server/src/relay/node-command-tracker.ts\<close>).

  \<open>deliver nodeId userId\<close> is what \<^verbatim>\<open>relay.sendToNode\<close> answers for a frame guarded by the
  owner \<open>userId\<close>: whether the node has a live session of that owner. \<open>ct_sent\<close> logs the
  \<^verbatim>\<open>exec.cancel\<close> frames handed to the relay. The tables a pass reads are lists in id order;
  the pages of one pass are read from one state of the table.
\<close>

definition NODE_COMMAND_TRACK_GRACE_MS :: millis where
  "NODE_COMMAND_TRACK_GRACE_MS = 10 * 60000"

definition NODE_COMMAND_SWEEP_PAGE :: nat where
  "NODE_COMMAND_SWEEP_PAGE = 500"

record trackedCommand =
  tc_commandId :: ident
  tc_nodeId :: ident
  tc_userId :: ident
  tc_endsBy :: millis
  tc_cancelRequested :: bool

record cancelFrame =
  cf_nodeId :: ident
  cf_commandId :: ident
  cf_guardUser :: ident

record tracker =
  ct_byId :: "(ident, trackedCommand) js_map"
  ct_sent :: "cancelFrame list"

type_synonym deliver = "ident \<Rightarrow> ident \<Rightarrow> bool"

record commandRow =
  cr_id :: ident
  cr_nodeId :: ident
  cr_userId :: ident
  cr_endsBy :: millis
  cr_running :: bool
  cr_agentTokenId :: "ident option"
  cr_mcpGrantId :: "ident option"

subsection \<open>Operations\<close>

definition trackCommand :: "ident \<Rightarrow> ident \<Rightarrow> ident \<Rightarrow> millis \<Rightarrow> tracker \<Rightarrow> tracker" where
  "trackCommand commandId nodeId userId endsBy t =
     t\<lparr>ct_byId := js_put commandId
         \<lparr>tc_commandId = commandId, tc_nodeId = nodeId, tc_userId = userId, tc_endsBy = endsBy,
          tc_cancelRequested = (case js_get (ct_byId t) commandId of
              None \<Rightarrow> False | Some existing \<Rightarrow> tc_cancelRequested existing)\<rparr> (ct_byId t)\<rparr>"

definition startedCommand :: "ident \<Rightarrow> millis \<Rightarrow> tracker \<Rightarrow> tracker" where
  "startedCommand commandId endsBy t =
     (case js_get (ct_byId t) commandId of
        None \<Rightarrow> t
      | Some entry \<Rightarrow>
          t\<lparr>ct_byId := js_put commandId (entry\<lparr>tc_endsBy := min endsBy (tc_endsBy entry)\<rparr>) (ct_byId t)\<rparr>)"

definition forgetCommand :: "ident \<Rightarrow> ident \<Rightarrow> tracker \<Rightarrow> tracker" where
  "forgetCommand commandId nodeId t =
     (case js_get (ct_byId t) commandId of
        None \<Rightarrow> t
      | Some entry \<Rightarrow> if tc_nodeId entry = nodeId then t\<lparr>ct_byId := js_del commandId (ct_byId t)\<rparr> else t)"

definition commandsOnNode :: "ident \<Rightarrow> tracker \<Rightarrow> trackedCommand list" where
  "commandsOnNode nodeId t = filter (\<lambda>entry. tc_nodeId entry = nodeId) (js_values (ct_byId t))"

definition sendCancel :: "ident \<Rightarrow> ident \<Rightarrow> ident \<Rightarrow> tracker \<Rightarrow> tracker" where
  "sendCancel nodeId commandId userId t =
     t\<lparr>ct_sent := ct_sent t @ [\<lparr>cf_nodeId = nodeId, cf_commandId = commandId, cf_guardUser = userId\<rparr>]\<rparr>"

definition cancelCommand ::
    "deliver \<Rightarrow> ident \<Rightarrow> ident \<Rightarrow> ident \<Rightarrow> millis \<Rightarrow> tracker \<Rightarrow> tracker \<times> bool" where
  "cancelCommand deliver commandId nodeId userId endsBy t =
     (case js_get (ct_byId t) commandId of
        Some tracked \<Rightarrow>
          if tc_nodeId tracked \<noteq> nodeId \<or> tc_userId tracked \<noteq> userId then (t, False)
          else (sendCancel nodeId commandId userId
                  (t\<lparr>ct_byId := js_put commandId (tracked\<lparr>tc_cancelRequested := True\<rparr>) (ct_byId t)\<rparr>),
                deliver nodeId userId)
      | None \<Rightarrow>
          (sendCancel nodeId commandId userId
             (t\<lparr>ct_byId := js_put commandId
                 \<lparr>tc_commandId = commandId, tc_nodeId = nodeId, tc_userId = userId, tc_endsBy = endsBy,
                  tc_cancelRequested = True\<rparr> (ct_byId t)\<rparr>),
           deliver nodeId userId))"

definition nodeReady :: "ident \<Rightarrow> tracker \<Rightarrow> tracker" where
  "nodeReady nodeId t =
     fold (\<lambda>entry. sendCancel nodeId (tc_commandId entry) (tc_userId entry))
       (filter (\<lambda>entry. tc_nodeId entry = nodeId \<and> tc_cancelRequested entry) (js_values (ct_byId t))) t"

definition cancelEntry :: "deliver \<Rightarrow> trackedCommand \<Rightarrow> tracker \<Rightarrow> tracker" where
  "cancelEntry deliver entry t =
     fst (cancelCommand deliver (tc_commandId entry) (tc_nodeId entry) (tc_userId entry) (tc_endsBy entry) t)"

text \<open>\<^verbatim>\<open>cancel(entryOf(row))\<close>.\<close>

definition cancelRow :: "deliver \<Rightarrow> commandRow \<Rightarrow> tracker \<Rightarrow> tracker" where
  "cancelRow deliver row t =
     fst (cancelCommand deliver (cr_id row) (cr_nodeId row) (cr_userId row) (cr_endsBy row) t)"

subsection \<open>Pages\<close>

text \<open>The rows of the query in id order, after the cursor's row.\<close>

definition pageOf :: "commandRow list \<Rightarrow> ident option \<Rightarrow> commandRow list" where
  "pageOf rows cursor =
     take NODE_COMMAND_SWEEP_PAGE
       (case cursor of None \<Rightarrow> rows | Some c \<Rightarrow> tl (dropWhile (\<lambda>row. cr_id row \<noteq> c) rows))"

partial_function (option) cancelPages ::
    "deliver \<Rightarrow> commandRow list \<Rightarrow> ident option \<Rightarrow> nat \<Rightarrow> tracker \<Rightarrow> (tracker \<times> nat) option" where
  "cancelPages deliver rows cursor cancelled t =
     (let page = pageOf rows cursor;
          t1 = fold (cancelRow deliver) page t;
          cancelled1 = cancelled + length page
      in if length page < NODE_COMMAND_SWEEP_PAGE then Some (t1, cancelled1)
         else cancelPages deliver rows (map_option cr_id (if page = [] then None else Some (last page))) cancelled1 t1)"

definition cancelForUser ::
    "deliver \<Rightarrow> commandRow list \<Rightarrow> ident \<Rightarrow> tracker \<Rightarrow> (tracker \<times> nat) option" where
  "cancelForUser deliver table userId t =
     (let entries = filter (\<lambda>entry. tc_userId entry = userId) (js_values (ct_byId t));
          t1 = fold (cancelEntry deliver) entries t
      in map_option (\<lambda>(t2, _). (t2, length entries))
           (cancelPages deliver (filter (\<lambda>row. cr_userId row = userId \<and> cr_running row) table) None 0 t1))"

definition cancelForCredentials ::
    "deliver \<Rightarrow> commandRow list \<Rightarrow> ident \<Rightarrow> ident list \<Rightarrow> tracker \<Rightarrow> (tracker \<times> nat) option" where
  "cancelForCredentials deliver table userId credentialIds t =
     (if credentialIds = [] then Some (t, 0)
      else cancelPages deliver
             (filter (\<lambda>row. cr_userId row = userId \<and> cr_running row \<and>
                ((\<exists>c \<in> set credentialIds. cr_agentTokenId row = Some c) \<or>
                 (\<exists>c \<in> set credentialIds. cr_mcpGrantId row = Some c))) table) None 0 t)"

subsection \<open>The periodic pass\<close>

datatype accessLevel = LevelFull | LevelOther

record agentTokenRow =
  at_id :: ident
  at_level :: accessLevel
  at_revokedAt :: "millis option"
  at_expiresAt :: "millis option"

record mcpGrantRow =
  mg_id :: ident
  mg_level :: accessLevel
  mg_revokedAt :: "millis option"

record accessTables =
  tb_tokens :: "agentTokenRow list"
  tb_grants :: "mcpGrantRow list"
  tb_users :: "(ident, userAccessRow) js_map"

definition tokenLiveWhere :: "millis \<Rightarrow> agentTokenRow \<Rightarrow> bool" where
  "tokenLiveWhere now token \<longleftrightarrow>
     at_level token = LevelFull \<and> at_revokedAt token = None \<and>
     (case at_expiresAt token of None \<Rightarrow> True | Some t \<Rightarrow> t > now)"

definition grantLiveWhere :: "mcpGrantRow \<Rightarrow> bool" where
  "grantLiveWhere grant \<longleftrightarrow> mg_level grant = LevelFull \<and> mg_revokedAt grant = None"

definition commandEnded :: "accessTables \<Rightarrow> millis \<Rightarrow> commandRow list \<Rightarrow> commandRow \<Rightarrow> bool" where
  "commandEnded tables now rows row \<longleftrightarrow>
     (let tokenIds = remdups (List.map_filter cr_agentTokenId rows);
          grantIds = remdups (List.map_filter cr_mcpGrantId rows);
          userIds = remdups (map cr_userId rows);
          liveTokens = filter (\<lambda>token. at_id token \<in> set tokenIds \<and> tokenLiveWhere now token) (tb_tokens tables);
          liveGrants = filter (\<lambda>grant. mg_id grant \<in> set grantIds \<and> grantLiveWhere grant) (tb_grants tables);
          users = filter (\<lambda>(userId, _). userId \<in> set userIds) (tb_users tables);
          tokenLive = map at_id liveTokens;
          grantLive = map mg_id liveGrants;
          blocked = map fst (filter (\<lambda>(_, user). userCredentialAccessBlocked user now) users);
          known = map fst users
      in cr_userId row \<in> set blocked \<or> cr_userId row \<notin> set known \<or>
         (case cr_agentTokenId row of None \<Rightarrow> False | Some c \<Rightarrow> c \<notin> set tokenLive) \<or>
         (case cr_mcpGrantId row of None \<Rightarrow> False | Some c \<Rightarrow> c \<notin> set grantLive))"

definition sweepPage ::
    "deliver \<Rightarrow> accessTables \<Rightarrow> millis \<Rightarrow> commandRow list \<Rightarrow> tracker \<Rightarrow> tracker \<times> nat" where
  "sweepPage deliver tables now rows t =
     (let ended = filter (commandEnded tables now rows) rows
      in (fold (cancelRow deliver) ended t, length ended))"

partial_function (option) sweepPages ::
    "deliver \<Rightarrow> accessTables \<Rightarrow> millis \<Rightarrow> commandRow list \<Rightarrow> ident option \<Rightarrow> nat \<Rightarrow> tracker \<Rightarrow>
     (tracker \<times> nat) option" where
  "sweepPages deliver tables now rows cursor cancelled t =
     (let page = pageOf rows cursor;
          (t1, n) = sweepPage deliver tables now page t
      in if length page < NODE_COMMAND_SWEEP_PAGE then Some (t1, cancelled + n)
         else sweepPages deliver tables now rows (map_option cr_id (if page = [] then None else Some (last page)))
                (cancelled + n) t1)"

definition dropOverdue :: "millis \<Rightarrow> tracker \<Rightarrow> tracker" where
  "dropOverdue now t =
     t\<lparr>ct_byId := filter (\<lambda>(_, entry). \<not> tc_endsBy entry + NODE_COMMAND_TRACK_GRACE_MS < now) (ct_byId t)\<rparr>"

definition sweepCommands ::
    "deliver \<Rightarrow> accessTables \<Rightarrow> commandRow list \<Rightarrow> millis \<Rightarrow> tracker \<Rightarrow> (tracker \<times> nat) option" where
  "sweepCommands deliver tables table now t =
     sweepPages deliver tables now (filter (\<lambda>row. cr_running row \<and> cr_endsBy row > now) table) None 0
       (dropOverdue now t)"

subsection \<open>Paging visits every row once\<close>

text \<open>The cursor after the rows \<open>seen\<close>.\<close>

definition cursorAfter :: "commandRow list \<Rightarrow> ident option" where
  "cursorAfter seen = (if seen = [] then None else Some (cr_id (last seen)))"

lemma pageOf_after:
  assumes "distinct (map cr_id (seen @ rest))"
  shows "pageOf (seen @ rest) (cursorAfter seen) = take NODE_COMMAND_SWEEP_PAGE rest"
proof (cases seen rule: rev_cases)
  case (snoc before row)
  have "dropWhile (\<lambda>r. cr_id r \<noteq> cr_id row) (before @ row # rest) = row # rest"
    using assms snoc by (subst dropWhile_append2) (auto simp: image_iff)
  with snoc show ?thesis by (simp add: pageOf_def cursorAfter_def)
qed (simp add: pageOf_def cursorAfter_def)

lemma page_positive: "0 < NODE_COMMAND_SWEEP_PAGE"
  by (simp add: NODE_COMMAND_SWEEP_PAGE_def)

lemma cursorAfter_next:
  "page \<noteq> [] \<Longrightarrow> map_option cr_id (if page = [] then None else Some (last page)) = cursorAfter (seen @ page)"
  by (simp add: cursorAfter_def)

lemma cancelPages_all:
  assumes "distinct (map cr_id (seen @ rest))"
  shows "cancelPages deliver (seen @ rest) (cursorAfter seen) cancelled t =
    Some (fold (cancelRow deliver) rest t, cancelled + length rest)"
  using assms
proof (induction "length rest" arbitrary: seen rest cancelled t rule: less_induct)
  case less
  let ?page = "take NODE_COMMAND_SWEEP_PAGE rest" and ?rest = "drop NODE_COMMAND_SWEEP_PAGE rest"
  show ?case
  proof (cases "length ?page < NODE_COMMAND_SWEEP_PAGE")
    case True
    then have "?page = rest" by simp
    with True show ?thesis by (subst cancelPages.simps) (simp add: pageOf_after[OF less.prems] Let_def)
  next
    case False
    then have long: "NODE_COMMAND_SWEEP_PAGE \<le> length rest" by simp
    then have "?page \<noteq> []" using page_positive by auto
    then have next_cursor: "map_option cr_id (if ?page = [] then None else Some (last ?page)) =
      cursorAfter (seen @ ?page)" by (rule cursorAfter_next)
    have "length ?rest < length rest" using long page_positive by simp
    moreover have "distinct (map cr_id ((seen @ ?page) @ ?rest))" using less.prems by (simp flip: map_append)
    ultimately have IH: "cancelPages deliver ((seen @ ?page) @ ?rest) (cursorAfter (seen @ ?page)) cancelled' t' =
      Some (fold (cancelRow deliver) ?rest t', cancelled' + length ?rest)" for cancelled' t' by (rule less.hyps)
    have all: "seen @ rest = (seen @ ?page) @ ?rest" by simp
    have "fold (cancelRow deliver) ?rest (fold (cancelRow deliver) ?page t) = fold (cancelRow deliver) rest t"
      by (metis append_take_drop_id fold_append o_apply)
    moreover have "cancelPages deliver (seen @ rest) (cursorAfter seen) cancelled t =
      cancelPages deliver (seen @ rest) (cursorAfter (seen @ ?page)) (cancelled + length ?page)
        (fold (cancelRow deliver) ?page t)"
      using False by (subst cancelPages.simps) (simp only: pageOf_after[OF less.prems] Let_def next_cursor if_False)
    ultimately show ?thesis using IH long unfolding all by simp
  qed
qed

lemma cancelPages_start:
  "distinct (map cr_id rows) \<Longrightarrow>
   cancelPages deliver rows None cancelled t = Some (fold (cancelRow deliver) rows t, cancelled + length rows)"
  using cancelPages_all[of "[]" rows] by (simp add: cursorAfter_def)

text \<open>Whether a command's owner or credential is no longer live, looked up for one row.\<close>

definition rowDead :: "accessTables \<Rightarrow> millis \<Rightarrow> commandRow \<Rightarrow> bool" where
  "rowDead tables now row \<longleftrightarrow>
     (case js_get (tb_users tables) (cr_userId row) of
        None \<Rightarrow> True | Some user \<Rightarrow> userCredentialAccessBlocked user now) \<or>
     (\<exists>c. cr_agentTokenId row = Some c \<and> \<not> (\<exists>token \<in> set (tb_tokens tables). at_id token = c \<and> tokenLiveWhere now token)) \<or>
     (\<exists>c. cr_mcpGrantId row = Some c \<and> \<not> (\<exists>grant \<in> set (tb_grants tables). mg_id grant = c \<and> grantLiveWhere grant))"

lemma set_map_filter: "set (List.map_filter f xs) = {y. \<exists>x \<in> set xs. f x = Some y}"
  by (induction xs) (auto simp: List.map_filter_simps split: option.splits)

lemma commandEnded_dead:
  assumes "row \<in> set rows" "js_map_ok (tb_users tables)"
  shows "commandEnded tables now rows row \<longleftrightarrow> rowDead tables now row"
proof -
  have blocked: "(\<exists>user. (cr_userId row, user) \<in> set (tb_users tables) \<and> userCredentialAccessBlocked user now) \<or>
      \<not> (\<exists>user. (cr_userId row, user) \<in> set (tb_users tables)) \<longleftrightarrow>
    (case js_get (tb_users tables) (cr_userId row) of
        None \<Rightarrow> True | Some user \<Rightarrow> userCredentialAccessBlocked user now)"
    using js_map_ok_get[OF assms(2), of "cr_userId row"]
    by (cases "js_get (tb_users tables) (cr_userId row)") (auto, metis option.inject option.distinct(1))
  have token: "(case cr_agentTokenId row of None \<Rightarrow> False | Some c \<Rightarrow>
        c \<notin> at_id ` {token \<in> set (tb_tokens tables). at_id token \<in> {y. \<exists>x \<in> set rows. cr_agentTokenId x = Some y} \<and> tokenLiveWhere now token})
      \<longleftrightarrow> (\<exists>c. cr_agentTokenId row = Some c \<and> \<not> (\<exists>token \<in> set (tb_tokens tables). at_id token = c \<and> tokenLiveWhere now token))"
    using assms(1) by (cases "cr_agentTokenId row") auto
  have grant: "(case cr_mcpGrantId row of None \<Rightarrow> False | Some c \<Rightarrow>
        c \<notin> mg_id ` {grant \<in> set (tb_grants tables). mg_id grant \<in> {y. \<exists>x \<in> set rows. cr_mcpGrantId x = Some y} \<and> grantLiveWhere grant})
      \<longleftrightarrow> (\<exists>c. cr_mcpGrantId row = Some c \<and> \<not> (\<exists>grant \<in> set (tb_grants tables). mg_id grant = c \<and> grantLiveWhere grant))"
    using assms(1) by (cases "cr_mcpGrantId row") auto
  have users: "cr_userId row \<in> fst ` {x \<in> set (tb_users tables). P x \<and> fst x \<in> cr_userId ` set rows} \<longleftrightarrow>
      (\<exists>user. (cr_userId row, user) \<in> set (tb_users tables) \<and> P (cr_userId row, user))" for P
    using assms(1) by force
  show ?thesis
    unfolding commandEnded_def rowDead_def Let_def set_map set_filter set_remdups set_map_filter
      blocked[symmetric] token[symmetric] grant[symmetric]
    using users[of "\<lambda>(_, user). userCredentialAccessBlocked user now"] users[of "\<lambda>_. True"]
    by (simp add: case_prod_unfold conj_ac disj_assoc)
qed

lemma sweepPage_dead:
  assumes "js_map_ok (tb_users tables)"
  shows "sweepPage deliver tables now page t =
    (fold (cancelRow deliver) (filter (rowDead tables now) page) t, length (filter (rowDead tables now) page))"
proof -
  have "filter (commandEnded tables now page) page = filter (rowDead tables now) page"
    using commandEnded_dead[OF _ assms] by (intro filter_cong) auto
  then show ?thesis by (simp add: sweepPage_def Let_def)
qed

lemma sweepPages_all:
  assumes "distinct (map cr_id (seen @ rest))" "js_map_ok (tb_users tables)"
  shows "sweepPages deliver tables now (seen @ rest) (cursorAfter seen) cancelled t =
    Some (fold (cancelRow deliver) (filter (rowDead tables now) rest) t,
      cancelled + length (filter (rowDead tables now) rest))"
  using assms(1)
proof (induction "length rest" arbitrary: seen rest cancelled t rule: less_induct)
  case less
  let ?dead = "filter (rowDead tables now)"
  let ?page = "take NODE_COMMAND_SWEEP_PAGE rest" and ?rest = "drop NODE_COMMAND_SWEEP_PAGE rest"
  note page = pageOf_after[OF less.prems] and dead = sweepPage_dead[OF assms(2)]
  show ?case
  proof (cases "length ?page < NODE_COMMAND_SWEEP_PAGE")
    case True
    then have "?page = rest" by simp
    with True show ?thesis by (subst sweepPages.simps) (simp add: page dead Let_def)
  next
    case False
    then have long: "NODE_COMMAND_SWEEP_PAGE \<le> length rest" by simp
    then have "?page \<noteq> []" using page_positive by auto
    then have next_cursor: "map_option cr_id (if ?page = [] then None else Some (last ?page)) =
      cursorAfter (seen @ ?page)" by (rule cursorAfter_next)
    have "length ?rest < length rest" using long page_positive by simp
    moreover have "distinct (map cr_id ((seen @ ?page) @ ?rest))" using less.prems by (simp flip: map_append)
    ultimately have IH: "sweepPages deliver tables now ((seen @ ?page) @ ?rest) (cursorAfter (seen @ ?page)) cancelled' t' =
      Some (fold (cancelRow deliver) (?dead ?rest) t', cancelled' + length (?dead ?rest))" for cancelled' t'
      by (rule less.hyps)
    have all: "seen @ rest = (seen @ ?page) @ ?rest" and split: "?dead rest = ?dead ?page @ ?dead ?rest"
      by (simp_all flip: filter_append)
    have "sweepPages deliver tables now (seen @ rest) (cursorAfter seen) cancelled t =
      sweepPages deliver tables now (seen @ rest) (cursorAfter (seen @ ?page)) (cancelled + length (?dead ?page))
        (fold (cancelRow deliver) (?dead ?page) t)"
      using False by (subst sweepPages.simps) (simp only: page dead Let_def next_cursor if_False prod.case)
    then show ?thesis using IH unfolding all split by simp
  qed
qed


definition demoRow :: commandRow where
  "demoRow = \<lparr>cr_id = ''command'', cr_nodeId = ''node'', cr_userId = ''user'', cr_endsBy = 1000,
     cr_running = True, cr_agentTokenId = Some ''token'', cr_mcpGrantId = None\<rparr>"

definition demoTables :: accessTables where
  "demoTables = \<lparr>tb_tokens = [\<lparr>at_id = ''token'', at_level = LevelFull, at_revokedAt = Some 5, at_expiresAt = None\<rparr>],
     tb_grants = [],
     tb_users = [(''user'', \<lparr>ua_banned = None, ua_banExpires = None, ua_deletionRequestedAt = None\<rparr>)]\<rparr>"

definition noCommands :: tracker where
  "noCommands = \<lparr>ct_byId = [], ct_sent = []\<rparr>"




subsection \<open>A cancel is remembered\<close>

datatype trackerOp =
    DoTrack ident ident ident millis
  | DoStarted ident millis
  | DoForget ident ident
  | DoCancel ident ident ident millis
  | DoNodeReady ident
  | DoDropOverdue millis

fun trackerDo :: "deliver \<Rightarrow> trackerOp \<Rightarrow> tracker \<Rightarrow> tracker" where
  "trackerDo deliver (DoTrack c n u e) t = trackCommand c n u e t"
| "trackerDo deliver (DoStarted c e) t = startedCommand c e t"
| "trackerDo deliver (DoForget c n) t = forgetCommand c n t"
| "trackerDo deliver (DoCancel c n u e) t = fst (cancelCommand deliver c n u e t)"
| "trackerDo deliver (DoNodeReady n) t = nodeReady n t"
| "trackerDo deliver (DoDropOverdue now) t = dropOverdue now t"

definition trackerOk :: "tracker \<Rightarrow> bool" where
  "trackerOk t \<longleftrightarrow> js_map_ok (ct_byId t) \<and> (\<forall>c entry. js_get (ct_byId t) c = Some entry \<longrightarrow> tc_commandId entry = c)"

lemma fold_send:
  "fold (\<lambda>entry. sendCancel nodeId (tc_commandId entry) (tc_userId entry)) entries t =
     t\<lparr>ct_sent := ct_sent t @ map (\<lambda>entry. \<lparr>cf_nodeId = nodeId, cf_commandId = tc_commandId entry,
        cf_guardUser = tc_userId entry\<rparr>) entries\<rparr>"
  by (induction entries arbitrary: t) (simp_all add: sendCancel_def)

lemma nodeReady_alt:
  "nodeReady nodeId t = t\<lparr>ct_sent := ct_sent t @ map (\<lambda>entry. \<lparr>cf_nodeId = nodeId,
     cf_commandId = tc_commandId entry, cf_guardUser = tc_userId entry\<rparr>)
     (filter (\<lambda>entry. tc_nodeId entry = nodeId \<and> tc_cancelRequested entry) (js_values (ct_byId t)))\<rparr>"
  by (simp add: nodeReady_def fold_send)

lemma get_dropOverdue:
  "js_map_ok (ct_byId t) \<Longrightarrow> js_get (ct_byId (dropOverdue now t)) c = Some entry \<longleftrightarrow>
   js_get (ct_byId t) c = Some entry \<and> \<not> tc_endsBy entry + NODE_COMMAND_TRACK_GRACE_MS < now"
  by (simp add: dropOverdue_def js_map_ok_get distinct_map_filter)

lemma trackerDo_ok: "trackerOk t \<Longrightarrow> trackerOk (trackerDo deliver op t)"
proof (cases op)
  case (DoDropOverdue now)
  assume ok: "trackerOk t"
  have "js_map_ok (ct_byId (dropOverdue now t))"
    using ok by (simp add: trackerOk_def dropOverdue_def distinct_map_filter)
  with ok get_dropOverdue[of t now] DoDropOverdue show ?thesis by (simp add: trackerOk_def)
qed (auto simp: trackerOk_def trackCommand_def startedCommand_def forgetCommand_def cancelCommand_def
      nodeReady_alt sendCancel_def distinct_update distinct_delete split: option.splits if_splits
      simp del: map_of_eq_Some_iff)

lemma trackerRun_ok: "trackerOk (fold (trackerDo deliver) ops noCommands)"
proof -
  have "trackerOk t \<Longrightarrow> trackerOk (fold (trackerDo deliver) ops t)" for t
    by (induction ops arbitrary: t) (simp_all add: trackerDo_ok)
  moreover have "trackerOk noCommands" by (simp add: trackerOk_def noCommands_def)
  ultimately show ?thesis by blast
qed

text \<open>
  C38: a requested cancel is not forgotten. In every state reached by any sequence of calls, a
  command with a cancel requested keeps it through the next call unless the call is its own node's
  report of its end or drops it well past its end time; and when its node becomes ready the
  cancel is sent to it again, guarded by the command's owner.
\<close>

theorem cancel_remembered:
  assumes "t = fold (trackerDo deliver) ops noCommands"
    and "js_get (ct_byId t) c = Some entry" "tc_cancelRequested entry"
  shows "((\<exists>entry'. js_get (ct_byId (trackerDo deliver op t)) c = Some entry' \<and> tc_cancelRequested entry') \<or>
      op = DoForget c (tc_nodeId entry) \<or>
      (\<exists>now. op = DoDropOverdue now \<and> tc_endsBy entry + NODE_COMMAND_TRACK_GRACE_MS < now)) \<and>
    \<lparr>cf_nodeId = tc_nodeId entry, cf_commandId = c, cf_guardUser = tc_userId entry\<rparr>
      \<in> set (drop (length (ct_sent t)) (ct_sent (nodeReady (tc_nodeId entry) t)))"
proof -
  have ok: "trackerOk t" using trackerRun_ok assms(1) by simp
  then have id: "tc_commandId entry = c" and keys: "js_map_ok (ct_byId t)"
    using assms(2) by (auto simp: trackerOk_def)
  have "(\<exists>entry'. js_get (ct_byId (trackerDo deliver op t)) c = Some entry' \<and> tc_cancelRequested entry') \<or>
      op = DoForget c (tc_nodeId entry) \<or>
      (\<exists>now. op = DoDropOverdue now \<and> tc_endsBy entry + NODE_COMMAND_TRACK_GRACE_MS < now)"
  proof (cases op)
    case (DoDropOverdue now)
    then show ?thesis using get_dropOverdue[OF keys, of now c entry] assms(2,3) by auto
  qed (use assms(2,3) in \<open>auto simp: trackCommand_def startedCommand_def forgetCommand_def cancelCommand_def
      nodeReady_alt sendCancel_def split: option.splits if_splits\<close>)
  moreover have "entry \<in> set (js_values (ct_byId t))" using js_get_SomeD[OF assms(2)] by force
  ultimately show ?thesis using assms(3) id by (auto simp: nodeReady_alt)
qed

definition demoTracked :: tracker where
  "demoTracked = fold (trackerDo (\<lambda>_ _. False))
     [DoTrack ''command'' ''node'' ''user'' 1000, DoCancel ''command'' ''node'' ''user'' 1000] noCommands"

theorem cancel_remembered_witness:
  "\<lparr>cf_nodeId = ''node'', cf_commandId = ''command'', cf_guardUser = ''user''\<rparr>
     \<in> set (drop 1 (ct_sent (nodeReady ''node'' demoTracked)))"
proof -
  let ?entry = "\<lparr>tc_commandId = ''command'', tc_nodeId = ''node'', tc_userId = ''user'', tc_endsBy = 1000,
    tc_cancelRequested = True\<rparr> :: trackedCommand"
  have facts: "js_get (ct_byId demoTracked) ''command'' = Some ?entry" "length (ct_sent demoTracked) = 1"
    by (simp_all add: demoTracked_def trackCommand_def cancelCommand_def sendCancel_def noCommands_def)
  from cancel_remembered[OF demoTracked_def facts(1)] facts(2) show ?thesis by simp
qed

text \<open>
  C39: a cancel frame only ever goes to the command's own node, guarded by its owner: every frame a
  call sends names the node and the user the command is tracked for, so a cancel asked for with
  another node or another user sends nothing and changes nothing.
\<close>

theorem cancel_frames_owned:
  assumes "t = fold (trackerDo deliver) ops noCommands" "t' = trackerDo deliver op t"
    and "frame \<in> set (drop (length (ct_sent t)) (ct_sent t'))"
  shows "\<exists>entry. js_get (ct_byId t') (cf_commandId frame) = Some entry \<and>
    tc_nodeId entry = cf_nodeId frame \<and> tc_userId entry = cf_guardUser frame \<and> tc_cancelRequested entry"
proof (cases op)
  case (DoNodeReady nodeId)
  have ok: "trackerOk t" using trackerRun_ok assms(1) by simp
  from assms(2,3) DoNodeReady obtain entry where "entry \<in> set (js_values (ct_byId t))"
    "tc_nodeId entry = nodeId" "tc_cancelRequested entry"
    and frame: "frame = \<lparr>cf_nodeId = nodeId, cf_commandId = tc_commandId entry, cf_guardUser = tc_userId entry\<rparr>"
    by (auto simp: nodeReady_alt)
  moreover obtain key where key: "(key, entry) \<in> set (ct_byId t)" using calculation(1) by auto
  then have "js_get (ct_byId t) key = Some entry" using ok by (simp add: trackerOk_def)
  moreover from this have "tc_commandId entry = key" using ok by (simp add: trackerOk_def)
  ultimately show ?thesis using assms(2) DoNodeReady by (simp add: nodeReady_alt)
qed (use assms(2,3) in \<open>auto simp: trackCommand_def startedCommand_def forgetCommand_def cancelCommand_def
      sendCancel_def dropOverdue_def split: option.splits if_splits\<close>)

theorem cancel_frames_owned_witness:
  "\<exists>entry. js_get (ct_byId (nodeReady ''node'' demoTracked)) ''command'' = Some entry \<and>
     tc_nodeId entry = ''node'' \<and> tc_userId entry = ''user'' \<and> tc_cancelRequested entry"
proof -
  let ?frame = "\<lparr>cf_nodeId = ''node'', cf_commandId = ''command'', cf_guardUser = ''user''\<rparr> :: cancelFrame"
  have "?frame \<in> set (drop (length (ct_sent demoTracked)) (ct_sent (trackerDo (\<lambda>_ _. False) (DoNodeReady ''node'') demoTracked)))"
    by (simp add: nodeReady_alt demoTracked_def trackCommand_def cancelCommand_def sendCancel_def noCommands_def)
  from cancel_frames_owned[OF demoTracked_def refl this] show ?thesis by simp
qed

end
