(* ===== verification/CanonicalJson.thy ===== *)
theory CanonicalJson
  imports Collation
begin

text \<open>
  Canonical JSON (\<^verbatim>\<open>packages/api/src/lib/canonical-json.ts\<close>): the text the server hashes and
  compares resources, reservations and launches by.

  A value is a \<open>json\<close>; strings are UTF-16 code units. An object is the list
  \<^verbatim>\<open>Object.entries\<close> gives. A number is what \<^verbatim>\<open>Number.prototype.toString\<close> reads of it
  (ECMA-262, 6.1.6.1.20): a whole number, or a sign, the shortest decimal digits
  \<open>d\<^sub>1 \<dots> d\<^sub>k\<close> that read back as the same double, and the exponent \<open>n\<close> with
  value \<open>0.d\<^sub>1 \<dots> d\<^sub>k * 10\<^sup>n\<close>.

  \<open>canonical\<close> says what the text forgets: the order of members, \<^verbatim>\<open>undefined\<close> members and the
  sign of zero. The main theorem is that it forgets nothing else.
\<close>

subsection \<open>Values\<close>

datatype jsNumber =
    NonFinite
  | Whole int
  | NegativeZero
  | Fraction bool "nat list" int

datatype json =
    JUndefined
  | JNull
  | JBool bool
  | JNumber jsNumber
  | JString code_units
  | JArray "json list"
  | JObject "(code_units \<times> json) list"
  | JExotic
  | JUnsupported

datatype canonicalJsonError =
    NonFiniteNumber code_units
  | UnsafeInteger code_units
  | OutsideCanonicalRange code_units
  | LoneSurrogate code_units
  | LoneSurrogateKey code_units
  | UndefinedArrayItem code_units
  | OnlyPlainObjects code_units
  | Unsupported code_units

text \<open>The digits of a non-integer double in shortest form.\<close>

fun number_ok :: "jsNumber \<Rightarrow> bool" where
  "number_ok (Fraction neg ds n) \<longleftrightarrow>
     ds \<noteq> [] \<and> (\<forall>d \<in> set ds. d < 10) \<and> hd ds \<noteq> 0 \<and> last ds \<noteq> 0 \<and> n < int (length ds)"
| "number_ok num \<longleftrightarrow> True"

fun json_ok :: "json \<Rightarrow> bool" where
  "json_ok (JNumber num) = number_ok num"
| "json_ok (JArray items) = (\<forall>v \<in> set items. json_ok v)"
| "json_ok (JObject entries) = (\<forall>e \<in> set entries. json_ok (snd e))"
| "json_ok v = True"

subsection \<open>The program\<close>

fun LONE_SURROGATE :: "code_units \<Rightarrow> bool" where
  "LONE_SURROGATE [] \<longleftrightarrow> False"
| "LONE_SURROGATE [u] \<longleftrightarrow> high_surrogate u \<or> low_surrogate u"
| "LONE_SURROGATE (u # v # us) \<longleftrightarrow>
     (if high_surrogate u then (if low_surrogate v then LONE_SURROGATE us else True)
      else low_surrogate u \<or> LONE_SURROGATE (v # us))"

fun decimal :: "nat \<Rightarrow> code_units" where
  "decimal n = (if n < 10 then [48 + n] else decimal (n div 10) @ [48 + n mod 10])"

declare decimal.simps [simp del]

definition digit :: "nat \<Rightarrow> nat" where
  "digit d = 48 + d"

text \<open>\<^verbatim>\<open>String(value)\<close> of a whole number, and of a fraction whose exponent needs no exponent
  form (\<open>- 6 < n \<le> 21\<close>).\<close>

definition wholeText :: "int \<Rightarrow> code_units" where
  "wholeText i = (if i < 0 then 45 # decimal (nat (- i)) else decimal (nat i))"

definition fractionText :: "bool \<Rightarrow> nat list \<Rightarrow> int \<Rightarrow> code_units" where
  "fractionText neg ds n =
     (if neg then [45] else []) @
     (if 0 < n then map digit (take (nat n) ds) @ [46] @ map digit (drop (nat n) ds)
      else [48, 46] @ replicate (nat (- n)) 48 @ map digit ds)"

fun canonicalNumber :: "jsNumber \<Rightarrow> code_units \<Rightarrow> canonicalJsonError + code_units" where
  "canonicalNumber NonFinite path = Inl (NonFiniteNumber path)"
| "canonicalNumber (Whole i) path =
     (if \<bar>i\<bar> > 2 ^ 53 - 1 then Inl (UnsafeInteger path) else Inr (wholeText i))"
| "canonicalNumber NegativeZero path = Inr [48]"
| "canonicalNumber (Fraction neg ds n) path =
     (if n < - 5 \<or> 16 \<le> n then Inl (OutsideCanonicalRange path) else Inr (fractionText neg ds n))"

text \<open>\<^verbatim>\<open>JSON.stringify\<close> of a string without lone surrogates (ECMA-262, QuoteJSONString).\<close>

definition hexDigit :: "nat \<Rightarrow> nat" where
  "hexDigit d = (if d < 10 then 48 + d else 87 + d)"

definition escape :: "nat \<Rightarrow> code_units" where
  "escape u =
     (if u = 8 then [92, 98] else if u = 9 then [92, 116] else if u = 10 then [92, 110]
      else if u = 12 then [92, 102] else if u = 13 then [92, 114]
      else if u = 34 then [92, 34] else if u = 92 then [92, 92]
      else if u < 32 then [92, 117, 48, 48, hexDigit (u div 16), hexDigit (u mod 16)]
      else [u])"

definition quote :: "code_units \<Rightarrow> code_units" where
  "quote s = 34 # concat (map escape s) @ [34]"

definition entryOrder :: "code_units \<times> json \<Rightarrow> code_units \<times> json \<Rightarrow> int" where
  "entryOrder a b = compareCodePoints (fst a) (fst b)"

definition canonicalEntries :: "(code_units \<times> json) list \<Rightarrow> (code_units \<times> json) list" where
  "canonicalEntries entries = js_sort entryOrder (filter (\<lambda>e. snd e \<noteq> JUndefined) entries)"

text \<open>The texts of the parts, or the first part's error; the parts are separated by commas.\<close>

fun collect :: "('e + 'a) list \<Rightarrow> 'e + 'a list" where
  "collect [] = Inr []"
| "collect (Inl e # rest) = Inl e"
| "collect (Inr x # rest) = (case collect rest of Inl e \<Rightarrow> Inl e | Inr xs \<Rightarrow> Inr (x # xs))"

fun commas :: "code_units list \<Rightarrow> code_units" where
  "commas [] = []"
| "commas [t] = t"
| "commas (t # u # ts) = t @ [44] @ commas (u # ts)"

lemma set_canonicalEntries: "set (canonicalEntries entries) \<subseteq> set entries"
  by (auto simp: canonicalEntries_def)

lemma canonicalEntries_size: "e \<in> set (canonicalEntries entries) \<Longrightarrow> size (snd e) < size (JObject entries)"
proof -
  assume "e \<in> set (canonicalEntries entries)"
  then have "e \<in> set entries" using set_canonicalEntries by blast
  then have "(case e of (k, v) \<Rightarrow> Suc (size v)) \<le> size_list (\<lambda>(k, v). Suc (size v)) entries"
    by (simp add: size_list_estimation')
  then show ?thesis by (cases e) (simp add: size_prod_simp split_def)
qed

function (sequential) canonWrite :: "json \<Rightarrow> code_units \<Rightarrow> canonicalJsonError + code_units" where
  "canonWrite JNull path = Inr (js_units ''null'')"
| "canonWrite (JBool b) path = Inr (js_units (if b then ''true'' else ''false''))"
| "canonWrite (JNumber num) path = canonicalNumber num path"
| "canonWrite (JString s) path = (if LONE_SURROGATE s then Inl (LoneSurrogate path) else Inr (quote s))"
| "canonWrite (JArray items) path =
     (case collect (map (\<lambda>(i, v).
         let at = path @ [91] @ decimal i @ [93] in
         if v = JUndefined then Inl (UndefinedArrayItem at) else canonWrite v at) (enumerate 0 items)) of
        Inl e \<Rightarrow> Inl e
      | Inr texts \<Rightarrow> Inr ([91] @ commas texts @ [93]))"
| "canonWrite (JObject entries) path =
     (case collect (map (\<lambda>e.
         if LONE_SURROGATE (fst e) then Inl (LoneSurrogateKey path)
         else case canonWrite (snd e) (path @ [46] @ fst e) of
                Inl err \<Rightarrow> Inl err
              | Inr text \<Rightarrow> Inr (quote (fst e) @ [58] @ text)) (canonicalEntries entries)) of
        Inl e \<Rightarrow> Inl e
      | Inr texts \<Rightarrow> Inr ([123] @ commas texts @ [125]))"
| "canonWrite JExotic path = Inl (OnlyPlainObjects path)"
| "canonWrite v path = Inl (Unsupported path)"
  by pat_completeness auto
termination
proof (relation "measure (size \<circ> fst)")
  fix items :: "json list" and path i v x y at
  assume "x \<in> set (enumerate 0 items)" "(i, v) = x"
  then have "v \<in> set items" by (auto simp: in_set_enumerate_eq)
  then have "Suc (size v) \<le> size_list size items + 1" by (simp add: size_list_estimation')
  then show "((v, at), JArray items, path) \<in> measure (size \<circ> fst)" by simp
next
  fix entries :: "(code_units \<times> json) list" and path z
  assume "z \<in> set (canonicalEntries entries)"
  then show "((snd z, path @ [46] @ fst z), JObject entries, path) \<in> measure (size \<circ> fst)"
    using canonicalEntries_size by simp
qed simp

definition canonicalJson :: "json \<Rightarrow> canonicalJsonError + code_units" where
  "canonicalJson value = canonWrite value []"


subsection \<open>What the text forgets\<close>

fun canonicalNum :: "jsNumber \<Rightarrow> jsNumber" where
  "canonicalNum NegativeZero = Whole 0"
| "canonicalNum num = num"

function (sequential) canonical :: "json \<Rightarrow> json" where
  "canonical (JNumber num) = JNumber (canonicalNum num)"
| "canonical (JArray items) = JArray (map canonical items)"
| "canonical (JObject entries) = JObject (map (\<lambda>e. (fst e, canonical (snd e))) (canonicalEntries entries))"
| "canonical v = v"
  by pat_completeness auto
termination
proof (relation "measure size")
  fix items :: "json list" and v
  assume "v \<in> set items"
  then have "Suc (size v) \<le> size_list size items + 1" by (simp add: size_list_estimation')
  then show "(v, JArray items) \<in> measure size" by simp
next
  fix entries :: "(code_units \<times> json) list" and e
  assume "e \<in> set (canonicalEntries entries)"
  then show "(snd e, JObject entries) \<in> measure size" using canonicalEntries_size by simp
qed simp

interpretation entry_order: consistent_comparator entryOrder
proof unfold_locales
  fix x y z
  show "sgn (entryOrder y x) = - sgn (entryOrder x y)"
    unfolding entryOrder_def by (rule code_point_order.cmp_swap)
  show "entryOrder x y \<le> 0 \<Longrightarrow> entryOrder y z \<le> 0 \<Longrightarrow> entryOrder x z \<le> 0"
    unfolding entryOrder_def by (rule code_point_order.cmp_trans)
qed

lemma canonical_eq_undefined [simp]: "canonical v = JUndefined \<longleftrightarrow> v = JUndefined"
  by (cases v) auto

lemma canonicalEntries_map:
  assumes "\<And>e. e \<in> set entries \<Longrightarrow> f (snd e) = JUndefined \<longleftrightarrow> snd e = JUndefined"
  shows "canonicalEntries (map (\<lambda>e. (fst e, f (snd e))) entries) =
         map (\<lambda>e. (fst e, f (snd e))) (canonicalEntries entries)"
proof -
  have "filter (\<lambda>e. snd e \<noteq> JUndefined) (map (\<lambda>e. (fst e, f (snd e))) entries) =
        map (\<lambda>e. (fst e, f (snd e))) (filter (\<lambda>e. snd e \<noteq> JUndefined) entries)"
    using assms by (induction entries) auto
  moreover have "map (\<lambda>e. (fst e, f (snd e))) (js_sort entryOrder xs) =
      js_sort entryOrder (map (\<lambda>e. (fst e, f (snd e))) xs)" for xs
    by (rule map_js_sort) (simp add: entryOrder_def)
  ultimately show ?thesis
    unfolding canonicalEntries_def by simp
qed

lemma canonicalEntries_idem [simp]: "canonicalEntries (canonicalEntries entries) = canonicalEntries entries"
proof -
  have "filter (\<lambda>e. snd e \<noteq> JUndefined) (canonicalEntries entries) = canonicalEntries entries"
    by (rule filter_True) (auto simp: canonicalEntries_def)
  then show ?thesis
    unfolding canonicalEntries_def[of "canonicalEntries entries"]
    by (simp add: canonicalEntries_def entry_order.js_sort_ordered entry_order.ordered_js_sort)
qed

lemma canonicalEntries_canonical:
  "canonicalEntries (map (\<lambda>e. (fst e, canonical (snd e))) (canonicalEntries entries)) =
   map (\<lambda>e. (fst e, canonical (snd e))) (canonicalEntries entries)"
  by (subst canonicalEntries_map) simp_all

text \<open>A value and its canonical form have the same text, and fail in the same way.\<close>

lemma canonicalNumber_canonicalNum [simp]: "canonicalNumber (canonicalNum num) path = canonicalNumber num path"
  by (cases num) (simp_all add: wholeText_def decimal.simps)

lemma canonWrite_canonical: "canonWrite (canonical v) path = canonWrite v path"
proof (induction v path rule: canonWrite.induct)
  case (5 items path)
  have "map (\<lambda>(i, v). let at = path @ [91] @ decimal i @ [93] in
           if v = JUndefined then Inl (UndefinedArrayItem at) else canonWrite v at)
         (enumerate 0 (map canonical items)) =
       map (\<lambda>(i, v). let at = path @ [91] @ decimal i @ [93] in
           if v = JUndefined then Inl (UndefinedArrayItem at) else canonWrite v at) (enumerate 0 items)"
  proof (rule nth_equalityI)
    fix i assume "i < length (map (\<lambda>(i, v). let at = path @ [91] @ decimal i @ [93] in
           if v = JUndefined then Inl (UndefinedArrayItem at) else canonWrite v at)
         (enumerate 0 (map canonical items)))"
    then have i: "i < length items" by simp
    then have "(i, items ! i) \<in> set (enumerate 0 items)" by (simp add: in_set_enumerate_eq)
    then show "map (\<lambda>(i, v). let at = path @ [91] @ decimal i @ [93] in
           if v = JUndefined then Inl (UndefinedArrayItem at) else canonWrite v at)
         (enumerate 0 (map canonical items)) ! i =
       map (\<lambda>(i, v). let at = path @ [91] @ decimal i @ [93] in
           if v = JUndefined then Inl (UndefinedArrayItem at) else canonWrite v at) (enumerate 0 items) ! i"
      using i 5[OF _ refl refl] by (simp add: nth_enumerate_eq Let_def)
  qed simp
  then show ?case by simp
next
  case (6 entries path)
  let ?text = "\<lambda>e. if LONE_SURROGATE (fst e) then Inl (LoneSurrogateKey path)
         else case canonWrite (snd e) (path @ [46] @ fst e) of
                Inl err \<Rightarrow> Inl err
              | Inr text \<Rightarrow> Inr (quote (fst e) @ [58] @ text)"
  have "map ?text (map (\<lambda>e. (fst e, canonical (snd e))) (canonicalEntries entries)) =
        map ?text (canonicalEntries entries)"
    using 6 by (simp split: sum.split)
  then show ?case
    by (simp only: canonical.simps canonWrite.simps canonicalEntries_canonical)
qed simp_all


subsection \<open>Reading the texts of the parts back\<close>

text \<open>What may follow a value in a text: nothing, a comma or a closing bracket.\<close>

definition stops :: "code_units \<Rightarrow> bool" where
  "stops r \<longleftrightarrow> r = [] \<or> hd r \<in> {44, 93, 125}"

lemma stops_simps [simp]: "stops []" "stops (44 # r)" "stops (93 # r)" "stops (125 # r)"
  by (simp_all add: stops_def)

lemma decimal_props: "decimal n \<noteq> [] \<and> set (decimal n) \<subseteq> {48..57}"
proof (induction n rule: decimal.induct)
  case (1 n)
  then show ?case by (subst (1 2) decimal.simps) auto
qed

lemma decimal_value: "foldl (\<lambda>a c. a * 10 + (c - 48)) 0 (decimal n) = n"
proof (induction n rule: decimal.induct)
  case (1 n)
  then show ?case by (subst decimal.simps) (auto simp: div_mult_mod_eq)
qed

lemma decimal_inj: "decimal m = decimal n \<Longrightarrow> m = n"
  by (metis decimal_value)

lemma inj_digit: "inj digit"
  by (auto simp: inj_def digit_def)

lemma takeWhile_stop: "(\<forall>c \<in> set t. P c) \<Longrightarrow> r = [] \<or> \<not> P (hd r) \<Longrightarrow> takeWhile P (t @ r) = t"
  by (induction t) (auto simp: takeWhile_eq_Nil_iff)

lemma takeWhile_split:
  assumes "\<forall>c \<in> set t. P c" "\<forall>c \<in> set u. P c" "r = [] \<or> \<not> P (hd r)" "r' = [] \<or> \<not> P (hd r')"
    and "t @ r = u @ r'"
  shows "t = u \<and> r = r'"
  using takeWhile_stop[OF assms(1,3)] takeWhile_stop[OF assms(2,4)] assms(5) by simp

definition number_unit :: "nat \<Rightarrow> bool" where
  "number_unit c \<longleftrightarrow> c = 45 \<or> c = 46 \<or> 48 \<le> c \<and> c \<le> 57"

lemma wholeText_units: "wholeText i \<noteq> [] \<and> (\<forall>c \<in> set (wholeText i). number_unit c \<and> c \<noteq> 46)"
  using decimal_props[of "nat i"] decimal_props[of "nat (- i)"]
  by (auto simp: wholeText_def number_unit_def)

lemma wholeText_inj: "wholeText i = wholeText j \<Longrightarrow> i = j"
proof -
  assume eq: "wholeText i = wholeText j"
  have "hd (decimal n) \<noteq> 45" for n
    using decimal_props[of n] hd_in_set[of "decimal n"] by fastforce
  then have "i < 0 \<longleftrightarrow> j < 0"
    using eq by (auto simp: wholeText_def split: if_splits) (metis list.sel(1))+
  then show ?thesis using eq by (auto simp: wholeText_def dest: decimal_inj split: if_splits)
qed

lemma fractionText_units:
  "number_ok (Fraction neg ds n) \<Longrightarrow>
   fractionText neg ds n \<noteq> [] \<and> (\<forall>c \<in> set (fractionText neg ds n). number_unit c) \<and>
   46 \<in> set (fractionText neg ds n)"
  by (auto simp: fractionText_def number_unit_def digit_def dest!: in_set_takeD in_set_dropD)

lemma fractionText_inj:
  assumes ok: "number_ok (Fraction neg ds n)" "number_ok (Fraction neg' ds' n')"
    and eq: "fractionText neg ds n = fractionText neg' ds' n'"
  shows "neg = neg' \<and> ds = ds' \<and> n = n'"
proof -
  let ?body = "\<lambda>ds n. if 0 < n then map digit (take (nat n) ds) @ [46] @ map digit (drop (nat n) ds)
      else [48, 46] @ replicate (nat (- n)) 48 @ map digit ds"
  have hd_body: "hd (?body es m) \<noteq> 45" if "number_ok (Fraction b es m)" for b es and m :: int
    using that by (auto simp: hd_append digit_def hd_map)
  have "neg = neg'"
    using eq hd_body[OF ok(1)] hd_body[OF ok(2)]
    unfolding fractionText_def by (cases neg; cases neg') (auto dest: arg_cong[where f = hd])
  with eq have body: "?body ds n = ?body ds' n'" by (simp add: fractionText_def)
  have no_dot: "\<forall>c \<in> set (map digit es). c \<noteq> 46" for es by (auto simp: digit_def)
  have hd_ds: "digit (hd ds) \<noteq> 48" "digit (hd ds') \<noteq> 48" using ok by (auto simp: digit_def)
  have hd_take: "hd (map digit (take (nat m) es)) = digit (hd es)" "take (nat m) es \<noteq> []"
    if "0 < m" "es \<noteq> []" for m es using that by (auto simp: hd_map)
  have pos: "0 < n \<longleftrightarrow> 0 < n'"
  proof (rule ccontr)
    assume "\<not> ?thesis"
    then consider "0 < n" "n' \<le> 0" | "n \<le> 0" "0 < n'" by linarith
    then show False
      using body hd_ds hd_take ok
      by cases (auto simp: hd_append split: if_splits dest!: arg_cong[where f = hd])
  qed
  show ?thesis
  proof (cases "0 < n")
    case True
    with pos body have "map digit (take (nat n) ds) @ 46 # map digit (drop (nat n) ds) =
        map digit (take (nat n') ds') @ 46 # map digit (drop (nat n') ds')" by simp
    then have parts: "map digit (take (nat n) ds) = map digit (take (nat n') ds') \<and>
        46 # map digit (drop (nat n) ds) = 46 # map digit (drop (nat n') ds')"
      by (intro takeWhile_split[where P = "\<lambda>c. c \<noteq> 46"]) (auto simp: digit_def)
    then have td: "take (nat n) ds = take (nat n') ds'" "drop (nat n) ds = drop (nat n') ds'"
      using inj_digit by (auto simp: inj_map_eq_map)
    then have "ds = ds'" by (metis append_take_drop_id)
    have "length (take (nat n) ds) = length (take (nat n') ds')" using td by simp
    moreover have "nat n < length ds" "nat n' < length ds'" using ok True pos by (simp_all add: nat_less_iff)
    ultimately have "nat n = nat n'" by simp
    then show ?thesis using \<open>neg = neg'\<close> \<open>ds = ds'\<close> pos True by simp
  next
    case False
    with pos body have "replicate (nat (- n)) 48 @ map digit ds = replicate (nat (- n')) 48 @ map digit ds'"
      by simp
    then have parts: "replicate (nat (- n)) 48 = replicate (nat (- n')) (48 :: nat) \<and> map digit ds = map digit ds'"
      using hd_ds ok by (intro takeWhile_split[where P = "\<lambda>c. c = 48"]) (auto simp: hd_map)
    then have "nat (- n) = nat (- n')" by (metis length_replicate)
    then show ?thesis
      using \<open>neg = neg'\<close> parts False pos inj_digit by (auto simp: inj_map_eq_map)
  qed
qed

lemma canonicalNumber_units:
  "canonicalNumber num path = Inr t \<Longrightarrow> number_ok num \<Longrightarrow> t \<noteq> [] \<and> (\<forall>c \<in> set t. number_unit c)"
proof (cases num)
  case (Whole i)
  then show "canonicalNumber num path = Inr t \<Longrightarrow> ?thesis"
    using wholeText_units[of i] by (auto split: if_splits)
next
  case (Fraction neg ds n)
  then show "canonicalNumber num path = Inr t \<Longrightarrow> number_ok num \<Longrightarrow> ?thesis"
    using fractionText_units[of neg ds n] by (auto split: if_splits)
qed (auto simp: number_unit_def)

lemma wholeText_0: "wholeText 0 = [48]"
  by (simp add: wholeText_def decimal.simps[of 0])

lemma canonicalNumber_cases:
  assumes "canonicalNumber num p = Inr t"
  obtains (whole) i where "canonicalNum num = Whole i" "t = wholeText i"
  | (fraction) neg ds n where "num = Fraction neg ds n" "t = fractionText neg ds n"
proof (cases num)
  case NegativeZero
  then show ?thesis using assms whole[of 0] by (simp add: wholeText_0)
qed (use assms whole fraction in \<open>auto split: if_splits\<close>)

lemma canonicalNumber_inj:
  assumes a: "canonicalNumber a p = Inr t" "number_ok a" and b: "canonicalNumber b q = Inr t" "number_ok b"
  shows "canonicalNum a = canonicalNum b"
proof -
  have dot: "46 \<notin> set (wholeText i)" for i using wholeText_units by blast
  show ?thesis
    using a(1)
  proof (cases rule: canonicalNumber_cases)
    case (whole i)
    have "46 \<notin> set t" using whole dot by simp
    then obtain j where "canonicalNum b = Whole j" "t = wholeText j"
      using b(2) fractionText_units by (cases rule: canonicalNumber_cases[OF b(1)]) blast+
    then show ?thesis using whole by (simp add: wholeText_inj)
  next
    case (fraction neg ds n)
    then have "46 \<in> set t" using fractionText_units a(2) by blast
    then obtain neg' ds' n' where "b = Fraction neg' ds' n'" "t = fractionText neg' ds' n'"
      using dot by (cases rule: canonicalNumber_cases[OF b(1)]) auto
    then show ?thesis using fractionText_inj[of neg ds n neg' ds' n'] fraction a(2) b(2) by simp
  qed
qed

lemma escape_split: "escape a @ r = escape b @ r' \<Longrightarrow> a = b \<and> r = r'"
proof -
  have hex: "hexDigit (u div 16) = hexDigit (v div 16) \<Longrightarrow> hexDigit (u mod 16) = hexDigit (v mod 16) \<Longrightarrow>
      u < 32 \<Longrightarrow> v < 32 \<Longrightarrow> u = v" for u v
  proof -
    assume eq: "hexDigit (u div 16) = hexDigit (v div 16)" "hexDigit (u mod 16) = hexDigit (v mod 16)"
    have inj: "hexDigit x = hexDigit y \<Longrightarrow> x < 16 \<Longrightarrow> y < 16 \<Longrightarrow> x = y" for x y
      by (auto simp: hexDigit_def split: if_splits)
    assume "u < 32" "v < 32"
    then have "u div 16 = v div 16" "u mod 16 = v mod 16" using eq inj by auto
    then show "u = v" by (metis div_mult_mod_eq)
  qed
  assume "escape a @ r = escape b @ r'"
  then show ?thesis by (auto simp: escape_def dest: hex split: if_splits)
qed

lemma escape_not_quote: "escape a @ r \<noteq> 34 # r'"
  by (auto simp: escape_def)

lemma quote_split: "quote a @ r = quote b @ r' \<Longrightarrow> a = b \<and> r = r'"
proof -
  have "concat (map escape a) @ 34 # r = concat (map escape b) @ 34 # r' \<Longrightarrow> a = b \<and> r = r'"
  proof (induction a arbitrary: b)
    case Nil
    then show ?case by (cases b) (auto dest: escape_not_quote[THEN notE, OF sym])
  next
    case (Cons x a)
    then show ?case
    proof (cases b)
      case Nil
      then show ?thesis using Cons.prems escape_not_quote[of x "concat (map escape a) @ 34 # r" r'] by simp
    next
      case (Cons y b')
      then show ?thesis using Cons.prems Cons.IH[of b'] escape_split[of x _ y] by auto
    qed
  qed
  then show "quote a @ r = quote b @ r' \<Longrightarrow> a = b \<and> r = r'" by (simp add: quote_def)
qed


lemma collect_map_Inr [simp]: "collect (map Inr ys) = Inr ys"
  by (induction ys) simp_all

lemma collect_Inr: "collect xs = Inr ys \<longleftrightarrow> xs = map Inr ys"
proof
  show "collect xs = Inr ys \<Longrightarrow> xs = map Inr ys"
    by (induction xs arbitrary: ys rule: collect.induct) (auto split: sum.splits)
qed simp

text \<open>A list of parts, each of which is read back before a stop, is read back before its closing
  bracket.\<close>

lemma commas_split:
  assumes "\<And>t u r r'. t \<in> set ts \<Longrightarrow> u \<in> set us \<Longrightarrow> stops r \<Longrightarrow> stops r' \<Longrightarrow>
      t @ r = u @ r' \<Longrightarrow> t = u"
    and "\<And>t. t \<in> set ts \<union> set us \<Longrightarrow> t \<noteq> [] \<and> hd t \<notin> {44, 93, 125}"
    and "c = 93 \<or> c = 125" and "commas ts @ c # r = commas us @ c # r'"
  shows "ts = us \<and> r = r'"
  using assms
proof (induction ts arbitrary: us)
  case Nil
  then show ?case
  proof (cases us)
    case (Cons u us')
    then have "u \<noteq> []" "hd u \<notin> {44, 93, 125}" using Nil.prems(2)[of u] by auto
    then show ?thesis using Nil.prems(3,4) Cons by (cases us'; cases u) auto
  qed simp
next
  case (Cons t ts)
  have t: "t \<noteq> []" "hd t \<notin> {44, 93, 125}" using Cons.prems(2)[of t] by auto
  then obtain u us' where us: "us = u # us'"
    using Cons.prems(3,4) by (cases us; cases ts; cases t) auto
  define tail where "tail xs = (if xs = [] then c # r else 44 # commas xs @ c # r)" for xs
  define tail' where "tail' xs = (if xs = [] then c # r' else 44 # commas xs @ c # r')" for xs
  have split: "commas (t # ts) @ c # r = t @ tail ts" "commas (u # us') @ c # r' = u @ tail' us'"
    by (cases ts; simp add: tail_def) (cases us'; simp add: tail'_def)
  have stop: "stops (tail ts)" "stops (tail' us')"
    using Cons.prems(3) by (auto simp: tail_def tail'_def)
  have eq: "t @ tail ts = u @ tail' us'" using Cons.prems(4) us split by simp
  then have "t = u" using Cons.prems(1)[of t u] us stop by simp
  with eq have tails: "tail ts = tail' us'" by simp
  show ?case
  proof (cases "ts = [] \<or> us' = []")
    case True
    then show ?thesis
      using tails \<open>t = u\<close> us Cons.prems(3) by (auto simp: tail_def tail'_def split: if_splits)
  next
    case False
    then have "commas ts @ c # r = commas us' @ c # r'" using tails by (simp add: tail_def tail'_def)
    then have "ts = us' \<and> r = r'"
      using Cons.IH[of us'] Cons.prems(1,2,3) us by (metis Un_iff list.set_intros(2))
    then show ?thesis using \<open>t = u\<close> us by simp
  qed
qed


subsection \<open>The texts of values\<close>

fun text_head :: "json \<Rightarrow> nat \<Rightarrow> bool" where
  "text_head JNull c \<longleftrightarrow> c = 110"
| "text_head (JBool b) c \<longleftrightarrow> c = (if b then 116 else 102)"
| "text_head (JNumber num) c \<longleftrightarrow> number_unit c"
| "text_head (JString s) c \<longleftrightarrow> c = 34"
| "text_head (JArray items) c \<longleftrightarrow> c = 91"
| "text_head (JObject entries) c \<longleftrightarrow> c = 123"
| "text_head v c \<longleftrightarrow> False"

lemma literal_units:
  "js_units ''null'' = [110, 117, 108, 108]" "js_units ''true'' = [116, 114, 117, 101]"
  "js_units ''false'' = [102, 97, 108, 115, 101]"
  by (simp_all add: js_units_def)

lemma canonWrite_array:
  assumes "canonWrite (JArray items) path = Inr s"
  obtains ts where "s = 91 # commas ts @ [93]" "length ts = length items"
    "\<And>i. i < length items \<Longrightarrow> \<exists>q. canonWrite (items ! i) q = Inr (ts ! i)"
proof -
  let ?text = "\<lambda>(i, v). let at = path @ [91] @ decimal i @ [93] in
         if v = JUndefined then Inl (UndefinedArrayItem at) else canonWrite v at"
  obtain ts where s: "s = 91 # commas ts @ [93]" and ts: "map ?text (enumerate 0 items) = map Inr ts"
    using assms by (auto simp: collect_Inr split: sum.splits)
  have len: "length ts = length items" using arg_cong[OF ts, of length] by simp
  have "\<exists>q. canonWrite (items ! i) q = Inr (ts ! i)" if i: "i < length items" for i
  proof -
    have "?text (i, items ! i) = Inr (ts ! i)"
      using arg_cong[OF ts, of "\<lambda>xs. xs ! i"] i len by (simp add: nth_enumerate_eq)
    then show ?thesis by (auto simp: Let_def split: if_splits)
  qed
  then show thesis using that s len by blast
qed

lemma canonWrite_object:
  assumes "canonWrite (JObject entries) path = Inr s"
  obtains ts where "s = 123 # commas ts @ [125]" "length ts = length (canonicalEntries entries)"
    "\<And>i. i < length ts \<Longrightarrow> \<exists>q t. canonWrite (snd (canonicalEntries entries ! i)) q = Inr t \<and>
        ts ! i = quote (fst (canonicalEntries entries ! i)) @ 58 # t"
proof -
  let ?text = "\<lambda>e. if LONE_SURROGATE (fst e) then Inl (LoneSurrogateKey path)
         else case canonWrite (snd e) (path @ [46] @ fst e) of
                Inl err \<Rightarrow> Inl err
              | Inr text \<Rightarrow> Inr (quote (fst e) @ [58] @ text)"
  obtain ts where s: "s = 123 # commas ts @ [125]"
    and ts: "map ?text (canonicalEntries entries) = map Inr ts"
    using assms by (auto simp: collect_Inr split: sum.splits)
  have len: "length ts = length (canonicalEntries entries)" using arg_cong[OF ts, of length] by simp
  have "\<exists>q t. canonWrite (snd (canonicalEntries entries ! i)) q = Inr t \<and>
        ts ! i = quote (fst (canonicalEntries entries ! i)) @ 58 # t" if i: "i < length ts" for i
  proof -
    have "?text (canonicalEntries entries ! i) = Inr (ts ! i)"
      using arg_cong[OF ts, of "\<lambda>xs. xs ! i"] i len by simp
    then show ?thesis by (auto split: if_splits sum.splits) metis
  qed
  then show thesis using that s len by blast
qed

lemma canonWrite_head:
  assumes "canonWrite v path = Inr t" "json_ok v"
  shows "t \<noteq> [] \<and> text_head v (hd t)"
proof (cases v)
  case (JNumber num)
  then show ?thesis using canonicalNumber_units[of num path t] assms by auto
next
  case (JArray items)
  obtain ts where "t = 91 # commas ts @ [93]" using canonWrite_array assms(1) JArray by blast
  then show ?thesis using JArray by simp
next
  case (JObject entries)
  obtain ts where "t = 123 # commas ts @ [125]" using canonWrite_object assms(1) JObject by blast
  then show ?thesis using JObject by simp
qed (use assms in \<open>auto simp: literal_units quote_def split: if_splits\<close>)

lemma text_head_stop: "text_head v c \<Longrightarrow> c \<notin> {44, 93, 125}"
  by (cases v) (auto simp: number_unit_def)

lemma canonWrite_heads:
  assumes "canonWrite v p = Inr s" "canonWrite w q = Inr t" "json_ok v" "json_ok w" "s @ r = t @ r'"
  shows "text_head v (hd s) \<and> text_head w (hd s)"
  using canonWrite_head[OF assms(1,3)] canonWrite_head[OF assms(2,4)] assms(5) by (metis hd_append2)

lemma json_ok_entry: "json_ok (JObject entries) \<Longrightarrow> e \<in> set (canonicalEntries entries) \<Longrightarrow> json_ok (snd e)"
  using set_canonicalEntries by fastforce

text \<open>No text of a value is a proper prefix of another one before a stop.\<close>

lemma canonWrite_split:
  assumes "canonWrite v p = Inr s" "canonWrite w q = Inr t" "json_ok v" "json_ok w"
    and "stops r" "stops r'" "s @ r = t @ r'"
  shows "s = t"
  using assms
proof (induction v arbitrary: w p q s t r r')
  case (JArray items)
  obtain items' where w: "w = JArray items'"
    using canonWrite_heads[OF JArray.prems(1-4,7)] by (cases w) (auto simp: number_unit_def split: if_splits)
  obtain ts where ts: "s = 91 # commas ts @ [93]" "length ts = length items"
    "\<And>i. i < length items \<Longrightarrow> \<exists>q. canonWrite (items ! i) q = Inr (ts ! i)"
    using canonWrite_array[OF JArray.prems(1)] by blast
  obtain us where us: "t = 91 # commas us @ [93]" "length us = length items'"
    "\<And>i. i < length items' \<Longrightarrow> \<exists>q. canonWrite (items' ! i) q = Inr (us ! i)"
    using canonWrite_array JArray.prems(2) w by blast
  have part: "\<exists>v q. v \<in> set items \<and> canonWrite v q = Inr x" if "x \<in> set ts" for x
    using that ts(2,3) by (metis in_set_conv_nth nth_mem)
  have part': "\<exists>v q. v \<in> set items' \<and> canonWrite v q = Inr x" if "x \<in> set us" for x
    using that us(2,3) by (metis in_set_conv_nth nth_mem)
  have "ts = us \<and> r = r'"
  proof (rule commas_split[where c = 93])
    show "commas ts @ 93 # r = commas us @ 93 # r'" using ts(1) us(1) JArray.prems(7) by simp
    show "x \<noteq> [] \<and> hd x \<notin> {44, 93, 125}" if "x \<in> set ts \<union> set us" for x
      using that part part' canonWrite_head text_head_stop JArray.prems(3,4) w
      by (metis Un_iff json_ok.simps(2))
    show "x = y" if "x \<in> set ts" "y \<in> set us" "stops k" "stops k'" "x @ k = y @ k'" for x y k k'
      using part[OF that(1)] part'[OF that(2)] JArray.IH that(3-5) JArray.prems(3,4) w
      by (metis json_ok.simps(2))
  qed simp
  then show ?case using ts(1) us(1) by simp
next
  case (JObject entries)
  obtain entries' where w: "w = JObject entries'"
    using canonWrite_heads[OF JObject.prems(1-4,7)] by (cases w) (auto simp: number_unit_def split: if_splits)
  obtain ts where ts: "s = 123 # commas ts @ [125]" "length ts = length (canonicalEntries entries)"
    "\<And>i. i < length ts \<Longrightarrow> \<exists>q t. canonWrite (snd (canonicalEntries entries ! i)) q = Inr t \<and>
        ts ! i = quote (fst (canonicalEntries entries ! i)) @ 58 # t"
    using canonWrite_object[OF JObject.prems(1)] by blast
  obtain us where us: "t = 123 # commas us @ [125]" "length us = length (canonicalEntries entries')"
    "\<And>i. i < length us \<Longrightarrow> \<exists>q t. canonWrite (snd (canonicalEntries entries' ! i)) q = Inr t \<and>
        us ! i = quote (fst (canonicalEntries entries' ! i)) @ 58 # t"
    using canonWrite_object JObject.prems(2) w by blast
  have part: "\<exists>e q y. e \<in> set (canonicalEntries entries) \<and> canonWrite (snd e) q = Inr y \<and>
      x = quote (fst e) @ 58 # y" if "x \<in> set ts" for x
    using that ts(2,3) by (metis in_set_conv_nth nth_mem)
  have part': "\<exists>e q y. e \<in> set (canonicalEntries entries') \<and> canonWrite (snd e) q = Inr y \<and>
      x = quote (fst e) @ 58 # y" if "x \<in> set us" for x
    using that us(2,3) by (metis in_set_conv_nth nth_mem)
  have "ts = us \<and> r = r'"
  proof (rule commas_split[where c = 125])
    show "commas ts @ 125 # r = commas us @ 125 # r'" using ts(1) us(1) JObject.prems(7) by simp
    show "x \<noteq> [] \<and> hd x \<notin> {44, 93, 125}" if "x \<in> set ts \<union> set us" for x
      using that part[of x] part'[of x] by (auto simp: quote_def)
    show "x = y" if x: "x \<in> set ts" and y: "y \<in> set us" and k: "stops k" "stops k'" and xy: "x @ k = y @ k'"
      for x y k k'
    proof -
      obtain e q a where e: "e \<in> set (canonicalEntries entries)" "canonWrite (snd e) q = Inr a"
        "x = quote (fst e) @ 58 # a" using part[OF x] by blast
      obtain e' q' a' where e': "e' \<in> set (canonicalEntries entries')" "canonWrite (snd e') q' = Inr a'"
        "y = quote (fst e') @ 58 # a'" using part'[OF y] by blast
      have "quote (fst e) @ 58 # a @ k = quote (fst e') @ 58 # a' @ k'" using e(3) e'(3) xy by simp
      then have keys: "fst e = fst e'" "a @ k = a' @ k'" using quote_split[of "fst e" _ "fst e'"] by auto
      have "e \<in> set entries" using e(1) set_canonicalEntries by blast
      moreover have "snd e \<in> Basic_BNFs.snds e" by (cases e) simp
      ultimately have "a = a'"
        using JObject.IH[OF _ _ e(2) e'(2) _ _ k keys(2)] e(1) e'(1) JObject.prems(3,4) w
          json_ok_entry by blast
      then show "x = y" using e(3) e'(3) keys(1) by simp
    qed
  qed simp
  then show ?case using ts(1) us(1) by simp
next
  case (JNumber num)
  obtain num' where w: "w = JNumber num'"
    using canonWrite_heads[OF JNumber.prems(1-4,7)] by (cases w) (auto simp: number_unit_def split: if_splits)
  have "r = [] \<or> \<not> number_unit (hd r)" "r' = [] \<or> \<not> number_unit (hd r')"
    using JNumber.prems(5,6) by (auto simp: stops_def number_unit_def)
  then show ?case
    using takeWhile_split[of s number_unit t r r'] canonicalNumber_units[of num p s]
      canonicalNumber_units[of num' q t] JNumber.prems w by auto
next
  case (JString a)
  then obtain b where "w = JString b"
    using canonWrite_heads[OF JString.prems(1-4,7)] by (cases w) (auto simp: number_unit_def split: if_splits)
  then show ?case using JString.prems quote_split[of a r b r'] by (auto split: if_splits)
next
  case JNull
  then have "w = JNull"
    using canonWrite_heads[OF JNull.prems(1-4,7)] by (cases w) (auto simp: number_unit_def literal_units split: if_splits)
  then show ?case using JNull.prems by simp
next
  case (JBool b)
  then have "w = JBool b"
    using canonWrite_heads[OF JBool.prems(1-4,7)] by (cases w) (auto simp: number_unit_def literal_units split: if_splits)
  then show ?case using JBool.prems by simp
qed simp_all

text \<open>Equal texts come from values that are equal up to what the text forgets.\<close>

lemma array_texts:
  assumes "canonWrite (JArray items) p = Inr s" "canonWrite (JArray items') q = Inr s"
    and ok: "json_ok (JArray items)" "json_ok (JArray items')"
  obtains ts where "length items = length ts" "length items' = length ts"
    "\<And>i. i < length ts \<Longrightarrow> \<exists>q. canonWrite (items ! i) q = Inr (ts ! i)"
    "\<And>i. i < length ts \<Longrightarrow> \<exists>q. canonWrite (items' ! i) q = Inr (ts ! i)"
proof -
  obtain ts where ts: "s = 91 # commas ts @ [93]" "length ts = length items"
    "\<And>i. i < length items \<Longrightarrow> \<exists>q. canonWrite (items ! i) q = Inr (ts ! i)"
    using canonWrite_array[OF assms(1)] by blast
  obtain us where us: "s = 91 # commas us @ [93]" "length us = length items'"
    "\<And>i. i < length items' \<Longrightarrow> \<exists>q. canonWrite (items' ! i) q = Inr (us ! i)"
    using canonWrite_array[OF assms(2)] by blast
  have part: "\<exists>v q. json_ok v \<and> canonWrite v q = Inr x" if x: "x \<in> set ts \<union> set us" for x
  proof (cases "x \<in> set ts")
    case True
    then obtain i where i: "i < length items" "x = ts ! i" using ts(2) by (auto simp: in_set_conv_nth)
    then have "json_ok (items ! i)" using ok(1) by simp
    then show ?thesis using ts(3)[OF i(1)] i(2) by blast
  next
    case False
    then obtain i where i: "i < length items'" "x = us ! i" using x us(2) by (auto simp: in_set_conv_nth)
    then have "json_ok (items' ! i)" using ok(2) by simp
    then show ?thesis using us(3)[OF i(1)] i(2) by blast
  qed
  have "ts = us \<and> ([] :: code_units) = []"
  proof (rule commas_split[where c = 93])
    show "commas ts @ 93 # [] = commas us @ 93 # []" using ts(1) us(1) by simp
    show "x \<noteq> [] \<and> hd x \<notin> {44, 93, 125}" if x: "x \<in> set ts \<union> set us" for x
    proof -
      obtain v q where "json_ok v" "canonWrite v q = Inr x" using part[OF x] by blast
      then show ?thesis using canonWrite_head[of v q x] text_head_stop[of v "hd x"] by blast
    qed
    show "x = y" if x: "x \<in> set ts" and y: "y \<in> set us" and k: "stops k" "stops k'" "x @ k = y @ k'" for x y k k'
    proof -
      obtain v q where "json_ok v" "canonWrite v q = Inr x" using part[of x] x by blast
      moreover obtain w q' where "json_ok w" "canonWrite w q' = Inr y" using part[of y] y by blast
      ultimately show ?thesis using canonWrite_split[of v q x w q' y k k'] k by blast
    qed
  qed simp
  then have "ts = us" by blast
  show thesis
    by (rule that[of ts]) (use ts(2,3) us(2,3) \<open>ts = us\<close> in auto)
qed

lemma object_texts:
  assumes "canonWrite (JObject entries) p = Inr s" "canonWrite (JObject entries') q = Inr s"
    and ok: "json_ok (JObject entries)" "json_ok (JObject entries')"
  defines "es \<equiv> canonicalEntries entries" and "es' \<equiv> canonicalEntries entries'"
  obtains ts where "length es = length ts" "length es' = length ts"
    "\<And>i. i < length ts \<Longrightarrow> \<exists>q. canonWrite (snd (es ! i)) q = Inr (ts ! i)"
    "\<And>i. i < length ts \<Longrightarrow> \<exists>q. canonWrite (snd (es' ! i)) q = Inr (ts ! i)"
    "\<And>i. i < length ts \<Longrightarrow> fst (es ! i) = fst (es' ! i)"
proof -
  obtain ts where ts: "s = 123 # commas ts @ [125]" "length ts = length es"
    "\<And>i. i < length ts \<Longrightarrow> \<exists>q t. canonWrite (snd (es ! i)) q = Inr t \<and> ts ! i = quote (fst (es ! i)) @ 58 # t"
    using canonWrite_object[OF assms(1)] unfolding es_def by blast
  obtain us where us: "s = 123 # commas us @ [125]" "length us = length es'"
    "\<And>i. i < length us \<Longrightarrow> \<exists>q t. canonWrite (snd (es' ! i)) q = Inr t \<and> us ! i = quote (fst (es' ! i)) @ 58 # t"
    using canonWrite_object[OF assms(2)] unfolding es'_def by blast
  have part: "\<exists>k v q t. json_ok v \<and> canonWrite v q = Inr t \<and> x = quote k @ 58 # t" if x: "x \<in> set ts \<union> set us" for x
  proof (cases "x \<in> set ts")
    case True
    then obtain i where i: "i < length ts" "x = ts ! i" by (auto simp: in_set_conv_nth)
    then have "json_ok (snd (es ! i))" using ok(1) json_ok_entry ts(2) unfolding es_def by simp
    then show ?thesis using ts(3)[OF i(1)] i(2) by blast
  next
    case False
    then obtain i where i: "i < length us" "x = us ! i" using x by (auto simp: in_set_conv_nth)
    then have "json_ok (snd (es' ! i))" using ok(2) json_ok_entry us(2) unfolding es'_def by simp
    then show ?thesis using us(3)[OF i(1)] i(2) by blast
  qed
  have eq: "ts = us \<and> ([] :: code_units) = []"
  proof (rule commas_split[where c = 125])
    show "commas ts @ 125 # [] = commas us @ 125 # []" using ts(1) us(1) by simp
    show "x \<noteq> [] \<and> hd x \<notin> {44, 93, 125}" if "x \<in> set ts \<union> set us" for x
      using part[OF that] by (auto simp: quote_def)
    show "x = y" if x: "x \<in> set ts" and y: "y \<in> set us" and r: "stops r" "stops r'" and xy: "x @ r = y @ r'"
      for x y r r'
    proof -
      obtain k v q t where 1: "json_ok v" "canonWrite v q = Inr t" "x = quote k @ 58 # t" using part[of x] x by blast
      obtain k' v' q' t' where 2: "json_ok v'" "canonWrite v' q' = Inr t'" "y = quote k' @ 58 # t'"
        using part[of y] y by blast
      have "quote k @ 58 # t @ r = quote k' @ 58 # t' @ r'" using 1(3) 2(3) xy by simp
      then have "k = k'" "t @ r = t' @ r'" using quote_split[of k _ k'] by auto
      then show "x = y" using canonWrite_split[OF 1(2) 2(2) 1(1) 2(1) r] 1(3) 2(3) by simp
    qed
  qed simp
  define texts where "texts = map (\<lambda>i. SOME t. ts ! i = quote (fst (es ! i)) @ 58 # t) [0..<length ts]"
  have split: "\<exists>q. canonWrite (snd (es ! i)) q = Inr (texts ! i)" "\<exists>q. canonWrite (snd (es' ! i)) q = Inr (texts ! i)"
    "fst (es ! i) = fst (es' ! i)" if i: "i < length ts" for i
  proof -
    obtain q t where t: "canonWrite (snd (es ! i)) q = Inr t" "ts ! i = quote (fst (es ! i)) @ 58 # t"
      using ts(3)[OF i] by blast
    obtain q' t' where t': "canonWrite (snd (es' ! i)) q' = Inr t'" "ts ! i = quote (fst (es' ! i)) @ 58 # t'"
      using us(3) i eq by blast
    have "texts ! i = (SOME t. ts ! i = quote (fst (es ! i)) @ 58 # t)" using i by (simp add: texts_def)
    also have "\<dots> = t" using t(2) by simp
    finally have "texts ! i = t" .
    moreover have "fst (es ! i) = fst (es' ! i) \<and> 58 # t = 58 # t'"
      using t(2) t'(2) quote_split[of "fst (es ! i)" "58 # t" "fst (es' ! i)" "58 # t'"] by simp
    ultimately show "\<exists>q. canonWrite (snd (es ! i)) q = Inr (texts ! i)"
      "\<exists>q. canonWrite (snd (es' ! i)) q = Inr (texts ! i)" "fst (es ! i) = fst (es' ! i)" using t(1) t'(1) by auto
  qed
  have "length texts = length ts" by (simp add: texts_def)
  then show thesis
    by (intro that[of texts] split) (use ts(2) us(2) eq in auto)
qed

lemma canonWrite_inj:
  assumes "canonWrite v p = Inr s" "canonWrite w q = Inr s" "json_ok v" "json_ok w"
  shows "canonical v = canonical w"
  using assms
proof (induction v arbitrary: w p q s)
  case (JArray items)
  obtain items' where w: "w = JArray items'"
    using canonWrite_heads[OF JArray.prems(1-4) refl] by (cases w) (auto simp: number_unit_def split: if_splits)
  obtain ts where ts: "length items = length ts" "length items' = length ts"
    "\<And>i. i < length ts \<Longrightarrow> \<exists>q. canonWrite (items ! i) q = Inr (ts ! i)"
    "\<And>i. i < length ts \<Longrightarrow> \<exists>q. canonWrite (items' ! i) q = Inr (ts ! i)"
    using array_texts[of items p s items' q] JArray.prems w by blast
  have "canonical (items ! i) = canonical (items' ! i)" if i: "i < length ts" for i
    using JArray.IH[of "items ! i" _ "ts ! i" "items' ! i"] ts(3,4)[OF i] ts(1,2) i JArray.prems(3,4) w by auto
  then have "map canonical items = map canonical items'" using ts(1,2) by (intro nth_equalityI) simp_all
  then show ?case using w by simp
next
  case (JObject entries)
  obtain entries' where w: "w = JObject entries'"
    using canonWrite_heads[OF JObject.prems(1-4) refl] by (cases w) (auto simp: number_unit_def split: if_splits)
  let ?es = "canonicalEntries entries" and ?es' = "canonicalEntries entries'"
  obtain ts where ts: "length ?es = length ts" "length ?es' = length ts"
    "\<And>i. i < length ts \<Longrightarrow> \<exists>q. canonWrite (snd (?es ! i)) q = Inr (ts ! i)"
    "\<And>i. i < length ts \<Longrightarrow> \<exists>q. canonWrite (snd (?es' ! i)) q = Inr (ts ! i)"
    "\<And>i. i < length ts \<Longrightarrow> fst (?es ! i) = fst (?es' ! i)"
    using object_texts[of entries p s entries' q] JObject.prems w by blast
  have "canonical (snd (?es ! i)) = canonical (snd (?es' ! i))" if i: "i < length ts" for i
  proof -
    have "?es ! i \<in> set entries" using i ts(1) set_canonicalEntries nth_mem by fastforce
    moreover have "snd (?es ! i) \<in> Basic_BNFs.snds (?es ! i)" by (cases "?es ! i") simp
    moreover have "json_ok (snd (?es ! i))" "json_ok (snd (?es' ! i))"
      using JObject.prems(3,4) w json_ok_entry i ts(1,2) by (metis nth_mem)+
    ultimately show ?thesis
      using JObject.IH[of "?es ! i" "snd (?es ! i)" _ "ts ! i" "snd (?es' ! i)"] ts(3,4)[OF i] by blast
  qed
  then have "map (\<lambda>e. (fst e, canonical (snd e))) ?es = map (\<lambda>e. (fst e, canonical (snd e))) ?es'"
    using ts(1,2,5) by (intro nth_equalityI) simp_all
  then show ?case using w by simp
next
  case (JNumber num)
  obtain num' where w: "w = JNumber num'"
    using canonWrite_heads[OF JNumber.prems(1-4) refl] by (cases w) (auto simp: number_unit_def split: if_splits)
  then show ?case using canonicalNumber_inj[of num p s num' q] JNumber.prems by simp
next
  case (JString a)
  then obtain b where "w = JString b"
    using canonWrite_heads[OF JString.prems(1-4) refl] by (cases w) (auto simp: number_unit_def split: if_splits)
  then show ?case using JString.prems quote_split[of a "[]" b "[]"] by (auto split: if_splits)
next
  case JNull
  then show ?case
    using canonWrite_heads[OF JNull.prems(1-4) refl] by (cases w) (auto simp: number_unit_def literal_units split: if_splits)
next
  case (JBool b)
  then show ?case
    using canonWrite_heads[OF JBool.prems(1-4) refl] by (cases w) (auto simp: number_unit_def literal_units split: if_splits)
qed simp_all

subsection \<open>When a value has a text\<close>

fun writableNumber :: "jsNumber \<Rightarrow> bool" where
  "writableNumber NonFinite \<longleftrightarrow> False"
| "writableNumber (Whole i) \<longleftrightarrow> \<bar>i\<bar> \<le> 2 ^ 53 - 1"
| "writableNumber NegativeZero \<longleftrightarrow> True"
| "writableNumber (Fraction neg ds n) \<longleftrightarrow> - 5 \<le> n \<and> n \<le> 15"

fun writable :: "json \<Rightarrow> bool" where
  "writable JNull \<longleftrightarrow> True"
| "writable (JBool b) \<longleftrightarrow> True"
| "writable (JNumber num) \<longleftrightarrow> writableNumber num"
| "writable (JString s) \<longleftrightarrow> \<not> LONE_SURROGATE s"
| "writable (JArray items) \<longleftrightarrow> (\<forall>v \<in> set items. writable v)"
| "writable (JObject entries) \<longleftrightarrow>
     (\<forall>e \<in> set entries. snd e = JUndefined \<or> \<not> LONE_SURROGATE (fst e) \<and> writable (snd e))"
| "writable v \<longleftrightarrow> False"

definition succeeds :: "'e + 'a \<Rightarrow> bool" where
  "succeeds r \<longleftrightarrow> (\<exists>x. r = Inr x)"

lemma succeeds_simps [simp]: "succeeds (Inr x)" "\<not> succeeds (Inl e)"
  by (simp_all add: succeeds_def)

lemma succeeds_collect: "succeeds (collect xs) \<longleftrightarrow> (\<forall>x \<in> set xs. succeeds x)"
  by (induction xs rule: collect.induct) (auto simp: succeeds_def split: sum.splits)

lemma succeeds_case: "succeeds (case r of Inl e \<Rightarrow> Inl e | Inr x \<Rightarrow> Inr (f x)) \<longleftrightarrow> succeeds r"
  by (cases r) simp_all

lemma set_canonicalEntries_eq: "set (canonicalEntries entries) = {e \<in> set entries. snd e \<noteq> JUndefined}"
  by (auto simp: canonicalEntries_def)

lemma canonWrite_succeeds: "succeeds (canonWrite v path) \<longleftrightarrow> writable v"
proof (induction v path rule: canonWrite.induct)
  case (3 num path)
  then show ?case by (cases num) (simp_all add: not_less linorder_not_le)
next
  case (5 items path)
  let ?text = "\<lambda>(i, v). let at = path @ [91] @ decimal i @ [93] in
         if v = JUndefined then Inl (UndefinedArrayItem at) else canonWrite v at"
  have part: "succeeds (?text x) \<longleftrightarrow> writable (snd x)" if x: "x \<in> set (enumerate 0 items)" for x
  proof (cases x)
    case (Pair i v)
    show ?thesis
    proof (cases "v = JUndefined")
      case False
      have "succeeds (canonWrite v (path @ [91] @ decimal i @ [93])) \<longleftrightarrow> writable v"
        by (rule 5[OF x Pair[symmetric] refl False])
      then show ?thesis using False by (simp add: Pair Let_def)
    qed (simp add: Pair Let_def)
  qed
  have "succeeds (canonWrite (JArray items) path) \<longleftrightarrow> (\<forall>x \<in> set (enumerate 0 items). succeeds (?text x))"
    by (simp only: canonWrite.simps succeeds_case succeeds_collect set_map ball_simps)
  also have "\<dots> \<longleftrightarrow> (\<forall>x \<in> set (enumerate 0 items). writable (snd x))" by (rule ball_cong[OF refl part])
  also have "\<dots> \<longleftrightarrow> (\<forall>v \<in> set (map snd (enumerate 0 items)). writable v)" by (simp only: set_map ball_simps)
  finally show ?case by simp
next
  case (6 entries path)
  have "succeeds (canonWrite (JObject entries) path) \<longleftrightarrow>
      (\<forall>e \<in> set (canonicalEntries entries). \<not> LONE_SURROGATE (fst e) \<and> writable (snd e))"
  proof -
    let ?text = "\<lambda>e. if LONE_SURROGATE (fst e) then Inl (LoneSurrogateKey path)
         else case canonWrite (snd e) (path @ [46] @ fst e) of
                Inl err \<Rightarrow> Inl err
              | Inr text \<Rightarrow> Inr (quote (fst e) @ [58] @ text)"
    have part: "succeeds (?text e) \<longleftrightarrow> \<not> LONE_SURROGATE (fst e) \<and> writable (snd e)"
      if "e \<in> set (canonicalEntries entries)" for e
      using 6[OF that] by (simp add: succeeds_case)
    have "succeeds (canonWrite (JObject entries) path) \<longleftrightarrow>
        (\<forall>e \<in> set (canonicalEntries entries). succeeds (?text e))"
      by (simp only: canonWrite.simps succeeds_case succeeds_collect set_map ball_simps)
    also have "\<dots> \<longleftrightarrow> (\<forall>e \<in> set (canonicalEntries entries). \<not> LONE_SURROGATE (fst e) \<and> writable (snd e))"
      by (rule ball_cong[OF refl part])
    finally show ?thesis .
  qed
  also have "\<dots> \<longleftrightarrow> writable (JObject entries)" unfolding set_canonicalEntries_eq writable.simps by blast
  finally show ?case .
qed simp_all


definition demoClaim :: json where
  "demoClaim = JObject [(js_units ''vramGb'', JNumber (Fraction False [2, 2, 5] 2)), (js_units ''kind'', JString (js_units ''gpu'')),
     (js_units ''ramGb'', JNumber NegativeZero)]"

definition demoClaim' :: json where
  "demoClaim' = JObject [(js_units ''kind'', JString (js_units ''gpu'')), (js_units ''gpus'', JUndefined),
     (js_units ''ramGb'', JNumber (Whole 0)), (js_units ''vramGb'', JNumber (Fraction False [2, 2, 5] 2))]"

lemmas demo_evaluation = demoClaim_def demoClaim'_def canonicalEntries_def entryOrder_def compareCodePoints_def
  js_units_def high_surrogate_def low_surrogate_def fractionText_def digit_def wholeText_0


end
