(* ===== verification/InstanceRun.thy ===== *)
theory InstanceRun
  imports InstancePhase CanonicalJson
begin

text \<open>
  An instance's run: which generation of steps owns its claims now
  (\<^verbatim>\<open>packages/api/src/lib/instance-run.ts\<close>), and the steps of a run
  (\<^verbatim>\<open>apps/server/src/runtimes/steps.ts\<close>).

  \<open>managedInstance\<close> is what the database holds of one instance: its row and the rows of its
  ranks, steps, reservations and release requests. Every operation of these files runs in one
  transaction under the instance's fences, so it is a function of these rows. A filter is a
  predicate on rows, \<^verbatim>\<open>updateMany\<close> is \<open>update_where\<close>, \<^verbatim>\<open>count\<close> is the length of the filtered
  list. Row ids are numbers, handed out in order. A stored intent is read only for the operation
  it names. Runs are natural numbers; 0 is a row written before runs existed.
\<close>

subsection \<open>Rows\<close>

datatype stepPhase = PREPARE | START | AFTER_JOIN | READINESS | HEALTH | STOP | STATUS

datatype claimState = HELD | HELD_UNKNOWN | RELEASED

datatype requestState = REQ_PENDING | REQ_APPROVED | REQ_DECLINED | REQ_WITHDRAWN | REQ_EXPIRED | REQ_CLEARED

record stepRow =
  st_id :: nat
  st_rank :: nat
  st_nodeId :: ident
  st_phase :: stepPhase
  st_sequence :: nat
  st_generation :: nat
  st_state :: stepState
  st_operationId :: "ident option"
  st_attempts :: nat
  st_ownerEpoch :: "string option"
  st_deadline :: "millis option"
  st_notBefore :: "millis option"
  st_errorCode :: "string option"
  st_mayHaveRun :: bool
  st_rankIdle :: "bool option"

record rankRow =
  rk_id :: nat
  rk_rank :: nat
  rk_nodeId :: "ident option"
  rk_resources :: json
  rk_port :: int
  rk_distPort :: "int option"
  rk_claim :: claimState
  rk_claimChangedAt :: millis
  rk_blockedBy :: "ident list"
  rk_stoppedAt :: "millis option"
  rk_markedStoppedAt :: "millis option"
  rk_markedStoppedBy :: "ident option"
  rk_lastStopCheckAt :: "millis option"
  rk_releasedUnprovenAt :: "millis option"
  rk_releasedUnprovenBy :: "ident option"
  rk_releasedUnprovenReason :: "string option"
  rk_plannedGeneration :: nat
  rk_prevResources :: "json option"
  rk_prevPort :: "int option"
  rk_prevDistPort :: "int option"
  rk_prevGeneration :: "nat option"
  rk_stoppedThroughRun :: nat

record reservationRow =
  rv_id :: nat
  rv_nodeId :: "ident option"
  rv_index :: int
  rv_labels :: "string list"
  rv_resources :: json
  rv_supersededGeneration :: "nat option"
  rv_plannedGeneration :: nat

record requestRow =
  rq_rankId :: nat
  rq_pendingRankId :: "nat option"
  rq_state :: requestState
  rq_expiresAt :: millis
  rq_decidedAt :: "millis option"

record managedInstance =
  in_phase :: instancePhase
  in_desiredState :: "desiredState option"
  in_operationId :: "ident option"
  in_runGeneration :: nat
  in_ranks :: "rankRow list"
  in_steps :: "stepRow list"
  in_reservations :: "reservationRow list"
  in_requests :: "requestRow list"
  in_nextId :: nat

definition update_where :: "('a \<Rightarrow> bool) \<Rightarrow> ('a \<Rightarrow> 'a) \<Rightarrow> 'a list \<Rightarrow> 'a list" where
  "update_where P f rows = map (\<lambda>row. if P row then f row else row) rows"

definition updateSteps :: "(stepRow \<Rightarrow> bool) \<Rightarrow> (stepRow \<Rightarrow> stepRow) \<Rightarrow> managedInstance \<Rightarrow> managedInstance" where
  "updateSteps P f i = i\<lparr>in_steps := update_where P f (in_steps i)\<rparr>"

definition updateRanks :: "(rankRow \<Rightarrow> bool) \<Rightarrow> (rankRow \<Rightarrow> rankRow) \<Rightarrow> managedInstance \<Rightarrow> managedInstance" where
  "updateRanks P f i = i\<lparr>in_ranks := update_where P f (in_ranks i)\<rparr>"

definition findStep :: "managedInstance \<Rightarrow> nat \<Rightarrow> stepRow option" where
  "findStep i stepId = find (\<lambda>s. st_id s = stepId) (in_steps i)"

definition findRank :: "managedInstance \<Rightarrow> nat \<Rightarrow> rankRow option" where
  "findRank i rankId = find (\<lambda>r. rk_id r = rankId) (in_ranks i)"

definition rankNumbered :: "managedInstance \<Rightarrow> nat \<Rightarrow> rankRow option" where
  "rankNumbered i rank = find (\<lambda>r. rk_rank r = rank) (in_ranks i)"

text \<open>\<^verbatim>\<open>_max.generation ?? 0\<close>.\<close>

definition maxGeneration :: "(stepRow \<Rightarrow> bool) \<Rightarrow> stepRow list \<Rightarrow> nat" where
  "maxGeneration P steps = foldr max (map st_generation (filter P steps)) 0"

subsection \<open>Phases and slots\<close>

definition GENERATION_STRIDE :: nat where
  "GENERATION_STRIDE = 100"

definition RUN_START_PHASES :: "stepPhase list" where
  "RUN_START_PHASES = [PREPARE, START, AFTER_JOIN, READINESS]"

definition isRunStartPhase :: "stepPhase \<Rightarrow> bool" where
  "isRunStartPhase phase \<longleftrightarrow> phase \<in> set RUN_START_PHASES"

fun slotOf :: "stepPhase \<Rightarrow> nat \<Rightarrow> nat \<Rightarrow> nat" where
  "slotOf STOP sequence generation = (if sequence = generation * GENERATION_STRIDE then 0 else 50)"
| "slotOf PREPARE _ _ = 10"
| "slotOf START _ _ = 20"
| "slotOf AFTER_JOIN _ _ = 30"
| "slotOf READINESS _ _ = 40"
| "slotOf HEALTH _ _ = 60"
| "slotOf STATUS _ _ = 70"

definition stepSlot :: "stepRow \<Rightarrow> nat" where
  "stepSlot step = slotOf (st_phase step) (st_sequence step) (st_generation step)"

definition isLeadingStop :: "stepRow \<Rightarrow> bool" where
  "isLeadingStop step \<longleftrightarrow> st_phase step = STOP \<and> stepSlot step = 0"

definition owned :: "stepRow \<Rightarrow> nat \<Rightarrow> bool" where
  "owned step run \<longleftrightarrow> st_generation step = run"

subsection \<open>The current run\<close>

definition UNPREPARED_PHASES :: "instancePhase list" where
  "UNPREPARED_PHASES = [STARTING, UNAVAILABLE]"

definition legacyRun :: "managedInstance \<Rightarrow> nat" where
  "legacyRun i =
     (let latest = maxGeneration (\<lambda>s. st_phase s \<noteq> HEALTH) (in_steps i);
          unprepared = (in_phase i \<in> set UNPREPARED_PHASES \<and> in_operationId i \<noteq> None \<and>
            length (filter (\<lambda>s. isRunStartPhase (st_phase s) \<and> st_operationId s = in_operationId i)
              (in_steps i)) = 0)
      in max 1 (latest + (if unprepared then 1 else 0)))"

definition resolveRun :: "managedInstance \<Rightarrow> nat \<times> managedInstance" where
  "resolveRun i =
     (if in_runGeneration i > 0 then (in_runGeneration i, i)
      else let run = legacyRun i in (run, i\<lparr>in_runGeneration := run\<rparr>))"

definition peekRun :: "managedInstance \<Rightarrow> nat" where
  "peekRun i = (if in_runGeneration i > 0 then in_runGeneration i else legacyRun i)"

definition beginRun :: "managedInstance \<Rightarrow> nat \<times> managedInstance" where
  "beginRun i =
     (let (current, i') = resolveRun i; run = current + 1
      in (run, i'\<lparr>in_runGeneration := run\<rparr>))"

definition fresh :: "managedInstance \<Rightarrow> stepRow \<Rightarrow> nat \<Rightarrow> bool" where
  "fresh i step run =
     (let slot = stepSlot step in
      if slot \<ge> 50 then True
      else \<forall>launch \<in> set (filter (\<lambda>s. st_rank s = st_rank step \<and> st_generation s = run \<and>
               isRunStartPhase (st_phase s) \<and> st_attempts s > 0) (in_steps i)).
             stepSlot launch \<le> slot)"

subsection \<open>What a step's answer proves\<close>

definition RUNTIME_JOB_PRE_ADMISSION_ERRORS :: "string list" where
  "RUNTIME_JOB_PRE_ADMISSION_ERRORS =
     [''execution_mechanism_unavailable'', ''bad_job'', ''interactive_unsupported'',
      ''operator_terminals_disabled'', ''trust_relay'', ''definition_missing'', ''definition_frozen'',
      ''local_config_unavailable'', ''session_disconnected'']"

definition notRefusedBeforeAdmissionWhere :: "stepRow \<Rightarrow> bool" where
  "notRefusedBeforeAdmissionWhere s \<longleftrightarrow>
     st_mayHaveRun s \<or> st_errorCode s = None \<or>
     (case st_errorCode s of None \<Rightarrow> False | Some code \<Rightarrow> code \<notin> set RUNTIME_JOB_PRE_ADMISSION_ERRORS)"

definition refusedBeforeAdmission :: "stepRow \<Rightarrow> bool" where
  "refusedBeforeAdmission s \<longleftrightarrow>
     \<not> st_mayHaveRun s \<and> js_nullish (st_errorCode s) [] \<in> set RUNTIME_JOB_PRE_ADMISSION_ERRORS"

text \<open>What is written to \<^verbatim>\<open>mayHaveRun\<close>: \<open>None\<close> writes nothing.\<close>

definition mayHaveRunAfterRequeue :: "nat \<Rightarrow> bool option" where
  "mayHaveRunAfterRequeue attempts = (if attempts > 0 then Some True else None)"

definition launchedAfterWhere :: "nat \<Rightarrow> nat \<Rightarrow> stepRow \<Rightarrow> bool" where
  "launchedAfterWhere rank after s \<longleftrightarrow>
     st_rank s = rank \<and> st_generation s > after \<and> isRunStartPhase (st_phase s) \<and>
     st_attempts s \<ge> 1 \<and> notRefusedBeforeAdmissionWhere s"

datatype launchesEndedView = EndedAll | EndedThrough nat

definition launchesEnded :: "rankRow \<Rightarrow> launchesEndedView" where
  "launchesEnded rank =
     (if rk_claim rank = RELEASED \<and> rk_releasedUnprovenAt rank = None then EndedAll
      else EndedThrough (rk_stoppedThroughRun rank))"

definition liveRunsAfter :: "managedInstance \<Rightarrow> nat \<Rightarrow> nat option" where
  "liveRunsAfter i rank =
     (case rankNumbered i rank of
        None \<Rightarrow> Some 0
      | Some row \<Rightarrow> (case launchesEnded row of EndedAll \<Rightarrow> None | EndedThrough run \<Rightarrow> Some run))"

definition unresolvedStartsWhere :: "nat \<Rightarrow> nat \<Rightarrow> nat option \<Rightarrow> stepRow \<Rightarrow> bool" where
  "unresolvedStartsWhere rank after before s \<longleftrightarrow>
     st_rank s = rank \<and> st_generation s > after \<and>
     (case before of None \<Rightarrow> True | Some b \<Rightarrow> st_generation s < b) \<and>
     isRunStartPhase (st_phase s) \<and>
     (st_state s = RUNNING \<or> st_state s = AWAITING_OPERATOR \<or> st_state s = PENDING \<and> st_attempts s > 0)"

definition startsUnresolved :: "managedInstance \<Rightarrow> nat \<Rightarrow> nat option \<Rightarrow> bool" where
  "startsUnresolved i rank before =
     (case liveRunsAfter i rank of
        None \<Rightarrow> False
      | Some after \<Rightarrow> length (filter (unresolvedStartsWhere rank after before) (in_steps i)) > 0)"

text \<open>The first row of \<^verbatim>\<open>orderBy: [{ generation: "desc" }, { sequence: "desc" }]\<close>.\<close>

definition laterLaunch :: "stepRow \<Rightarrow> stepRow option \<Rightarrow> stepRow option" where
  "laterLaunch s best =
     (case best of
        None \<Rightarrow> Some s
      | Some b \<Rightarrow> if st_generation s > st_generation b \<or>
            st_generation s = st_generation b \<and> st_sequence s \<ge> st_sequence b then Some s else Some b)"

definition physicalLaunch :: "managedInstance \<Rightarrow> nat \<Rightarrow> stepRow option" where
  "physicalLaunch i rank =
     (let row = rankNumbered i rank in
      if (case row of None \<Rightarrow> False | Some r \<Rightarrow> launchesEnded r = EndedAll) then None
      else foldr laterLaunch
             (filter (launchedAfterWhere rank (case row of None \<Rightarrow> 0 | Some r \<Rightarrow> rk_stoppedThroughRun r))
               (in_steps i)) None)"

definition recordStoppedThrough :: "nat \<Rightarrow> nat \<Rightarrow> managedInstance \<Rightarrow> managedInstance" where
  "recordStoppedThrough rank throughRun =
     updateRanks (\<lambda>r. rk_rank r = rank \<and> rk_stoppedThroughRun r < throughRun)
       (\<lambda>r. r\<lparr>rk_stoppedThroughRun := throughRun\<rparr>)"

subsection \<open>The steps of a run\<close>

definition HEALTH_SEQUENCE_BASE :: nat where
  "HEALTH_SEQUENCE_BASE = 1000000"

definition STATUS_SEQUENCE_BASE :: nat where
  "STATUS_SEQUENCE_BASE = 2000000"

definition STOP_ORDER_BASE :: nat where
  "STOP_ORDER_BASE = 50"

fun ORDER :: "stepPhase \<Rightarrow> nat" where
  "ORDER STOP = 0"
| "ORDER PREPARE = 10"
| "ORDER START = 20"
| "ORDER AFTER_JOIN = 30"
| "ORDER READINESS = 40"
| "ORDER _ = 0"

text \<open>Whether a rank's commands have \<^verbatim>\<open>prepare\<close> and \<^verbatim>\<open>afterJoin\<close>.\<close>

record runtimeCommands =
  rc_prepare :: bool
  rc_afterJoin :: bool

record newStep =
  ns_rank :: nat
  ns_phase :: stepPhase
  ns_sequence :: nat
  ns_generation :: nat
  ns_operationId :: "ident option"
  ns_state :: stepState

definition commandsFor :: "runtimeCommands list \<Rightarrow> nat \<Rightarrow> string + runtimeCommands" where
  "commandsFor launch rank =
     (if rank < length launch then Inr (launch ! rank)
      else case launch of [] \<Rightarrow> Inl ''A launch has at least one commands entry.'' | first # _ \<Rightarrow> Inr first)"

definition generationStep :: "nat \<Rightarrow> ident option \<Rightarrow> nat \<Rightarrow> stepPhase \<Rightarrow> stepState \<Rightarrow> newStep" where
  "generationStep generation operationId rank phase state =
     \<lparr>ns_rank = rank, ns_phase = phase, ns_sequence = generation * GENERATION_STRIDE + ORDER phase,
      ns_generation = generation, ns_operationId = operationId, ns_state = state\<rparr>"

definition rankSteps :: "nat \<Rightarrow> ident option \<Rightarrow> nat list \<Rightarrow> runtimeCommands \<Rightarrow> nat \<Rightarrow> newStep list" where
  "rankSteps generation operationId ended commands rank =
     (let step = generationStep generation operationId rank in
      (if generation > 1 then [step STOP (if rank \<in> set ended then SUCCEEDED else PENDING)] else []) @
      (if rc_prepare commands then [step PREPARE PENDING] else []) @
      [step START PENDING] @
      (if rc_afterJoin commands then [step AFTER_JOIN PENDING] else []))"

definition generationSteps ::
    "nat list \<Rightarrow> runtimeCommands list \<Rightarrow> nat \<Rightarrow> ident option \<Rightarrow> nat list \<Rightarrow> string + newStep list" where
  "generationSteps rankList launch generation operationId ended =
     (let ranks = js_sort (\<lambda>a b. int a - int b) rankList in
      case collect (map (\<lambda>rank. map_sum id (\<lambda>commands. rankSteps generation operationId ended commands rank)
             (commandsFor launch rank)) ranks) of
        Inl e \<Rightarrow> Inl e
      | Inr parts \<Rightarrow>
          Inr (concat parts @
               (case ranks of [] \<Rightarrow> []
                | first # _ \<Rightarrow> [generationStep generation operationId first READINESS PENDING])))"

definition stopStep :: "nat \<Rightarrow> nat \<Rightarrow> nat \<Rightarrow> ident option \<Rightarrow> stepPhase \<Rightarrow> newStep" where
  "stopStep rank generation attempt operationId phase =
     \<lparr>ns_rank = rank, ns_phase = phase,
      ns_sequence = (if phase = STATUS then STATUS_SEQUENCE_BASE + attempt
                     else generation * GENERATION_STRIDE + STOP_ORDER_BASE + min attempt 49),
      ns_generation = generation, ns_operationId = operationId, ns_state = PENDING\<rparr>"

definition healthStep :: "nat \<Rightarrow> nat \<Rightarrow> nat \<Rightarrow> newStep" where
  "healthStep rank generation sequence =
     \<lparr>ns_rank = rank, ns_phase = HEALTH, ns_sequence = max HEALTH_SEQUENCE_BASE sequence,
      ns_generation = generation, ns_operationId = None, ns_state = PENDING\<rparr>"

end
