(* ===== verification/InstanceClaims.thy ===== *)
theory InstanceClaims
  imports InstanceRun
begin

text \<open>
  What an instance holds on its nodes: releasing a rank's claim
  (\<^verbatim>\<open>packages/api/src/lib/claim-release.ts\<close>), and retaking the claims and reservations for a
  new run while an earlier one may still run (\<^verbatim>\<open>packages/api/src/lib/reservations.ts\<close>).

  A thrown error rolls the transaction back: the operations that can throw return a sum, and the
  rows are then the ones before the call. The callback \<^verbatim>\<open>writeRanks\<close> of a retake is an argument;
  its two implementations (\<^verbatim>\<open>runtime-store.ts\<close> for a restart asked for, \<^verbatim>\<open>lifecycle.ts\<close> for an
  automatic one) are \<open>writeRanksRestart\<close> and \<open>writeRanksRetake\<close>.
\<close>

subsection \<open>Releasing a claim\<close>

datatype claimRelease =
    ReleaseResult nat
  | ReleaseObservation nat bool
  | ReleaseNeverRan
  | ReleaseUnproven ident string

definition RELEASE_REQUEST_TTL_MS :: millis where
  "RELEASE_REQUEST_TTL_MS = 24 * 3600000"

text \<open>The modality is the observed \<^verbatim>\<open>rankIdle\<close> of an observation, and \<open>None\<close> for a result.\<close>

definition proofHolds :: "managedInstance \<Rightarrow> rankRow \<Rightarrow> nat \<Rightarrow> bool option \<Rightarrow> bool \<times> managedInstance" where
  "proofHolds i rank stepId observed =
     (case findStep i stepId of
        None \<Rightarrow> (False, i)
      | Some step \<Rightarrow>
          if st_rank step \<noteq> rk_rank rank \<or> Some (st_nodeId step) \<noteq> rk_nodeId rank then (False, i)
          else if observed = None \<and>
            (st_phase step \<noteq> STOP \<and> st_phase step \<noteq> STATUS \<or> st_state step \<noteq> SUCCEEDED) then (False, i)
          else if observed = None \<and> isLeadingStop step \<and> rk_claim rank \<noteq> HELD_UNKNOWN then (False, i)
          else if observed = None \<and> st_phase step = STATUS \<and> rk_claim rank \<noteq> HELD_UNKNOWN \<and>
            in_phase i \<noteq> STOPPING then (False, i)
          else if (case observed of Some idle \<Rightarrow> Some idle | None \<Rightarrow> st_rankIdle step) \<noteq> Some True then (False, i)
          else let (run, i') = resolveRun i in (owned step run \<and> fresh i' step run, i'))"

definition neverRan :: "managedInstance \<Rightarrow> rankRow \<Rightarrow> bool" where
  "neverRan i rank \<longleftrightarrow>
     length (filter (launchedAfterWhere (rk_rank rank) (rk_stoppedThroughRun rank)) (in_steps i)) = 0"

definition clearReleaseRequests :: "nat list \<Rightarrow> millis \<Rightarrow> managedInstance \<Rightarrow> managedInstance" where
  "clearReleaseRequests rankIds now i =
     (if rankIds = [] then i
      else i\<lparr>in_requests := update_where
             (\<lambda>q. (case rq_pendingRankId q of None \<Rightarrow> False | Some r \<Rightarrow> r \<in> set rankIds) \<and> rq_state q = REQ_PENDING)
             (\<lambda>q. q\<lparr>rq_state := REQ_CLEARED, rq_pendingRankId := None, rq_decidedAt := Some now\<rparr>)
             (in_requests i)\<rparr>)"

definition releasedRow :: "millis \<Rightarrow> claimRelease \<Rightarrow> rankRow \<Rightarrow> rankRow" where
  "releasedRow now release r =
     (let r' = r\<lparr>rk_claim := RELEASED, rk_claimChangedAt := now, rk_stoppedAt := Some now,
                 rk_prevResources := None, rk_prevPort := None, rk_prevDistPort := None,
                 rk_prevGeneration := None\<rparr>
      in case release of
           ReleaseUnproven by reason \<Rightarrow> r'\<lparr>rk_releasedUnprovenAt := Some now, rk_releasedUnprovenBy := Some by,
             rk_releasedUnprovenReason := Some reason\<rparr>
         | _ \<Rightarrow> r')"

definition releaseWhere :: "nat \<Rightarrow> claimRelease \<Rightarrow> rankRow \<Rightarrow> bool" where
  "releaseWhere rankId release r \<longleftrightarrow>
     rk_id r = rankId \<and>
     (case release of
        ReleaseUnproven _ _ \<Rightarrow> rk_claim r = HELD_UNKNOWN
      | _ \<Rightarrow> rk_claim r = HELD \<or> rk_claim r = HELD_UNKNOWN)"

definition releaseWrite :: "nat \<Rightarrow> millis \<Rightarrow> claimRelease \<Rightarrow> managedInstance \<Rightarrow> bool \<times> managedInstance" where
  "releaseWrite rankId now release i =
     (if filter (releaseWhere rankId release) (in_ranks i) = [] then (False, i)
      else (True, clearReleaseRequests [rankId] now
              (updateRanks (releaseWhere rankId release) (releasedRow now release) i)))"

definition releaseProven :: "managedInstance \<Rightarrow> rankRow \<Rightarrow> claimRelease \<Rightarrow> bool \<times> managedInstance" where
  "releaseProven i rank release =
     (case release of
        ReleaseResult stepId \<Rightarrow> proofHolds i rank stepId None
      | ReleaseObservation stepId idle \<Rightarrow> proofHolds i rank stepId (Some idle)
      | ReleaseNeverRan \<Rightarrow> (neverRan i rank, i)
      | ReleaseUnproven _ _ \<Rightarrow> (False, i))"

definition releaseClaim :: "managedInstance \<Rightarrow> nat \<Rightarrow> millis \<Rightarrow> claimRelease \<Rightarrow> bool \<times> managedInstance" where
  "releaseClaim i rankId now release =
     (case release of
        ReleaseUnproven _ _ \<Rightarrow> releaseWrite rankId now release i
      | _ \<Rightarrow>
         (case findRank i rankId of
            None \<Rightarrow> (False, i)
          | Some rank \<Rightarrow>
              if rk_claim rank \<noteq> HELD \<and> rk_claim rank \<noteq> HELD_UNKNOWN then (False, i)
              else let (proven, i') = releaseProven i rank release in
                   if \<not> proven then (False, i') else releaseWrite rankId now release i'))"

definition clearInstanceReleaseRequests :: "millis \<Rightarrow> managedInstance \<Rightarrow> managedInstance" where
  "clearInstanceReleaseRequests now i =
     i\<lparr>in_requests := update_where
         (\<lambda>q. rq_state q = REQ_PENDING \<and> rq_rankId q \<in> set (map rk_id (in_ranks i)))
         (\<lambda>q. q\<lparr>rq_state := REQ_CLEARED, rq_pendingRankId := None, rq_decidedAt := Some now\<rparr>)
         (in_requests i)\<rparr>"

text \<open>The sweep, over the requests of one instance: the rows and how many it settled.\<close>

definition sweepReleaseRequests :: "millis \<Rightarrow> managedInstance \<Rightarrow> managedInstance \<times> nat" where
  "sweepReleaseRequests now i =
     (let overdue = (\<lambda>q. rq_state q = REQ_PENDING \<and> rq_expiresAt q \<le> now);
          requests = update_where overdue
            (\<lambda>q. q\<lparr>rq_state := REQ_EXPIRED, rq_pendingRankId := None, rq_decidedAt := Some now\<rparr>) (in_requests i);
          over = (\<lambda>q. rq_state q = REQ_PENDING \<and>
            (case findRank i (rq_rankId q) of None \<Rightarrow> False | Some r \<Rightarrow> rk_claim r \<noteq> HELD_UNKNOWN))
      in (i\<lparr>in_requests := update_where over
            (\<lambda>q. q\<lparr>rq_state := REQ_CLEARED, rq_pendingRankId := None, rq_decidedAt := Some now\<rparr>) requests\<rparr>,
          length (filter overdue (in_requests i)) + length (filter over requests)))"

subsection \<open>Reservations\<close>

definition reservationClaim :: "rankRow list \<Rightarrow> claimState" where
  "reservationClaim ranks =
     (if \<exists>r \<in> set ranks. rk_claim r = HELD then HELD
      else if \<exists>r \<in> set ranks. rk_claim r = HELD_UNKNOWN then HELD_UNKNOWN
      else RELEASED)"

definition HOLDING_RESERVATION_WHERE :: "managedInstance \<Rightarrow> bool" where
  "HOLDING_RESERVATION_WHERE i \<longleftrightarrow> (\<exists>r \<in> set (in_ranks i). rk_claim r \<noteq> RELEASED)"

definition CURRENT_RESERVATION_WHERE :: "reservationRow \<Rightarrow> bool" where
  "CURRENT_RESERVATION_WHERE row \<longleftrightarrow> rv_supersededGeneration row = None"

record reservationWrite =
  rw_index :: int
  rw_nodeId :: ident
  rw_labels :: "string list"
  rw_resources :: json

definition orNull :: "json \<Rightarrow> json" where
  "orNull v = (if v = JUndefined then JNull else v)"

definition jsonIdent :: "ident option \<Rightarrow> json" where
  "jsonIdent x = (case x of None \<Rightarrow> JNull | Some s \<Rightarrow> JString (js_units s))"

definition jsonInt :: "int option \<Rightarrow> json" where
  "jsonInt x = (case x of None \<Rightarrow> JNull | Some n \<Rightarrow> JNumber (Whole n))"

definition reservationRowKey :: "int \<Rightarrow> ident option \<Rightarrow> json \<Rightarrow> canonicalJsonError + code_units" where
  "reservationRowKey index nodeId resources =
     canonicalJson (JArray [jsonInt (Some index), jsonIdent nodeId, orNull resources])"

abbreviation rowKey :: "reservationRow \<Rightarrow> canonicalJsonError + code_units" where
  "rowKey row \<equiv> reservationRowKey (rv_index row) (rv_nodeId row) (rv_resources row)"

abbreviation writeKey :: "reservationWrite \<Rightarrow> canonicalJsonError + code_units" where
  "writeKey w \<equiv> reservationRowKey (rw_index w) (Some (rw_nodeId w)) (rw_resources w)"

definition labelsText :: "string list \<Rightarrow> canonicalJsonError + code_units" where
  "labelsText labels = canonicalJson (JArray (map (JString \<circ> js_units) labels))"

fun findReusable ::
    "code_units \<Rightarrow> nat list \<Rightarrow> reservationRow list \<Rightarrow> canonicalJsonError + reservationRow option" where
  "findReusable key reused [] = Inr None"
| "findReusable key reused (row # rows) =
     (if rv_id row \<in> set reused then findReusable key reused rows
      else case rowKey row of
             Inl e \<Rightarrow> Inl e
           | Inr k \<Rightarrow> if k = key then Inr (Some row) else findReusable key reused rows)"

text \<open>The loop over the wanted reservations: the reused rows, the rows to label anew and the
  reservations to create.\<close>

fun matchReservations ::
    "reservationRow list \<Rightarrow> reservationWrite list \<Rightarrow> nat list \<Rightarrow> (nat \<times> string list) list \<Rightarrow> reservationWrite list \<Rightarrow>
     canonicalJsonError + nat list \<times> (nat \<times> string list) list \<times> reservationWrite list" where
  "matchReservations ordered [] reused relabelled created = Inr (reused, relabelled, created)"
| "matchReservations ordered (w # ws) reused relabelled created =
     (case writeKey w of
        Inl e \<Rightarrow> Inl e
      | Inr key \<Rightarrow>
         (case findReusable key reused ordered of
            Inl e \<Rightarrow> Inl e
          | Inr None \<Rightarrow> matchReservations ordered ws reused relabelled (created @ [w])
          | Inr (Some row) \<Rightarrow>
              matchReservations ordered ws (js_add (rv_id row) reused)
                (if labelsText (rv_labels row) \<noteq> labelsText (rw_labels w)
                 then relabelled @ [(rv_id row, rw_labels w)] else relabelled) created))"

definition rowOf :: "nat \<Rightarrow> nat \<Rightarrow> reservationWrite \<Rightarrow> reservationRow" where
  "rowOf latest rowId w =
     \<lparr>rv_id = rowId, rv_nodeId = Some (rw_nodeId w), rv_index = rw_index w, rv_labels = rw_labels w,
      rv_resources = rw_resources w, rv_supersededGeneration = None, rv_plannedGeneration = latest\<rparr>"

definition createReservations :: "nat \<Rightarrow> reservationWrite list \<Rightarrow> managedInstance \<Rightarrow> managedInstance" where
  "createReservations latest ws i =
     i\<lparr>in_reservations := in_reservations i @
          map (\<lambda>(n, w). rowOf latest n w) (enumerate (in_nextId i) ws),
       in_nextId := in_nextId i + length ws\<rparr>"

text \<open>Every start step sent so far (\<^verbatim>\<open>attempts > 0\<close>), of any rank or of one.\<close>

definition dispatchedStart :: "stepRow \<Rightarrow> bool" where
  "dispatchedStart s \<longleftrightarrow> isRunStartPhase (st_phase s) \<and> st_attempts s > 0"

definition relabel :: "(nat \<times> string list) list \<Rightarrow> reservationRow \<Rightarrow> reservationRow" where
  "relabel relabelled row =
     (case map_of (rev relabelled) (rv_id row) of None \<Rightarrow> row | Some labels \<Rightarrow> row\<lparr>rv_labels := labels\<rparr>)"

definition replaceInstanceReservations ::
    "managedInstance \<Rightarrow> reservationWrite list \<Rightarrow> bool \<Rightarrow> nat \<Rightarrow> canonicalJsonError + managedInstance" where
  "replaceInstanceReservations i next oldRunStopped run =
     (let latest = run - 1 in
      if oldRunStopped then Inr (createReservations latest next (i\<lparr>in_reservations := []\<rparr>))
      else
        let rows = in_reservations i;
            ordered = filter CURRENT_RESERVATION_WHERE rows @ filter (\<lambda>r. \<not> CURRENT_RESERVATION_WHERE r) rows
        in case matchReservations ordered next [] [] [] of
             Inl e \<Rightarrow> Inl e
           | Inr (reused, relabelled, created) \<Rightarrow>
               let dropped = filter (\<lambda>r. CURRENT_RESERVATION_WHERE r \<and> rv_id r \<notin> set reused) rows;
                   dispatched = maxGeneration dispatchedStart (in_steps i);
                   inUse = map rv_id (filter (\<lambda>r. dispatched > rv_plannedGeneration r) dropped);
                   never = map rv_id (filter (\<lambda>r. dispatched \<le> rv_plannedGeneration r) dropped);
                   kept = filter (\<lambda>r. rv_id r \<notin> set never) rows;
                   superseded = update_where (\<lambda>r. rv_id r \<in> set inUse)
                     (\<lambda>r. r\<lparr>rv_supersededGeneration := Some latest\<rparr>) kept;
                   revived = map rv_id (filter (\<lambda>r. \<not> CURRENT_RESERVATION_WHERE r \<and> rv_id r \<in> set reused) rows);
                   current = update_where (\<lambda>r. rv_id r \<in> set revived)
                     (\<lambda>r. r\<lparr>rv_supersededGeneration := None\<rparr>) superseded
               in Inr (createReservations latest created
                    (i\<lparr>in_reservations := map (relabel relabelled) current\<rparr>)))"

subsection \<open>Retaking claims\<close>

datatype retakeError = CanonicalFailure canonicalJsonError | PreviousClaimStillHeld | RankNotFound

definition retakenClaim :: "millis \<Rightarrow> rankRow \<Rightarrow> rankRow" where
  "retakenClaim now r =
     r\<lparr>rk_claim := HELD, rk_claimChangedAt := now, rk_stoppedAt := None, rk_markedStoppedAt := None,
       rk_markedStoppedBy := None, rk_lastStopCheckAt := None, rk_releasedUnprovenAt := None,
       rk_releasedUnprovenBy := None, rk_releasedUnprovenReason := None\<rparr>"

definition rankClaimKey :: "json \<Rightarrow> int option \<Rightarrow> int option \<Rightarrow> canonicalJsonError + code_units" where
  "rankClaimKey resources port distPort = canonicalJson (JArray [orNull resources, jsonInt port, jsonInt distPort])"

abbreviation claimKey :: "rankRow \<Rightarrow> canonicalJsonError + code_units" where
  "claimKey r \<equiv> rankClaimKey (rk_resources r) (Some (rk_port r)) (rk_distPort r)"

record previousClaim =
  pc_resources :: "json option"
  pc_port :: int
  pc_distPort :: "int option"
  pc_generation :: nat

definition keptClaim :: "rankRow \<Rightarrow> previousClaim option" where
  "keptClaim r =
     (case (rk_prevPort r, rk_prevGeneration r) of
        (Some port, Some generation) \<Rightarrow>
          Some \<lparr>pc_resources = rk_prevResources r, pc_port = port, pc_distPort = rk_prevDistPort r,
                pc_generation = generation\<rparr>
      | _ \<Rightarrow> None)"

definition writePrevious :: "previousClaim option \<Rightarrow> nat \<Rightarrow> nat \<Rightarrow> rankRow \<Rightarrow> rankRow" where
  "writePrevious previous planned stoppedThrough r =
     r\<lparr>rk_prevResources := (case previous of None \<Rightarrow> None | Some p \<Rightarrow> Some (js_nullish (pc_resources p) (JObject []))),
       rk_prevPort := map_option pc_port previous,
       rk_prevDistPort := (case previous of None \<Rightarrow> None | Some p \<Rightarrow> pc_distPort p),
       rk_prevGeneration := map_option pc_generation previous,
       rk_plannedGeneration := planned,
       rk_stoppedThroughRun := stoppedThrough\<rparr>"

text \<open>One round of the loop: the rank as it was, as it is now, and the write the round makes.\<close>

definition keepPrevious :: "stepRow list \<Rightarrow> nat \<Rightarrow> rankRow \<Rightarrow> rankRow \<Rightarrow> retakeError + rankRow" where
  "keepPrevious steps run old now =
     (let latest = run - 1 in
      case (claimKey old, claimKey now) of
        (Inl e, _) \<Rightarrow> Inl (CanonicalFailure e)
      | (_, Inl e) \<Rightarrow> Inl (CanonicalFailure e)
      | (Inr oldKey, Inr newKey) \<Rightarrow>
          let changed = (oldKey \<noteq> newKey);
              kept = keptClaim old;
              released = (rk_claim old = RELEASED);
              dispatched = maxGeneration (\<lambda>s. st_rank s = rk_rank old \<and> dispatchedStart s) steps;
              inUse = (\<not> released \<and> changed \<and> dispatched > rk_plannedGeneration old);
              previous = (if released then None
                else if inUse then Some \<lparr>pc_resources = Some (rk_resources old), pc_port = rk_port old,
                  pc_distPort = rk_distPort old, pc_generation = latest\<rparr>
                else kept);
              planned = (if changed \<or> released then latest else rk_plannedGeneration old);
              stoppedThrough = (if released \<and> rk_releasedUnprovenAt old = None
                then max latest (rk_stoppedThroughRun old) else rk_stoppedThroughRun old)
          in if inUse \<and> kept \<noteq> None then Inl PreviousClaimStillHeld
             else if \<not> changed \<and> previous = kept \<and> planned = rk_plannedGeneration old \<and>
               stoppedThrough = rk_stoppedThroughRun old then Inr now
             else Inr (writePrevious previous planned stoppedThrough now))"

definition keepRank :: "stepRow list \<Rightarrow> nat \<Rightarrow> rankRow list \<Rightarrow> rankRow \<Rightarrow> retakeError + rankRow" where
  "keepRank steps run before now =
     (case find (\<lambda>old. rk_id old = rk_id now) before of
        None \<Rightarrow> Inr now
      | Some old \<Rightarrow> keepPrevious steps run old now)"

definition keepPreviousRankClaims :: "managedInstance \<Rightarrow> rankRow list \<Rightarrow> nat \<Rightarrow> retakeError + managedInstance" where
  "keepPreviousRankClaims i before run =
     (case collect (map (keepRank (in_steps i) run before) (in_ranks i)) of
        Inl e \<Rightarrow> Inl e
      | Inr ranks \<Rightarrow> Inr (i\<lparr>in_ranks := ranks\<rparr>))"

record rankPlacement =
  pl_nodeId :: ident
  pl_nodeNumber :: nat
  pl_port :: int
  pl_resources :: json

text \<open>The restart's loop: \<^verbatim>\<open>update\<close> by a unique key throws when no row has it.\<close>

fun writeRanksRestart ::
    "rankPlacement list \<Rightarrow> int option \<Rightarrow> ident list \<Rightarrow> (rankRow \<Rightarrow> rankRow) \<Rightarrow> rankRow list \<Rightarrow> retakeError + rankRow list" where
  "writeRanksRestart [] distPort blockedBy claim ranks = Inr ranks"
| "writeRanksRestart (p # ps) distPort blockedBy claim ranks =
     (let named = (\<lambda>r. rk_rank r + 1 = pl_nodeNumber p) in
      if \<exists>r \<in> set ranks. named r then
        writeRanksRestart ps distPort blockedBy claim
          (update_where named
            (\<lambda>r. (claim r)\<lparr>rk_port := pl_port p, rk_distPort := distPort, rk_resources := pl_resources p,
                 rk_blockedBy := blockedBy\<rparr>) ranks)
      else Inl RankNotFound)"

record retakePlan =
  rp_placements :: "rankPlacement list"
  rp_distPort :: "int option"
  rp_blockedBy :: "ident list"

text \<open>The rank a placement names, among the ranks as they were, in order of their number.\<close>

definition placedRank :: "rankRow list \<Rightarrow> rankPlacement \<Rightarrow> rankRow option" where
  "placedRank before p =
     (let ranks = js_sort (\<lambda>a b. int (rk_rank a) - int (rk_rank b)) before
      in if 0 < pl_nodeNumber p \<and> pl_nodeNumber p - 1 < length ranks then Some (ranks ! (pl_nodeNumber p - 1)) else None)"

definition placeRank :: "int option \<Rightarrow> rankRow \<Rightarrow> rankPlacement \<Rightarrow> rankRow list \<Rightarrow> retakeError + rankRow list" where
  "placeRank distPort rank p ranks =
     (case (canonicalJson (rk_resources rank), canonicalJson (pl_resources p)) of
        (Inl e, _) \<Rightarrow> Inl (CanonicalFailure e)
      | (_, Inl e) \<Rightarrow> Inl (CanonicalFailure e)
      | (Inr a, Inr b) \<Rightarrow>
          if a = b \<and> rk_port rank = pl_port p \<and> rk_distPort rank = distPort then Inr ranks
          else Inr (update_where (\<lambda>r. rk_id r = rk_id rank)
                 (\<lambda>r. r\<lparr>rk_port := pl_port p, rk_distPort := distPort, rk_resources := pl_resources p\<rparr>) ranks))"

fun placeRanks ::
    "int option \<Rightarrow> rankRow list \<Rightarrow> rankPlacement list \<Rightarrow> rankRow list \<Rightarrow> retakeError + rankRow list" where
  "placeRanks distPort before [] ranks = Inr ranks"
| "placeRanks distPort before (p # ps) ranks =
     (case placedRank before p of
        None \<Rightarrow> placeRanks distPort before ps ranks
      | Some rank \<Rightarrow>
         (case placeRank distPort rank p ranks of
            Inl e \<Rightarrow> Inl e
          | Inr ranks' \<Rightarrow> placeRanks distPort before ps ranks'))"

definition writeRanksRetake ::
    "retakePlan option \<Rightarrow> rankRow list \<Rightarrow> (rankRow \<Rightarrow> rankRow) \<Rightarrow> rankRow list \<Rightarrow> retakeError + rankRow list" where
  "writeRanksRetake plan before claim ranks =
     (let claimed = map (\<lambda>r. (claim r)\<lparr>rk_blockedBy := (case plan of None \<Rightarrow> [] | Some p \<Rightarrow> rp_blockedBy p)\<rparr>) ranks
      in case plan of
           None \<Rightarrow> Inr claimed
         | Some p \<Rightarrow> placeRanks (rp_distPort p) before (rp_placements p) claimed)"

definition retakeInstanceClaims ::
    "managedInstance \<Rightarrow> millis \<Rightarrow> reservationWrite list \<Rightarrow>
     ((rankRow \<Rightarrow> rankRow) \<Rightarrow> rankRow list \<Rightarrow> retakeError + rankRow list) \<Rightarrow>
     retakeError + nat \<times> managedInstance" where
  "retakeInstanceClaims i now reservations writeRanks =
     (let (run, i1) = beginRun i;
          before = in_ranks i1;
          oldRunStopped = (\<forall>r \<in> set before. rk_claim r = RELEASED)
      in case writeRanks (retakenClaim now) before of
           Inl e \<Rightarrow> Inl e
         | Inr ranks \<Rightarrow>
            (case keepPreviousRankClaims (i1\<lparr>in_ranks := ranks\<rparr>) before run of
               Inl e \<Rightarrow> Inl e
             | Inr i2 \<Rightarrow>
                (case replaceInstanceReservations i2 reservations oldRunStopped run of
                   Inl e \<Rightarrow> Inl (CanonicalFailure e)
                 | Inr i3 \<Rightarrow> Inr (run, clearInstanceReleaseRequests now i3))))"

definition clearPrevious :: "rankRow \<Rightarrow> rankRow" where
  "clearPrevious r = r\<lparr>rk_prevResources := None, rk_prevPort := None, rk_prevDistPort := None, rk_prevGeneration := None\<rparr>"

definition dropSupersededHolds :: "nat \<Rightarrow> managedInstance \<Rightarrow> managedInstance" where
  "dropSupersededHolds generation i =
     updateRanks (\<lambda>r. case rk_prevGeneration r of None \<Rightarrow> False | Some g \<Rightarrow> g < generation) clearPrevious
       (i\<lparr>in_reservations := filter (\<lambda>row. case rv_supersededGeneration row of
                                        None \<Rightarrow> True | Some g \<Rightarrow> \<not> g < generation) (in_reservations i)\<rparr>)"

end
