(* ===== verification/RunEngine.thy ===== *)
theory RunEngine
  imports InstanceClaims
begin

text \<open>
  The lifecycle engine's work on the steps and claims of one instance
  (\<^verbatim>\<open>apps/server/src/runtimes/lifecycle.ts\<close>): preparing a run's steps, sending them, their
  answers, stopping, probing, marking stopped and restarting.

  Each operation is one transaction. What it reads outside the instance's own rows (the clock, the
  node's row and session, the owner, the launch's commands, how long ago a probe ended) is in the
  facts record it takes. The model is of launches without interactive commands: no step waits
  for a person, so the operator branches do nothing. The phase rules are the subject of
  \<^verbatim>\<open>Lifecycle\<close>; here a phase write that another transaction makes may be any phase.
\<close>

subsection \<open>Steps written and ended\<close>

definition newRow :: "nat \<Rightarrow> ident \<Rightarrow> newStep \<Rightarrow> stepRow" where
  "newRow rowId nodeId s =
     \<lparr>st_id = rowId, st_rank = ns_rank s, st_nodeId = nodeId, st_phase = ns_phase s,
      st_sequence = ns_sequence s, st_generation = ns_generation s, st_state = ns_state s,
      st_operationId = ns_operationId s, st_attempts = 0, st_ownerEpoch = None, st_deadline = None,
      st_notBefore = None, st_errorCode = None, st_mayHaveRun = False, st_rankIdle = None\<rparr>"

definition insertStep :: "nat \<Rightarrow> newStep \<Rightarrow> managedInstance \<Rightarrow> string + managedInstance" where
  "insertStep run s i =
     (if ns_generation s \<noteq> run \<or> run < 1 then Inl ''A new step belongs to its instance's current run.''
      else case rankNumbered i (ns_rank s) of
             None \<Rightarrow> Inr i
           | Some rank \<Rightarrow>
              (case rk_nodeId rank of
                 None \<Rightarrow> Inr i
               | Some nodeId \<Rightarrow> Inr (i\<lparr>in_steps := in_steps i @ [newRow (in_nextId i) nodeId s],
                                       in_nextId := in_nextId i + 1\<rparr>)))"

fun insertSteps :: "nat \<Rightarrow> newStep list \<Rightarrow> managedInstance \<Rightarrow> string + managedInstance" where
  "insertSteps run [] i = Inr i"
| "insertSteps run (s # ss) i =
     (case insertStep run s i of Inl e \<Rightarrow> Inl e | Inr i' \<Rightarrow> insertSteps run ss i')"

text \<open>\<^verbatim>\<open>StepEndData\<close>: the final state, and the error code when one is written.\<close>

datatype stepEnd = EndCancelled | EndFailed string

fun endStep :: "stepEnd \<Rightarrow> stepRow \<Rightarrow> stepRow" where
  "endStep EndCancelled s = s\<lparr>st_state := CANCELLED\<rparr>"
| "endStep (EndFailed code) s = s\<lparr>st_state := STEP_FAILED, st_errorCode := Some code\<rparr>"

definition endSteps :: "(stepRow \<Rightarrow> bool) \<Rightarrow> stepEnd \<Rightarrow> managedInstance \<Rightarrow> managedInstance" where
  "endSteps P e = updateSteps P (endStep e)"

definition endedNeverSentOr :: "nat \<Rightarrow> string \<Rightarrow> stepEnd" where
  "endedNeverSentOr attempts code = (if attempts = 0 then EndCancelled else EndFailed code)"

definition failStep :: "nat \<Rightarrow> string \<Rightarrow> managedInstance \<Rightarrow> managedInstance" where
  "failStep stepId code =
     updateSteps (\<lambda>s. st_id s = stepId \<and> (st_state s = PENDING \<or> st_state s = RUNNING))
       (\<lambda>s. (endStep (EndFailed code) s)\<lparr>st_deadline := None\<rparr>)"

subsection \<open>Stopping\<close>

definition CLI_UPGRADE_CODE :: string where
  "CLI_UPGRADE_CODE = ''cli_upgrade_required''"

definition OPERATOR_CANCELLED :: string where
  "OPERATOR_CANCELLED = ''operator_cancelled''"

definition UNPROVABLE_STOP :: "string list" where
  "UNPROVABLE_STOP =
     [OPERATOR_CANCELLED, CLI_UPGRADE_CODE, ''definition_missing'', ''definition_frozen'', ''instance_unknown'',
      ''owned_launch_unconfirmed'', ''launch_unconfirmed'']"

definition OPERATOR_HOLD_CODES :: "string list" where
  "OPERATOR_HOLD_CODES = [''operator_capability_missing'', ''operator_session_full'', ''operator_node_full'']"

definition STOP_ATTEMPTS :: nat where
  "STOP_ATTEMPTS = 3"

definition LIVE_STEP_STATES :: "stepState list" where
  "LIVE_STEP_STATES = [PENDING, RUNNING, AWAITING_OPERATOR]"

text \<open>What a stopping pass reads besides the rows: whether the launch can be read, which nodes are
  offline, for long enough to ask a person, and which ranks' last probe is old enough.\<close>

record stopFacts =
  sf_now :: millis
  sf_launchReadable :: bool
  sf_offline :: "ident \<Rightarrow> bool"
  sf_offlineLong :: "ident \<Rightarrow> bool"
  sf_probeDue :: "nat \<Rightarrow> bool"

definition nextStatusAttempt :: "managedInstance \<Rightarrow> nat \<Rightarrow> nat" where
  "nextStatusAttempt i rank =
     (let sequences = map st_sequence (filter (\<lambda>s. st_rank s = rank \<and> st_phase s = STATUS) (in_steps i))
      in if sequences = [] then 0 else foldr max sequences 0 - STATUS_SEQUENCE_BASE + 1)"

definition probeStoppingRank :: "stopFacts \<Rightarrow> nat \<Rightarrow> rankRow \<Rightarrow> managedInstance \<Rightarrow> string + bool \<times> managedInstance" where
  "probeStoppingRank facts run rank i =
     (case rk_nodeId rank of
        None \<Rightarrow> Inr (True, i)
      | Some nodeId \<Rightarrow>
          if sf_offline facts nodeId then Inr (sf_offlineLong facts nodeId, i)
          else
            let probes = filter (\<lambda>s. st_rank s = rk_rank rank \<and> st_generation s = run \<and> st_phase s = STATUS) (in_steps i);
                finished = filter (\<lambda>s. st_state s \<notin> set LIVE_STEP_STATES) probes
            in if length probes > length finished then Inr (finished \<noteq> [], i)
               else if finished = [] \<or> sf_probeDue facts (rk_rank rank) then
                 map_sum id (\<lambda>i'. (finished \<noteq> [], i'))
                   (insertSteps run [stopStep (rk_rank rank) run (nextStatusAttempt i (rk_rank rank)) None STATUS] i)
               else Inr (finished \<noteq> [], i))"

text \<open>One rank of the pass; \<open>stopSteps\<close> are this run's gang stops as the pass read them. The flag
  says whether a person has to mark the rank stopped.\<close>

definition settleRank :: "stopFacts \<Rightarrow> nat \<Rightarrow> stepRow list \<Rightarrow> rankRow \<Rightarrow> bool \<times> managedInstance \<Rightarrow> string + bool \<times> managedInstance" where
  "settleRank facts run stopSteps rank acc =
     (let (needsMark, i) = acc in
      if rk_claim rank \<noteq> HELD \<and> rk_claim rank \<noteq> HELD_UNKNOWN then Inr acc
      else let (released, i1) = releaseClaim i (rk_id rank) (sf_now facts) ReleaseNeverRan in
        if released then Inr (needsMark, i1)
        else if rk_claim rank \<noteq> HELD then Inr (needsMark, i1)
        else
          let stops = filter (\<lambda>s. st_rank s = rk_rank rank) stopSteps;
              needs1 = (needsMark \<or> (case rk_nodeId rank of None \<Rightarrow> False | Some n \<Rightarrow> sf_offlineLong facts n));
              failed = filter (\<lambda>s. st_state s = STEP_FAILED) stops
          in if \<exists>s \<in> set stops. st_state s \<in> set LIVE_STEP_STATES then Inr (needs1, i1)
             else if \<not> sf_launchReadable facts \<or> rk_nodeId rank = None then Inr (True, i1)
             else if (\<exists>s \<in> set failed. js_nullish (st_errorCode s) [] \<in> set UNPROVABLE_STOP) \<or>
                     length failed \<ge> STOP_ATTEMPTS then
               map_sum id (\<lambda>(unproven, i2). (needs1 \<or> unproven \<or>
                    (\<exists>s \<in> set failed. st_errorCode s = Some OPERATOR_CANCELLED), i2))
                 (probeStoppingRank facts run rank i1)
             else map_sum id (\<lambda>i2. (needs1, i2))
                    (insertSteps run [stopStep (rk_rank rank) run (length stops) (in_operationId i1) STOP] i1))"

fun settleRanks :: "stopFacts \<Rightarrow> nat \<Rightarrow> stepRow list \<Rightarrow> rankRow list \<Rightarrow> bool \<times> managedInstance \<Rightarrow> string + bool \<times> managedInstance" where
  "settleRanks facts run stopSteps [] acc = Inr acc"
| "settleRanks facts run stopSteps (r # rs) acc =
     (case settleRank facts run stopSteps r acc of
        Inl e \<Rightarrow> Inl e
      | Inr acc' \<Rightarrow> settleRanks facts run stopSteps rs acc')"

definition waitingStep :: "stepRow \<Rightarrow> bool" where
  "waitingStep s \<longleftrightarrow> st_state s = PENDING \<and> (isRunStartPhase (st_phase s) \<or> st_phase s = HEALTH)"

definition cancelWaiting :: "managedInstance \<Rightarrow> managedInstance" where
  "cancelWaiting i =
     endSteps waitingStep (EndFailed ''stopped'')
      (endSteps (\<lambda>s. waitingStep s \<and> st_attempts s = 0) EndCancelled
        (updateSteps (\<lambda>s. waitingStep s \<and>
             (case st_errorCode s of None \<Rightarrow> False | Some c \<Rightarrow> c \<in> set OPERATOR_HOLD_CODES))
           (\<lambda>s. s\<lparr>st_errorCode := None\<rparr>) i))"

text \<open>Once no rank holds a claim, pending stops are not needed any more; the phase write that follows
  is in \<^verbatim>\<open>Lifecycle\<close>.\<close>

definition cancelStops :: "managedInstance \<Rightarrow> managedInstance" where
  "cancelStops i =
     endSteps (\<lambda>s. st_phase s = STOP \<and> st_state s = PENDING) (EndFailed ''superseded'')
      (endSteps (\<lambda>s. st_phase s = STOP \<and> st_state s = PENDING \<and> st_attempts s = 0) EndCancelled i)"

text \<open>The rows after the pass, and whether a person has to mark a rank stopped.\<close>

definition settleStopping :: "stopFacts \<Rightarrow> managedInstance \<Rightarrow> string + bool \<times> managedInstance" where
  "settleStopping facts i =
     (let (run, i1) = resolveRun i;
          i2 = cancelWaiting i1;
          stopSteps = filter (\<lambda>s. st_generation s = run \<and> st_phase s = STOP \<and>
             st_sequence s \<ge> run * GENERATION_STRIDE + STOP_ORDER_BASE) (in_steps i2)
      in map_sum id (\<lambda>(needsMark, i3).
             (needsMark, if \<forall>r \<in> set (in_ranks i3). rk_claim r \<noteq> HELD then cancelStops i3 else i3))
           (settleRanks facts run stopSteps (in_ranks i2) (False, i2)))"

definition gangStop :: "stopFacts \<Rightarrow> managedInstance \<Rightarrow> string + managedInstance" where
  "gangStop facts i = map_sum id snd (settleStopping facts (i\<lparr>in_phase := STOPPING\<rparr>))"

subsection \<open>Preparing a run\<close>

definition runPrepared :: "managedInstance \<Rightarrow> nat \<Rightarrow> bool" where
  "runPrepared i run \<longleftrightarrow>
     length (filter (\<lambda>s. st_generation s = run \<and> isRunStartPhase (st_phase s)) (in_steps i)) > 0"

definition endedRanks :: "managedInstance \<Rightarrow> nat \<Rightarrow> nat list" where
  "endedRanks i run =
     (if run > 1 then
        map rk_rank (filter (\<lambda>r. rk_nodeId r \<noteq> None \<and> physicalLaunch i (rk_rank r) = None \<and>
          rk_stoppedThroughRun r > 0 \<and> \<not> startsUnresolved i (rk_rank r) (Some run)) (in_ranks i))
      else [])"

definition createGeneration ::
    "stopFacts \<Rightarrow> runtimeCommands list option \<Rightarrow> nat \<Rightarrow> managedInstance \<Rightarrow> string + managedInstance" where
  "createGeneration facts launch run i =
     (case launch of
        None \<Rightarrow> gangStop facts i
      | Some commands \<Rightarrow>
          let ranks = map rk_rank (filter (\<lambda>r. rk_nodeId r \<noteq> None) (in_ranks i));
              ended = endedRanks i run
          in case generationSteps ranks commands run (in_operationId i) ended of
               Inl e \<Rightarrow> Inl e
             | Inr steps \<Rightarrow>
                (case insertSteps run steps i of
                   Inl e \<Rightarrow> Inl e
                 | Inr i1 \<Rightarrow>
                    Inr (endSteps (\<lambda>s. st_phase s = HEALTH \<and> st_state s = PENDING \<and> st_attempts s = 0) EndCancelled
                      (fold (\<lambda>rank. recordStoppedThrough rank (run - 1)) ended i1))))"

definition prepareStart :: "stopFacts \<Rightarrow> runtimeCommands list option \<Rightarrow> managedInstance \<Rightarrow> string + managedInstance" where
  "prepareStart facts launch i =
     (if in_phase i \<noteq> STARTING \<or> in_desiredState i \<noteq> Some DESIRED_RUNNING then Inr i
      else let (run, i1) = resolveRun i in
           if runPrepared i1 run then Inr i1 else createGeneration facts launch run i1)"

subsection \<open>After a step\<close>

definition STATUS_LAUNCH_PENDING :: string where
  "STATUS_LAUNCH_PENDING = ''launch_pending''"

definition RANK_BUSY_RETRY_MS :: millis where
  "RANK_BUSY_RETRY_MS = 30000"

text \<open>A leading stop that answered stopped: proof, or sent again when the rank was not idle.\<close>

definition leadingStopAnswered :: "stepRow \<Rightarrow> bool \<Rightarrow> millis \<Rightarrow> managedInstance \<Rightarrow> managedInstance" where
  "leadingStopAnswered step idle now i =
     (if idle then recordStoppedThrough (st_rank step) (st_generation step - 1) i
      else updateSteps (\<lambda>s. st_id s = st_id step \<and> st_state s = SUCCEEDED)
             (\<lambda>s. s\<lparr>st_state := PENDING, st_errorCode := Some STATUS_LAUNCH_PENDING,
                    st_notBefore := Some (now + RANK_BUSY_RETRY_MS), st_rankIdle := None\<rparr>) i)"

definition stopAnswered :: "stepRow \<Rightarrow> bool \<Rightarrow> millis \<Rightarrow> managedInstance \<Rightarrow> managedInstance" where
  "stopAnswered step idle now i =
     (case rankNumbered i (st_rank step) of
        None \<Rightarrow> i
      | Some claim \<Rightarrow>
          let (released, i1) = releaseClaim i (rk_id claim) now (ReleaseResult (st_id step)) in
          if \<not> released \<and> st_phase step = STATUS \<and> \<not> idle then
            updateSteps (\<lambda>s. st_id s = st_id step \<and> st_state s = SUCCEEDED)
              (\<lambda>s. s\<lparr>st_errorCode := Some STATUS_LAUNCH_PENDING\<rparr>) i1
          else i1)"

definition answeredIdle :: "managedInstance \<Rightarrow> nat \<Rightarrow> bool" where
  "answeredIdle i stepId \<longleftrightarrow> (case findStep i stepId of None \<Rightarrow> False | Some s \<Rightarrow> st_rankIdle s = Some True)"

text \<open>\<open>step\<close> is the row as the caller read it. A readiness that completes the start and a health
  answer write only the phase.\<close>

definition afterStep :: "stopFacts \<Rightarrow> stepRow \<Rightarrow> bool \<Rightarrow> managedInstance \<Rightarrow> string + managedInstance" where
  "afterStep facts step succeeded i =
     (let (run, i0) = resolveRun i;
          mine = owned step run
      in if st_phase step = STOP \<or> st_phase step = STATUS then
           let idle = (succeeded \<and> answeredIdle i0 (st_id step));
               i1 = (if succeeded \<and> isLeadingStop step then leadingStopAnswered step idle (sf_now facts) i0 else i0)
           in if succeeded \<and> rankNumbered i1 (st_rank step) \<noteq> None then
                let i2 = stopAnswered step idle (sf_now facts) i1 in
                if in_phase i = STOPPING then map_sum id snd (settleStopping facts i2) else Inr i2
              else if \<not> succeeded \<and> mine \<and> isLeadingStop step \<and> in_phase i = STARTING then gangStop facts i1
              else if in_phase i = STOPPING then map_sum id snd (settleStopping facts i1)
              else Inr i1
         else if \<not> mine \<or> st_phase step = HEALTH then Inr i0
         else if in_phase i \<noteq> STARTING \<or> in_desiredState i \<noteq> Some DESIRED_RUNNING then Inr i0
         else if \<not> succeeded then gangStop facts i0
         else if st_phase step \<noteq> READINESS then Inr i0
         else if \<exists>s \<in> set (in_steps i0). st_generation s = st_generation step \<and> isRunStartPhase (st_phase s) \<and>
                  st_state s \<noteq> SUCCEEDED then Inr i0
         else Inr (i0\<lparr>in_phase := READY\<rparr>))"

subsection \<open>Sending a step\<close>

definition statusProbeWanted :: "managedInstance \<Rightarrow> claimState option \<Rightarrow> bool" where
  "statusProbeWanted i claim \<longleftrightarrow>
     claim = Some HELD_UNKNOWN \<or> claim = Some HELD \<and> in_phase i = STOPPING"

text \<open>What sending reads besides the rows: the stored intent, the owner, the step's node and its
  session, the agent rules, the instances it waits for, and the head's address.\<close>

record claimFacts =
  cf_intentReadable :: bool
  cf_ownerActive :: bool
  cf_nodeMatches :: bool
  cf_agentRefused :: bool
  cf_cliProvesIdle :: bool
  cf_reservationsUnread :: bool
  cf_blockersHold :: bool
  cf_headMissing :: bool
  cf_ownerEpoch :: string
  cf_timeoutMs :: millis

definition startReady :: "managedInstance \<Rightarrow> stepRow \<Rightarrow> bool" where
  "startReady i step \<longleftrightarrow>
     \<not> (\<exists>s \<in> set (in_steps i). st_generation s = st_generation step \<and> st_sequence s < st_sequence step \<and>
          (isRunStartPhase (st_phase s) \<or> st_phase s = STOP) \<and> st_state s \<noteq> SUCCEEDED)"

definition claimedRow :: "claimFacts \<Rightarrow> millis \<Rightarrow> stepRow \<Rightarrow> stepRow" where
  "claimedRow cf now s =
     s\<lparr>st_state := RUNNING, st_ownerEpoch := Some (cf_ownerEpoch cf), st_attempts := st_attempts s + 1,
       st_mayHaveRun := js_nullish (mayHaveRunAfterRequeue (st_attempts s)) (st_mayHaveRun s),
       st_rankIdle := None, st_deadline := Some (now + cf_timeoutMs cf), st_notBefore := None,
       st_errorCode := (case st_errorCode s of None \<Rightarrow> None
          | Some c \<Rightarrow> if c \<in> set OPERATOR_HOLD_CODES then None else Some c)\<rparr>"

text \<open>The last part of a claim: the head's address, then the row.\<close>

definition sendStep :: "stopFacts \<Rightarrow> claimFacts \<Rightarrow> stepRow \<Rightarrow> managedInstance \<Rightarrow> string + bool \<times> managedInstance" where
  "sendStep facts cf step i =
     (if cf_headMissing cf then
        map_sum id (Pair False) (afterStep facts step False (failStep (st_id step) ''bad_job'' i))
      else Inr (True, updateSteps (\<lambda>s. st_id s = st_id step \<and> st_state s = PENDING) (claimedRow cf (sf_now facts)) i))"

text \<open>A start's own checks: its turn, the holds its run replaces, the instances it waits for, and
  that every rank holds its claim.\<close>

definition sendStart :: "stopFacts \<Rightarrow> claimFacts \<Rightarrow> stepRow \<Rightarrow> managedInstance \<Rightarrow> string + bool \<times> managedInstance" where
  "sendStart facts cf step i =
     (if \<not> startReady i step then Inr (False, i)
      else
        let i1 = dropSupersededHolds (st_generation step) i;
            blockers = concat (map rk_blockedBy (in_ranks i))
        in if blockers \<noteq> [] \<and> cf_blockersHold cf then Inr (False, i1)
           else
             let i2 = (if blockers \<noteq> [] then updateRanks (\<lambda>_. True) (\<lambda>r. r\<lparr>rk_blockedBy := []\<rparr>) i1 else i1)
             in if \<exists>r \<in> set (in_ranks i). rk_claim r \<noteq> HELD then Inr (False, i2)
                else sendStep facts cf step i2)"

definition claimStep :: "stopFacts \<Rightarrow> claimFacts \<Rightarrow> nat \<Rightarrow> managedInstance \<Rightarrow> string + bool \<times> managedInstance" where
  "claimStep facts cf stepId i =
     (let refuse = (\<lambda>code step i'. map_sum id (Pair False) (afterStep facts step False (failStep stepId code i')))
      in case findStep i stepId of
           None \<Rightarrow> Inr (False, i)
         | Some step \<Rightarrow>
             if st_state step \<noteq> PENDING then Inr (False, i)
             else if (case st_notBefore step of None \<Rightarrow> False | Some t \<Rightarrow> t > sf_now facts) then Inr (False, i)
             else if \<not> cf_intentReadable cf then refuse ''bad_job'' step i
             else
               let (run, i1) = resolveRun i;
                   claim = map_option rk_claim (rankNumbered i (st_rank step));
                   pending = (\<lambda>s. st_id s = stepId \<and> st_state s = PENDING);
                   start = isRunStartPhase (st_phase step)
               in if \<not> owned step run then
                    Inr (False, endSteps pending (endedNeverSentOr (st_attempts step) ''superseded'') i1)
                  else if (st_phase step = STOP \<or> st_phase step = STATUS) \<and>
                    (claim = Some RELEASED \<or> st_phase step = STATUS \<and> \<not> statusProbeWanted i claim) then
                    Inr (False, endSteps pending (endedNeverSentOr (st_attempts step) ''released'') i1)
                  else if (start \<or> st_phase step = HEALTH) \<and>
                    (in_desiredState i \<noteq> Some DESIRED_RUNNING \<or> start \<and> in_phase i \<noteq> STARTING \<or>
                     st_phase step = HEALTH \<and> in_phase i \<noteq> READY \<and> in_phase i \<noteq> UNHEALTHY \<or>
                     \<not> cf_ownerActive cf) then Inr (False, i1)
                  else if isLeadingStop step \<and> startsUnresolved i1 (st_rank step) (Some run) then Inr (False, i1)
                  else if \<not> cf_nodeMatches cf then Inr (False, i1)
                  else if start \<and> cf_agentRefused cf then refuse ''trust_relay'' step i1
                  else if \<not> cf_cliProvesIdle cf \<or> start \<and> cf_reservationsUnread cf then
                    refuse CLI_UPGRADE_CODE step i1
                  else if start then sendStart facts cf step i1
                  else sendStep facts cf step i1)"

definition undeliver :: "nat \<Rightarrow> string \<Rightarrow> managedInstance \<Rightarrow> managedInstance" where
  "undeliver stepId ownerEpoch =
     updateSteps (\<lambda>s. st_id s = stepId \<and> st_state s = RUNNING \<and> st_ownerEpoch s = Some ownerEpoch)
       (\<lambda>s. s\<lparr>st_state := PENDING, st_ownerEpoch := None, st_deadline := None, st_attempts := st_attempts s - 1\<rparr>)"

definition requeueLost :: "(string option \<Rightarrow> bool) \<Rightarrow> nat \<Rightarrow> managedInstance \<Rightarrow> managedInstance" where
  "requeueLost epoch stepId =
     updateSteps (\<lambda>s. st_id s = stepId \<and> st_state s = RUNNING \<and> epoch (st_ownerEpoch s))
       (\<lambda>s. s\<lparr>st_state := PENDING, st_ownerEpoch := None, st_deadline := None,
              st_mayHaveRun := js_nullish (mayHaveRunAfterRequeue (st_attempts s)) (st_mayHaveRun s)\<rparr>)"

subsection \<open>Answers and deadlines\<close>

definition STOP_PROOF_FAILURES :: "string list" where
  "STOP_PROOF_FAILURES =
     [''process_alive'', ''process_unknown'', ''status_running'', ''status_unknown'', ''port_in_use'',
      ''port_held_outside_runtime'', ''unowned_service'']"

definition stopProofFailure :: "stepPhase \<Rightarrow> string option \<Rightarrow> string option" where
  "stopProofFailure phase detail =
     (case detail of None \<Rightarrow> None
      | Some d \<Rightarrow> if phase = STATUS \<and> d \<in> set STOP_PROOF_FAILURES then Some d else None)"

definition DEFINITION_RETRY_MS :: millis where
  "DEFINITION_RETRY_MS = 5000"

text \<open>A result of a job that is over (a running job's changes nothing). \<open>jr_fullControl\<close> is what
  the node's row says when the answer arrives.\<close>

record jobResult =
  jr_stepId :: nat
  jr_rank :: nat
  jr_nodeId :: ident
  jr_ownerEpoch :: string
  jr_succeeded :: bool
  jr_stopped :: bool
  jr_error :: "string option"
  jr_detail :: "string option"
  jr_rankIdle :: "bool option"
  jr_fullControl :: bool

definition resultSucceeded :: "stepRow \<Rightarrow> jobResult \<Rightarrow> bool" where
  "resultSucceeded step result \<longleftrightarrow>
     jr_succeeded result \<and> (\<not> (st_phase step = STOP \<or> st_phase step = STATUS) \<or> jr_stopped result)"

definition resultCode :: "stepRow \<Rightarrow> jobResult \<Rightarrow> string option" where
  "resultCode step result =
     (if resultSucceeded step result then None
      else
        let code = (case jr_error result of
              Some e \<Rightarrow> e
            | None \<Rightarrow> if st_phase step = STOP \<or> st_phase step = STATUS
                then js_nullish (stopProofFailure (st_phase step) (jr_detail result)) ''not_stopped''
                else ''job_failed'')
        in Some (if code = ''definition_missing'' \<and> isRunStartPhase (st_phase step) \<and> \<not> jr_fullControl result
                 then ''definition_frozen'' else code))"

definition resultRetries :: "stepRow \<Rightarrow> jobResult \<Rightarrow> bool" where
  "resultRetries step result \<longleftrightarrow>
     \<not> resultSucceeded step result \<and> isRunStartPhase (st_phase step) \<and>
     (resultCode step result = Some ''session_disconnected'' \<or>
      resultCode step result = Some ''definition_missing'' \<and> jr_fullControl result)"

definition applyJobResult :: "stopFacts \<Rightarrow> string \<Rightarrow> jobResult \<Rightarrow> managedInstance \<Rightarrow> string + managedInstance" where
  "applyJobResult facts currentEpoch result i =
     (if jr_ownerEpoch result \<noteq> currentEpoch then Inr i
      else case findStep i (jr_stepId result) of
             None \<Rightarrow> Inr i
           | Some step \<Rightarrow>
               if st_nodeId step \<noteq> jr_nodeId result \<or> st_rank step \<noteq> jr_rank result \<or>
                  st_ownerEpoch step \<noteq> Some (jr_ownerEpoch result) \<or> st_state step \<noteq> RUNNING then Inr i
               else if resultRetries step result then
                 Inr (updateSteps (\<lambda>s. st_id s = st_id step \<and> st_state s = st_state step)
                   (\<lambda>s. s\<lparr>st_state := PENDING, st_ownerEpoch := None, st_deadline := None,
                          st_attempts := st_attempts s - 1,
                          st_notBefore := Some (sf_now facts + DEFINITION_RETRY_MS)\<rparr>) i)
               else
                 afterStep facts step (resultSucceeded step result)
                   (updateSteps (\<lambda>s. st_id s = st_id step \<and> st_state s = st_state step \<and>
                        st_ownerEpoch s = Some (jr_ownerEpoch result))
                     (\<lambda>s. s\<lparr>st_state := (if resultSucceeded step result then SUCCEEDED else STEP_FAILED),
                            st_errorCode := resultCode step result, st_rankIdle := jr_rankIdle result,
                            st_deadline := None\<rparr>) i))"

definition expireStep :: "stopFacts \<Rightarrow> nat \<Rightarrow> managedInstance \<Rightarrow> string + managedInstance" where
  "expireStep facts stepId i =
     (case findStep i stepId of
        None \<Rightarrow> Inr i
      | Some step \<Rightarrow>
          if st_state step \<noteq> RUNNING \<or> (case st_deadline step of None \<Rightarrow> True | Some d \<Rightarrow> d > sf_now facts) then Inr i
          else afterStep facts step False
                 (updateSteps (\<lambda>s. st_id s = stepId \<and> st_state s = RUNNING)
                   (\<lambda>s. s\<lparr>st_state := STEP_FAILED, st_errorCode := Some ''job_deadline'', st_deadline := None\<rparr>) i))"

subsection \<open>Ranks marked stopped, and the node's inventory\<close>

definition markedRow :: "millis \<Rightarrow> ident \<Rightarrow> rankRow \<Rightarrow> rankRow" where
  "markedRow now by r =
     r\<lparr>rk_claim := HELD_UNKNOWN, rk_claimChangedAt := now, rk_markedStoppedAt := Some now,
       rk_markedStoppedBy := Some by, rk_lastStopCheckAt := None\<rparr>"

definition markStopped :: "millis \<Rightarrow> ident \<Rightarrow> nat option \<Rightarrow> managedInstance \<Rightarrow> string + managedInstance" where
  "markStopped now userId nodeNumber i =
     (let ranks = filter (\<lambda>r. rk_claim r = HELD \<and>
            (case nodeNumber of None \<Rightarrow> True | Some n \<Rightarrow> rk_rank r = n - 1)) (in_ranks i)
      in if in_phase i \<noteq> STOPPING \<or> ranks = [] then Inl ''CONFLICT''
         else Inr (endSteps (\<lambda>s. st_rank s \<in> set (map rk_rank ranks) \<and> st_phase s = STOP \<and> st_state s = PENDING \<and>
                st_attempts s = 0) EndCancelled
              (updateRanks (\<lambda>r. rk_id r \<in> set (map rk_id ranks) \<and> rk_claim r = HELD) (markedRow now userId) i)))"

definition probeHeldRank :: "stopFacts \<Rightarrow> nat \<Rightarrow> managedInstance \<Rightarrow> string + managedInstance" where
  "probeHeldRank facts rankId i =
     (case findRank i rankId of
        None \<Rightarrow> Inr i
      | Some rank \<Rightarrow>
          if rk_claim rank \<noteq> HELD_UNKNOWN then Inr i
          else let (released, i1) = releaseClaim i rankId (sf_now facts) ReleaseNeverRan in
            if released then Inr i1
            else
              let (run, i2) = resolveRun i1;
                  probes = filter (\<lambda>s. st_rank s = rk_rank rank \<and> st_phase s = STATUS \<and> st_generation s = run) (in_steps i2)
              in if (\<exists>s \<in> set probes. st_state s \<in> set LIVE_STEP_STATES) \<or>
                    probes \<noteq> [] \<and> \<not> sf_probeDue facts (rk_rank rank) then Inr i2
                 else if \<not> sf_launchReadable facts then Inr i2
                 else insertSteps run [stopStep (rk_rank rank) run (nextStatusAttempt i2 (rk_rank rank)) None STATUS] i2)"

definition inventoryEvidence :: "managedInstance \<Rightarrow> rankRow \<Rightarrow> ident \<Rightarrow> nat \<Rightarrow> bool" where
  "inventoryEvidence i rank nodeId stepId =
     (case findStep i stepId of
        None \<Rightarrow> False
      | Some step \<Rightarrow>
          st_rank step = rk_rank rank \<and> st_nodeId step = nodeId \<and>
          owned step (fst (resolveRun i)) \<and> fresh i step (fst (resolveRun i)))"

datatype inventoryPhase = InvStopped | InvUnknown | InvOther

text \<open>One record of an inventory that names the step it ran last.\<close>

definition inventoryRecord ::
    "stopFacts \<Rightarrow> nat \<Rightarrow> ident \<Rightarrow> nat \<Rightarrow> inventoryPhase \<Rightarrow> bool \<Rightarrow> managedInstance \<Rightarrow> string + managedInstance" where
  "inventoryRecord facts rankId nodeId stepId phase rankIdle i =
     (case findRank i rankId of
        None \<Rightarrow> Inr i
      | Some claim \<Rightarrow>
          if rk_nodeId claim \<noteq> Some nodeId \<or> rk_claim claim = RELEASED \<or> \<not> inventoryEvidence i claim nodeId stepId then Inr i
          else if phase = InvStopped \<and> (in_phase i = STOPPING \<or> rk_claim claim = HELD_UNKNOWN) then
            let i1 = snd (releaseClaim i rankId (sf_now facts) (ReleaseObservation stepId rankIdle))
            in if in_phase i = STOPPING then map_sum id snd (settleStopping facts i1) else Inr i1
          else if (in_phase i = READY \<or> in_phase i = UNHEALTHY) \<and> in_desiredState i = Some DESIRED_RUNNING \<and>
                  phase \<noteq> InvOther \<and> rk_claim claim = HELD then gangStop facts i
          else Inr i)"

definition stampStopCheck :: "nat \<Rightarrow> millis \<Rightarrow> managedInstance \<Rightarrow> managedInstance" where
  "stampStopCheck rankId at =
     updateRanks (\<lambda>r. rk_id r = rankId \<and> rk_claim r = HELD_UNKNOWN) (\<lambda>r. r\<lparr>rk_lastStopCheckAt := Some at\<rparr>)"

subsection \<open>Health probes\<close>

definition scheduleHealth :: "bool \<Rightarrow> bool \<Rightarrow> managedInstance \<Rightarrow> string + managedInstance" where
  "scheduleHealth launchReadable due i =
     (if \<not> launchReadable \<or> \<not> due then Inr i
      else
        let probes = filter (\<lambda>s. st_phase s = HEALTH) (in_steps i) in
        if \<exists>s \<in> set probes. st_state s = PENDING \<or> st_state s = RUNNING then Inr i
        else case rankNumbered i 0 of
               None \<Rightarrow> Inr i
             | Some head \<Rightarrow>
                 if rk_nodeId head = None then Inr i
                 else
                   let (run, i1) = resolveRun i;
                       sequence = (if probes = [] then HEALTH_SEQUENCE_BASE else foldr max (map st_sequence probes) 0 + 1)
                   in insertSteps run [healthStep 0 run sequence] i1)"

definition pruneHealth :: "nat list \<Rightarrow> managedInstance \<Rightarrow> managedInstance" where
  "pruneHealth ids i = i\<lparr>in_steps := filter (\<lambda>s. \<not> (st_id s \<in> set ids \<and> st_phase s = HEALTH)) (in_steps i)\<rparr>"

subsection \<open>Starts and restarts\<close>

text \<open>A new instance with its ranks and reservations; the columns not named have their defaults.\<close>

definition createdRank :: "millis \<Rightarrow> int option \<Rightarrow> ident list \<Rightarrow> nat \<Rightarrow> rankPlacement \<Rightarrow> rankRow" where
  "createdRank now distPort blockedBy rowId p =
     \<lparr>rk_id = rowId, rk_rank = pl_nodeNumber p - 1, rk_nodeId = Some (pl_nodeId p), rk_resources = pl_resources p,
      rk_port = pl_port p, rk_distPort = distPort, rk_claim = HELD, rk_claimChangedAt = now, rk_blockedBy = blockedBy,
      rk_stoppedAt = None, rk_markedStoppedAt = None, rk_markedStoppedBy = None, rk_lastStopCheckAt = None,
      rk_releasedUnprovenAt = None, rk_releasedUnprovenBy = None, rk_releasedUnprovenReason = None,
      rk_plannedGeneration = 0, rk_prevResources = None, rk_prevPort = None, rk_prevDistPort = None,
      rk_prevGeneration = None, rk_stoppedThroughRun = 0\<rparr>"

definition createInstance ::
    "millis \<Rightarrow> ident \<Rightarrow> rankPlacement list \<Rightarrow> int option \<Rightarrow> ident list \<Rightarrow> reservationWrite list \<Rightarrow> managedInstance" where
  "createInstance now operationId placements distPort blockedBy reservations =
     \<lparr>in_phase = STARTING, in_desiredState = Some DESIRED_RUNNING, in_operationId = Some operationId,
      in_runGeneration = 1,
      in_ranks = map (\<lambda>(n, p). createdRank now distPort blockedBy n p) (enumerate 0 placements),
      in_steps = [],
      in_reservations = map (\<lambda>(n, w). rowOf 0 n w) (enumerate (length placements) reservations),
      in_requests = [], in_nextId = length placements + length reservations\<rparr>"

definition startingAgain :: "managedInstance \<Rightarrow> managedInstance" where
  "startingAgain i = i\<lparr>in_phase := STARTING, in_desiredState := Some DESIRED_RUNNING\<rparr>"

text \<open>A restart asked for, and the engine's own restart, which prepares the run at once.\<close>

definition restartInstance ::
    "millis \<Rightarrow> ident \<Rightarrow> rankPlacement list \<Rightarrow> int option \<Rightarrow> ident list \<Rightarrow> reservationWrite list \<Rightarrow>
     managedInstance \<Rightarrow> retakeError + managedInstance" where
  "restartInstance now operationId placements distPort blockedBy reservations i =
     (let i0 = (startingAgain (snd (resolveRun i)))\<lparr>in_operationId := Some operationId\<rparr>
      in map_sum id snd (retakeInstanceClaims i0 now reservations (writeRanksRestart placements distPort blockedBy)))"

datatype engineError = RetakeFailed retakeError | StepsFailed string

definition retake ::
    "stopFacts \<Rightarrow> runtimeCommands list option \<Rightarrow> retakePlan option \<Rightarrow> reservationWrite list \<Rightarrow>
     managedInstance \<Rightarrow> engineError + managedInstance" where
  "retake facts launch plan reservations i =
     (case retakeInstanceClaims i (sf_now facts) reservations (writeRanksRetake plan (in_ranks i)) of
        Inl e \<Rightarrow> Inl (RetakeFailed e)
      | Inr (run, i1) \<Rightarrow> map_sum StepsFailed id (createGeneration facts launch run (startingAgain i1)))"

end
