(* ===== verification/RunSafety.thy ===== *)
theory RunSafety
  imports RunEngine
begin

text \<open>
  What an instance holds covers what it may still be running.

  The ghost state records, per run, the claim of each rank and the reservations of its plan (as
  canonical text), the runs a start of which was sent, and per rank the last run a person gave up
  without proof. The invariant relates it to the rows: a launch that was sent, is not proven
  stopped and was not given up is held by the rank's current claim when the claim was planned
  before its run, and by the rank's previous claim otherwise; and every reservation of its plan
  still has a row.
\<close>

subsection \<open>Ghost state and invariant\<close>

type_synonym holdKey = "canonicalJsonError + code_units"

record ghost =
  gh_claims :: "nat \<Rightarrow> nat \<Rightarrow> holdKey"
  gh_plans :: "nat \<Rightarrow> holdKey list"
  gh_sent :: "nat set"
  gh_waived :: "nat \<Rightarrow> nat"

definition previousKey :: "previousClaim \<Rightarrow> holdKey" where
  "previousKey p = rankClaimKey (js_nullish (pc_resources p) (JObject [])) (Some (pc_port p)) (pc_distPort p)"

definition prevKey :: "rankRow \<Rightarrow> holdKey option" where
  "prevKey r = map_option previousKey (keptClaim r)"

text \<open>A launch of the rank that may still run, and that nobody gave up.\<close>

definition mayRun :: "ghost \<Rightarrow> rankRow \<Rightarrow> stepRow \<Rightarrow> bool" where
  "mayRun g r s \<longleftrightarrow>
     dispatchedStart s \<and> st_rank s = rk_rank r \<and> rk_claim r \<noteq> RELEASED \<and>
     rk_stoppedThroughRun r < st_generation s \<and> gh_waived g (rk_rank r) < st_generation s"

definition ids_ok :: "managedInstance \<Rightarrow> bool" where
  "ids_ok i \<longleftrightarrow>
     0 < in_runGeneration i \<and> distinct (map rk_id (in_ranks i)) \<and> distinct (map rk_rank (in_ranks i)) \<and>
     (\<forall>r \<in> set (in_ranks i). rk_nodeId r \<noteq> None) \<and>
     distinct (map st_id (in_steps i)) \<and> (\<forall>s \<in> set (in_steps i). st_id s < in_nextId i) \<and>
     distinct (map rv_id (in_reservations i)) \<and> (\<forall>row \<in> set (in_reservations i). rv_id row < in_nextId i)"

definition step_ok :: "ghost \<Rightarrow> managedInstance \<Rightarrow> stepRow \<Rightarrow> bool" where
  "step_ok g i s \<longleftrightarrow>
     0 < st_generation s \<and> st_generation s \<le> in_runGeneration i \<and>
     (isRunStartPhase (st_phase s) \<longrightarrow> st_generation s * GENERATION_STRIDE < st_sequence s) \<and>
     (dispatchedStart s \<longrightarrow> st_generation s \<in> gh_sent g) \<and>
     (isRunStartPhase (st_phase s) \<and> st_generation s = in_runGeneration i \<and> 1 < in_runGeneration i \<longrightarrow>
        (\<forall>r \<in> set (in_ranks i). \<exists>t \<in> set (in_steps i).
           isLeadingStop t \<and> st_generation t = in_runGeneration i \<and> st_rank t = rk_rank r))"

definition stop_proven :: "managedInstance \<Rightarrow> stepRow \<Rightarrow> bool" where
  "stop_proven i s \<longleftrightarrow>
     (isLeadingStop s \<and> st_state s = SUCCEEDED \<longrightarrow>
       (\<forall>r \<in> set (in_ranks i). rk_rank r = st_rank s \<longrightarrow> st_generation s - 1 \<le> rk_stoppedThroughRun r))"

definition rank_ok :: "ghost \<Rightarrow> managedInstance \<Rightarrow> rankRow \<Rightarrow> bool" where
  "rank_ok g i r \<longleftrightarrow>
     rk_plannedGeneration r < in_runGeneration i \<and>
     gh_claims g (in_runGeneration i) (rk_rank r) = claimKey r \<and> succeeds (claimKey r) \<and>
     (rk_claim r \<noteq> RELEASED \<longrightarrow> rk_releasedUnprovenAt r = None) \<and>
     (\<forall>p. keptClaim r = Some p \<longrightarrow>
        pc_generation p < in_runGeneration i \<and> pc_generation p \<le> rk_plannedGeneration r \<and>
        (\<forall>x \<in> gh_sent g. x \<le> pc_generation p)) \<and>
     (rk_claim r = RELEASED \<and> rk_releasedUnprovenAt r \<noteq> None \<longrightarrow>
        (\<forall>s \<in> set (in_steps i). dispatchedStart s \<and> st_rank s = rk_rank r \<longrightarrow>
           st_generation s \<le> gh_waived g (rk_rank r)))"

definition hold_ok :: "ghost \<Rightarrow> managedInstance \<Rightarrow> rankRow \<Rightarrow> stepRow \<Rightarrow> bool" where
  "hold_ok g i r s \<longleftrightarrow>
     (mayRun g r s \<longrightarrow>
       (if st_generation s \<le> rk_plannedGeneration r
        then prevKey r = Some (gh_claims g (st_generation s) (rk_rank r))
        else claimKey r = gh_claims g (st_generation s) (rk_rank r)) \<and>
       (\<forall>k \<in> set (gh_plans g (st_generation s)).
          \<exists>row \<in> set (in_reservations i). rowKey row = k \<and> rv_plannedGeneration row < st_generation s))"

definition row_ok :: "ghost \<Rightarrow> managedInstance \<Rightarrow> reservationRow \<Rightarrow> bool" where
  "row_ok g i row \<longleftrightarrow>
     rv_plannedGeneration row < in_runGeneration i \<and> succeeds (rowKey row) \<and>
     (CURRENT_RESERVATION_WHERE row \<longrightarrow> rowKey row \<in> set (gh_plans g (in_runGeneration i))) \<and>
     (\<forall>x \<in> gh_sent g. rv_plannedGeneration row < x \<longrightarrow> rowKey row \<in> set (gh_plans g x)) \<and>
     (\<forall>sg. rv_supersededGeneration row = Some sg \<longrightarrow>
        sg < in_runGeneration i \<and> (\<exists>x \<in> gh_sent g. rv_plannedGeneration row < x))"

definition rows_ok :: "ghost \<Rightarrow> managedInstance \<Rightarrow> bool" where
  "rows_ok g i \<longleftrightarrow>
     distinct (map rowKey (in_reservations i)) \<and>
     (\<forall>k \<in> set (gh_plans g (in_runGeneration i)).
        \<exists>row \<in> set (in_reservations i). CURRENT_RESERVATION_WHERE row \<and> rowKey row = k) \<and>
     (\<forall>row \<in> set (in_reservations i). row_ok g i row)"

text \<open>The invariant; \<open>X\<close> are the steps whose answer is being recorded.\<close>

definition inv :: "ghost \<Rightarrow> nat set \<Rightarrow> managedInstance \<Rightarrow> bool" where
  "inv g X i \<longleftrightarrow>
     ids_ok i \<and> (\<forall>x \<in> gh_sent g. x \<le> in_runGeneration i) \<and>
     (\<forall>s \<in> set (in_steps i). step_ok g i s \<and> (st_id s \<in> X \<or> stop_proven i s)) \<and>
     (\<forall>r \<in> set (in_ranks i). rank_ok g i r \<and> (\<forall>s \<in> set (in_steps i). hold_ok g i r s)) \<and>
     rows_ok g i"

lemma resolveRun_inv [simp]: "inv g X i \<Longrightarrow> resolveRun i = (in_runGeneration i, i)"
  by (simp add: inv_def ids_ok_def resolveRun_def)

subsection \<open>Changes of the rows that keep the invariant\<close>

text \<open>The columns a step keeps for life.\<close>

definition same_step :: "stepRow \<Rightarrow> stepRow \<Rightarrow> bool" where
  "same_step s t \<longleftrightarrow>
     st_id s = st_id t \<and> st_rank s = st_rank t \<and> st_phase s = st_phase t \<and> st_sequence s = st_sequence t \<and>
     st_generation s = st_generation t"

lemma same_step_leading: "same_step s t \<Longrightarrow> isLeadingStop s \<longleftrightarrow> isLeadingStop t"
  by (simp add: same_step_def isLeadingStop_def stepSlot_def)

lemma set_update_where: "set (update_where P f xs) = (\<lambda>x. if P x then f x else x) ` set xs"
  by (simp add: update_where_def)

lemma map_update_where: "(\<And>x. P x \<Longrightarrow> h (f x) = h x) \<Longrightarrow> map h (update_where P f xs) = map h xs"
  by (simp add: update_where_def)

text \<open>Steps are updated and added; nothing is sent.\<close>

lemma inv_steps:
  assumes inv: "inv g X i"
    and old: "\<And>s. s \<in> set (in_steps i) \<Longrightarrow> \<exists>t \<in> set steps. same_step t s"
    and new: "\<And>t. t \<in> set steps \<Longrightarrow> dispatchedStart t \<Longrightarrow>
        \<exists>s \<in> set (in_steps i). same_step t s \<and> dispatchedStart s"
    and ok: "\<And>t. t \<in> set steps \<Longrightarrow> (\<exists>s \<in> set (in_steps i). same_step t s) \<or>
        \<not> dispatchedStart t \<and> 0 < st_generation t \<and> st_generation t \<le> in_runGeneration i \<and>
        (isRunStartPhase (st_phase t) \<longrightarrow> st_generation t * GENERATION_STRIDE < st_sequence t \<and>
          (1 < in_runGeneration i \<longrightarrow> (\<forall>r \<in> set (in_ranks i). \<exists>u \<in> set steps.
             isLeadingStop u \<and> st_generation u = in_runGeneration i \<and> st_rank u = rk_rank r)))"
    and proven: "\<And>t. t \<in> set steps \<Longrightarrow> st_id t \<in> Y \<or> stop_proven i t"
    and ids: "distinct (map st_id steps)" "\<And>t. t \<in> set steps \<Longrightarrow> st_id t < n" "in_nextId i \<le> n"
  shows "inv g Y (i\<lparr>in_steps := steps, in_nextId := n\<rparr>)"
proof -
  let ?i = "i\<lparr>in_steps := steps, in_nextId := n\<rparr>"
  have ids': "ids_ok ?i"
    using inv ids by (auto simp: inv_def ids_ok_def intro: less_le_trans)
  have lead: "\<exists>t \<in> set steps. isLeadingStop t \<and> st_generation t = k \<and> st_rank t = n"
    if "\<exists>t \<in> set (in_steps i). isLeadingStop t \<and> st_generation t = k \<and> st_rank t = n" for k n
    using that old same_step_leading by (metis same_step_def)
  have step: "step_ok g ?i t" if t: "t \<in> set steps" for t
  proof (cases "\<exists>s \<in> set (in_steps i). same_step t s")
    case True
    then obtain s where s: "s \<in> set (in_steps i)" "same_step t s" by blast
    then have "step_ok g i s" using inv by (simp add: inv_def)
    moreover have "dispatchedStart t \<Longrightarrow> st_generation t \<in> gh_sent g"
      using new[OF t] inv by (metis inv_def same_step_def step_ok_def)
    ultimately show ?thesis using s(2) lead by (auto simp: step_ok_def same_step_def)
  next
    case False
    then show ?thesis using ok[OF t] by (auto simp: step_ok_def)
  qed
  have rank: "rank_ok g ?i r \<and> (\<forall>t \<in> set steps. hold_ok g ?i r t)" if r: "r \<in> set (in_ranks i)" for r
  proof -
    have ro: "rank_ok g i r" "\<forall>s \<in> set (in_steps i). hold_ok g i r s" using inv r by (auto simp: inv_def)
    have "rank_ok g ?i r"
      using ro(1) new unfolding rank_ok_def by (simp add: same_step_def) metis
    moreover have "hold_ok g ?i r t" if t: "t \<in> set steps" for t
    proof (cases "dispatchedStart t")
      case True
      then obtain s where "s \<in> set (in_steps i)" "same_step t s" "dispatchedStart s" using new[OF t] by blast
      then show ?thesis using ro(2) by (auto simp: hold_ok_def mayRun_def same_step_def)
    qed (simp add: hold_ok_def mayRun_def)
    ultimately show ?thesis by blast
  qed
  have rows: "rows_ok g ?i" using inv by (auto simp: inv_def rows_ok_def row_ok_def)
  show ?thesis
    using inv ids' step rank rows proven by (auto simp: inv_def stop_proven_def)
qed


lemma same_step_refl [simp]: "same_step s s"
  by (simp add: same_step_def)

lemma instance_steps_update [simp]: "i\<lparr>in_steps := ss, in_nextId := in_nextId i\<rparr> = i\<lparr>in_steps := ss\<rparr>"
  by simp

lemma inv_updateSteps:
  assumes inv: "inv g X i"
    and keep: "\<And>s. P s \<Longrightarrow> same_step (f s) s"
    and sent: "\<And>s. s \<in> set (in_steps i) \<Longrightarrow> P s \<Longrightarrow> dispatchedStart (f s) \<Longrightarrow> dispatchedStart s"
    and proven: "\<And>s. s \<in> set (in_steps i) \<Longrightarrow> P s \<Longrightarrow> st_id s \<in> Y \<or> stop_proven i (f s)"
      "\<And>s. s \<in> set (in_steps i) \<Longrightarrow> \<not> P s \<Longrightarrow> st_id s \<in> X \<Longrightarrow> st_id s \<in> Y \<or> stop_proven i s"
  shows "inv g Y (updateSteps P f i)"
proof -
  let ?f = "\<lambda>s. if P s then f s else s"
  have same: "same_step (?f s) s" for s using keep by simp
  have elem: "t \<in> set (update_where P f (in_steps i)) \<longleftrightarrow> (\<exists>s \<in> set (in_steps i). t = ?f s)" for t
    by (auto simp: set_update_where)
  have "inv g Y (i\<lparr>in_steps := update_where P f (in_steps i), in_nextId := in_nextId i\<rparr>)"
  proof (rule inv_steps[OF inv])
    have "map st_id (update_where P f (in_steps i)) = map st_id (in_steps i)"
      using keep by (intro map_update_where) (simp add: same_step_def)
    then show "distinct (map st_id (update_where P f (in_steps i)))"
      using inv by (simp add: inv_def ids_ok_def)
    show "in_nextId i \<le> in_nextId i" by simp
    show "\<exists>t \<in> set (update_where P f (in_steps i)). same_step t s" if "s \<in> set (in_steps i)" for s
      using that same[of s] elem by blast
    fix t assume "t \<in> set (update_where P f (in_steps i))"
    then obtain s where s: "s \<in> set (in_steps i)" "t = ?f s" using elem by blast
    then have id: "st_id t = st_id s" and t: "same_step t s" using same[of s] by (simp_all add: same_step_def)
    show "st_id t < in_nextId i" using inv s(1) id by (simp add: inv_def ids_ok_def)
    show "st_id t \<in> Y \<or> stop_proven i t"
    proof (cases "P s")
      case True
      then show ?thesis using proven(1)[OF s(1)] s(2) id by simp
    next
      case False
      then show ?thesis using proven(2)[OF s(1)] s inv unfolding inv_def by auto
    qed
    show "\<exists>s \<in> set (in_steps i). same_step t s \<and> dispatchedStart s" if "dispatchedStart t"
    proof -
      have "dispatchedStart s" using s(2) sent[OF s(1)] that by (cases "P s") simp_all
      then show ?thesis using s(1) t by blast
    qed
    show "(\<exists>s \<in> set (in_steps i). same_step t s) \<or>
        \<not> dispatchedStart t \<and> 0 < st_generation t \<and> st_generation t \<le> in_runGeneration i \<and>
        (isRunStartPhase (st_phase t) \<longrightarrow> st_generation t * GENERATION_STRIDE < st_sequence t \<and>
          (1 < in_runGeneration i \<longrightarrow> (\<forall>r \<in> set (in_ranks i). \<exists>u \<in> set (update_where P f (in_steps i)).
             isLeadingStop u \<and> st_generation u = in_runGeneration i \<and> st_rank u = rk_rank r)))"
      using s(1) t by blast
  qed
  then show ?thesis by (simp add: updateSteps_def)
qed

text \<open>Ranks may lose a claim, be proven stopped further, or drop a previous claim no launch needs.\<close>

definition rank_step :: "ghost \<Rightarrow> managedInstance \<Rightarrow> rankRow \<Rightarrow> rankRow \<Rightarrow> bool" where
  "rank_step g i r r' \<longleftrightarrow>
     rk_id r' = rk_id r \<and> rk_rank r' = rk_rank r \<and> rk_nodeId r' = rk_nodeId r \<and> rk_resources r' = rk_resources r \<and>
     rk_port r' = rk_port r \<and> rk_distPort r' = rk_distPort r \<and> rk_plannedGeneration r' = rk_plannedGeneration r \<and>
     rk_stoppedThroughRun r \<le> rk_stoppedThroughRun r' \<and> (rk_claim r = RELEASED \<longrightarrow> rk_claim r' = RELEASED) \<and>
     (rk_claim r' \<noteq> RELEASED \<longrightarrow> rk_releasedUnprovenAt r' = None) \<and>
     (keptClaim r' = keptClaim r \<or> keptClaim r' = None \<and>
       (\<forall>s \<in> set (in_steps i). mayRun g r' s \<longrightarrow> rk_plannedGeneration r < st_generation s)) \<and>
     (rk_claim r' = RELEASED \<and> rk_releasedUnprovenAt r' \<noteq> None \<longrightarrow>
        (\<forall>s \<in> set (in_steps i). dispatchedStart s \<and> st_rank s = rk_rank r \<longrightarrow>
           st_generation s \<le> gh_waived g (rk_rank r)))"

lemma rank_step_mayRun: "rank_step g i r r' \<Longrightarrow> mayRun g r' s \<Longrightarrow> mayRun g r s"
  by (auto simp: rank_step_def mayRun_def)

lemma rank_step_refl: "rank_ok g i r \<Longrightarrow> rank_step g i r r"
  by (auto simp: rank_step_def rank_ok_def)

lemma inv_mapRanks:
  assumes inv: "inv g X i" and step: "\<And>r. r \<in> set (in_ranks i) \<Longrightarrow> rank_step g i r (f r)"
  shows "inv g X (i\<lparr>in_ranks := map f (in_ranks i)\<rparr>)"
proof -
  let ?i = "i\<lparr>in_ranks := map f (in_ranks i)\<rparr>"
  have eq: "map rk_id (map f (in_ranks i)) = map rk_id (in_ranks i)"
    "map rk_rank (map f (in_ranks i)) = map rk_rank (in_ranks i)"
    using step by (auto simp: rank_step_def)
  have "distinct (map rk_id (map f (in_ranks i)))" "distinct (map rk_rank (map f (in_ranks i)))"
    unfolding eq using inv by (simp_all add: inv_def ids_ok_def)
  moreover have "rk_nodeId (f r) \<noteq> None" if "r \<in> set (in_ranks i)" for r
    using that inv step[OF that] by (auto simp: inv_def ids_ok_def rank_step_def)
  ultimately have ids: "ids_ok ?i" using inv unfolding inv_def ids_ok_def by simp
  have steps: "step_ok g ?i s \<and> (st_id s \<in> X \<or> stop_proven ?i s)" if s: "s \<in> set (in_steps i)" for s
  proof -
    have "step_ok g i s" "st_id s \<in> X \<or> stop_proven i s" using inv s by (auto simp: inv_def)
    moreover have "rk_rank (f r) = rk_rank r" "rk_stoppedThroughRun r \<le> rk_stoppedThroughRun (f r)"
      if "r \<in> set (in_ranks i)" for r using step[OF that] by (auto simp: rank_step_def)
    ultimately show ?thesis by (fastforce simp: step_ok_def stop_proven_def)
  qed
  have ranks: "rank_ok g ?i (f r) \<and> (\<forall>s \<in> set (in_steps i). hold_ok g ?i (f r) s)" if r: "r \<in> set (in_ranks i)" for r
  proof -
    have ro: "rank_ok g i r" "\<forall>s \<in> set (in_steps i). hold_ok g i r s" using inv r by (auto simp: inv_def)
    have st: "rank_step g i r (f r)" using step[OF r] .
    have "rank_ok g ?i (f r)" using ro(1) st by (auto simp: rank_ok_def rank_step_def)
    moreover have "hold_ok g ?i (f r) s" if s: "s \<in> set (in_steps i)" for s
    proof (cases "mayRun g (f r) s")
      case True
      then have "mayRun g r s" using rank_step_mayRun[OF st] by blast
      then have h: "(if st_generation s \<le> rk_plannedGeneration r
          then prevKey r = Some (gh_claims g (st_generation s) (rk_rank r))
          else claimKey r = gh_claims g (st_generation s) (rk_rank r)) \<and>
         (\<forall>k \<in> set (gh_plans g (st_generation s)).
          \<exists>row \<in> set (in_reservations i). rowKey row = k \<and> rv_plannedGeneration row < st_generation s)"
        using ro(2) s by (simp add: hold_ok_def)
      have "prevKey (f r) = prevKey r" if "st_generation s \<le> rk_plannedGeneration r"
        using st s True that by (auto simp: rank_step_def prevKey_def)
      then show ?thesis using h st by (auto simp: hold_ok_def rank_step_def split: if_splits)
    qed (simp add: hold_ok_def)
    ultimately show ?thesis by blast
  qed
  have "rows_ok g ?i" using inv by (auto simp: inv_def rows_ok_def row_ok_def)
  then show ?thesis using inv ids steps ranks by (auto simp: inv_def)
qed

lemma inv_updateRanks:
  assumes "inv g X i" "\<And>r. r \<in> set (in_ranks i) \<Longrightarrow> P r \<Longrightarrow> rank_step g i r (f r)"
  shows "inv g X (updateRanks P f i)"
proof -
  have "rank_step g i r (if P r then f r else r)" if "r \<in> set (in_ranks i)" for r
    using assms that by (auto simp: inv_def intro: rank_step_refl)
  then show ?thesis
    unfolding updateRanks_def update_where_def by (rule inv_mapRanks[OF assms(1)])
qed

text \<open>The instance row's other columns and the release requests are not part of it.\<close>

lemma inv_row:
  "inv g X i \<Longrightarrow> inv g X (i\<lparr>in_phase := p\<rparr>)" "inv g X i \<Longrightarrow> inv g X (i\<lparr>in_desiredState := d\<rparr>)"
  "inv g X i \<Longrightarrow> inv g X (i\<lparr>in_operationId := o'\<rparr>)" "inv g X i \<Longrightarrow> inv g X (i\<lparr>in_requests := qs\<rparr>)"
  by (auto simp: inv_def ids_ok_def step_ok_def stop_proven_def rank_ok_def hold_ok_def rows_ok_def row_ok_def)

lemma inv_weaken: "inv g X i \<Longrightarrow> X \<subseteq> Y \<Longrightarrow> inv g Y i"
  by (auto simp: inv_def)


lemma keptClaim_cong:
  "rk_prevResources r = rk_prevResources q \<Longrightarrow> rk_prevPort r = rk_prevPort q \<Longrightarrow>
   rk_prevDistPort r = rk_prevDistPort q \<Longrightarrow> rk_prevGeneration r = rk_prevGeneration q \<Longrightarrow> keptClaim r = keptClaim q"
  by (simp add: keptClaim_def split: option.split)

lemma keptClaim_simps [simp]:
  "keptClaim (r\<lparr>rk_stoppedThroughRun := n\<rparr>) = keptClaim r" "keptClaim (r\<lparr>rk_blockedBy := bs\<rparr>) = keptClaim r"
  "keptClaim (markedRow now by r) = keptClaim r" "keptClaim (retakenClaim now r) = keptClaim r"
  "keptClaim (clearPrevious r) = None" "keptClaim (releasedRow now release r) = None"
  by (rule keptClaim_cong; simp add: markedRow_def retakenClaim_def)+
    (simp_all add: keptClaim_def clearPrevious_def releasedRow_def Let_def split: claimRelease.split)

lemma inv_settled: "inv g X i \<Longrightarrow> (\<And>s. s \<in> set (in_steps i) \<Longrightarrow> st_id s \<in> X \<Longrightarrow> stop_proven i s) \<Longrightarrow> inv g Y i"
  by (auto simp: inv_def)

lemma inv_rank_ok: "inv g X i \<Longrightarrow> r \<in> set (in_ranks i) \<Longrightarrow> rank_ok g i r"
  by (simp add: inv_def)

lemma inv_recordStoppedThrough: "inv g X i \<Longrightarrow> inv g X (recordStoppedThrough rank run i)"
  unfolding recordStoppedThrough_def
  by (rule inv_updateRanks)
    (auto simp: rank_step_def dest: inv_rank_ok simp: rank_ok_def)

lemma recordStoppedThrough_ranks:
  "r \<in> set (in_ranks (recordStoppedThrough rank run i)) \<Longrightarrow>
   \<exists>q \<in> set (in_ranks i). rk_rank r = rk_rank q \<and> rk_stoppedThroughRun q \<le> rk_stoppedThroughRun r \<and>
     (rk_rank q = rank \<longrightarrow> run \<le> rk_stoppedThroughRun r)"
  by (auto simp: recordStoppedThrough_def updateRanks_def set_update_where)

lemma recordStoppedThrough_steps [simp]:
  "in_steps (recordStoppedThrough rank run i) = in_steps i"
  "in_runGeneration (recordStoppedThrough rank run i) = in_runGeneration i"
  by (simp_all add: recordStoppedThrough_def updateRanks_def)

text \<open>Releasing a claim.\<close>

lemma releasedRow_simps [simp]:
  "rk_id (releasedRow now release r) = rk_id r" "rk_rank (releasedRow now release r) = rk_rank r"
  "rk_nodeId (releasedRow now release r) = rk_nodeId r" "rk_resources (releasedRow now release r) = rk_resources r"
  "rk_port (releasedRow now release r) = rk_port r" "rk_distPort (releasedRow now release r) = rk_distPort r"
  "rk_plannedGeneration (releasedRow now release r) = rk_plannedGeneration r"
  "rk_stoppedThroughRun (releasedRow now release r) = rk_stoppedThroughRun r"
  "rk_claim (releasedRow now release r) = RELEASED"
  by (simp_all add: releasedRow_def Let_def split: claimRelease.split)

lemma releasedRow_unproven:
  "rk_releasedUnprovenAt (releasedRow now release r) =
   (case release of ReleaseUnproven _ _ \<Rightarrow> Some now | _ \<Rightarrow> rk_releasedUnprovenAt r)"
  by (simp add: releasedRow_def Let_def split: claimRelease.split)

lemma releasedRow_step:
  assumes "rank_ok g i r" "releaseWhere rankId release r"
    and "\<And>who reason s. release = ReleaseUnproven who reason \<Longrightarrow> s \<in> set (in_steps i) \<Longrightarrow>
        dispatchedStart s \<Longrightarrow> st_rank s = rk_rank r \<Longrightarrow> st_generation s \<le> gh_waived g (rk_rank r)"
  shows "rank_step g i r (releasedRow now release r)"
proof -
  have "\<not> mayRun g (releasedRow now release r) s" for s by (simp add: mayRun_def)
  moreover have "rk_releasedUnprovenAt r = None \<or> (\<exists>who reason. release = ReleaseUnproven who reason)"
    using assms(1,2) by (auto simp: rank_ok_def releaseWhere_def split: claimRelease.splits)
  ultimately show ?thesis
    using assms(3) by (auto simp: rank_step_def releasedRow_unproven split: claimRelease.splits)
qed

lemma inv_releaseWrite:
  assumes "inv g X i"
    and "\<And>who reason r s. release = ReleaseUnproven who reason \<Longrightarrow> r \<in> set (in_ranks i) \<Longrightarrow> rk_id r = rankId \<Longrightarrow>
        s \<in> set (in_steps i) \<Longrightarrow> dispatchedStart s \<Longrightarrow> st_rank s = rk_rank r \<Longrightarrow> st_generation s \<le> gh_waived g (rk_rank r)"
  shows "inv g X (snd (releaseWrite rankId now release i))"
proof -
  have "inv g X (updateRanks (releaseWhere rankId release) (releasedRow now release) i)"
    using assms(1)
  proof (rule inv_updateRanks)
    fix r assume r: "r \<in> set (in_ranks i)" "releaseWhere rankId release r"
    then show "rank_step g i r (releasedRow now release r)"
      using assms(2) inv_rank_ok[OF assms(1) r(1)] by (intro releasedRow_step) (auto simp: releaseWhere_def)
  qed
  then show ?thesis using assms(1) by (auto simp: releaseWrite_def clearReleaseRequests_def inv_row)
qed

lemma releaseProven_inv: "inv g X i \<Longrightarrow> snd (releaseProven i r release) = i"
  by (auto simp: releaseProven_def proofHolds_def Let_def split: claimRelease.splits option.splits)

lemma inv_releaseClaim:
  assumes "inv g X i" "\<And>who reason. release \<noteq> ReleaseUnproven who reason"
  shows "inv g X (snd (releaseClaim i rankId now release))"
proof -
  have "inv g X (snd (releaseWrite rankId now release i))" using assms by (intro inv_releaseWrite) auto
  then show ?thesis
    using assms releaseProven_inv[OF assms(1)]
    by (auto simp: releaseClaim_def Let_def split: claimRelease.splits option.splits prod.splits)
      (metis snd_conv)+
qed

lemma releaseClaim_frame:
  assumes "inv g X i"
  shows "in_steps (snd (releaseClaim i rankId now release)) = in_steps i \<and>
         in_runGeneration (snd (releaseClaim i rankId now release)) = in_runGeneration i"
proof -
  have "in_steps (snd (releaseWrite rankId now release i)) = in_steps i \<and>
      in_runGeneration (snd (releaseWrite rankId now release i)) = in_runGeneration i"
    by (simp add: releaseWrite_def clearReleaseRequests_def updateRanks_def)
  then show ?thesis
    using releaseProven_inv[OF assms]
    by (auto simp: releaseClaim_def Let_def split: claimRelease.splits option.splits prod.splits)
      (metis snd_conv)+
qed

text \<open>A start whose turn it is follows the proven stop of every earlier run.\<close>

lemma start_proven:
  assumes inv: "inv g {} i" and step: "step \<in> set (in_steps i)" "isRunStartPhase (st_phase step)"
    "st_generation step = in_runGeneration i" "startReady i step" and r: "r \<in> set (in_ranks i)"
  shows "in_runGeneration i - 1 \<le> rk_stoppedThroughRun r"
proof (cases "1 < in_runGeneration i")
  case True
  have so: "step_ok g i step" using inv step(1) by (simp add: inv_def)
  then obtain t where t: "t \<in> set (in_steps i)" "isLeadingStop t" "st_generation t = in_runGeneration i"
    "st_rank t = rk_rank r" using True step r by (auto simp: step_ok_def)
  have "st_phase t = STOP" "st_sequence t = st_generation t * GENERATION_STRIDE"
    using t(2) by (auto simp: isLeadingStop_def stepSlot_def split: if_splits)
  then have "st_state t = SUCCEEDED"
    using so step t by (auto simp: step_ok_def startReady_def)
  then show ?thesis using inv t r by (auto simp: inv_def stop_proven_def)
qed simp

lemma clearPrevious_simps [simp]:
  "rk_id (clearPrevious r) = rk_id r" "rk_rank (clearPrevious r) = rk_rank r"
  "rk_nodeId (clearPrevious r) = rk_nodeId r" "rk_resources (clearPrevious r) = rk_resources r"
  "rk_port (clearPrevious r) = rk_port r" "rk_distPort (clearPrevious r) = rk_distPort r"
  "rk_plannedGeneration (clearPrevious r) = rk_plannedGeneration r"
  "rk_stoppedThroughRun (clearPrevious r) = rk_stoppedThroughRun r"
  "rk_claim (clearPrevious r) = rk_claim r" "rk_releasedUnprovenAt (clearPrevious r) = rk_releasedUnprovenAt r"
  by (simp_all add: clearPrevious_def)

lemma inv_dropSupersededHolds:
  assumes inv: "inv g X i" and proven: "\<And>r. r \<in> set (in_ranks i) \<Longrightarrow> in_runGeneration i - 1 \<le> rk_stoppedThroughRun r"
  shows "inv g X (dropSupersededHolds (in_runGeneration i) i)"
proof -
  let ?run = "in_runGeneration i"
  let ?keep = "\<lambda>row. case rv_supersededGeneration row of None \<Rightarrow> True | Some x \<Rightarrow> \<not> x < ?run"
  let ?i = "i\<lparr>in_reservations := filter ?keep (in_reservations i)\<rparr>"
  have keep: "?keep row \<longleftrightarrow> CURRENT_RESERVATION_WHERE row" if "row \<in> set (in_reservations i)" for row
    using that inv by (auto simp: inv_def rows_ok_def row_ok_def CURRENT_RESERVATION_WHERE_def split: option.splits)
  have only: "st_generation s = ?run" if "r \<in> set (in_ranks i)" "s \<in> set (in_steps i)" "mayRun g r s" for r s
    using that inv proven[OF that(1)] by (fastforce simp: inv_def step_ok_def mayRun_def)
  have distinct: "distinct (map rowKey (filter ?keep (in_reservations i)))"
    using inv by (simp add: inv_def rows_ok_def distinct_map_filter)
  have kept: "set (filter ?keep (in_reservations i)) = {row \<in> set (in_reservations i). CURRENT_RESERVATION_WHERE row}"
    using keep by auto
  have rows: "rows_ok g ?i"
    using inv distinct unfolding inv_def rows_ok_def
    by (auto simp add: kept row_ok_def simp del: set_filter)
  have hold: "hold_ok g ?i r s" if r: "r \<in> set (in_ranks i)" and s: "s \<in> set (in_steps i)" for r s
  proof (cases "mayRun g r s")
    case True
    have h: "hold_ok g i r s" using inv r s by (simp add: inv_def)
    have "\<exists>row \<in> set (in_reservations ?i). rowKey row = k \<and> rv_plannedGeneration row < st_generation s"
      if k: "k \<in> set (gh_plans g (st_generation s))" for k
    proof -
      have "\<exists>row \<in> set (in_reservations i). CURRENT_RESERVATION_WHERE row \<and> rowKey row = k"
        using inv k unfolding only[OF r s True] by (simp add: inv_def rows_ok_def)
      then obtain row where row: "row \<in> set (filter ?keep (in_reservations i))" "rowKey row = k"
        unfolding kept by blast
      then have "rv_plannedGeneration row < in_runGeneration i"
        using inv by (simp add: inv_def rows_ok_def row_ok_def)
      then show ?thesis using row only[OF r s True] by auto
    qed
    then show ?thesis using h by (auto simp: hold_ok_def)
  qed (simp add: hold_ok_def)
  have "distinct (map rv_id (filter ?keep (in_reservations i)))"
    using inv by (simp add: inv_def ids_ok_def distinct_map_filter)
  then have "inv g X ?i"
    using inv rows hold by (auto simp: inv_def ids_ok_def step_ok_def stop_proven_def rank_ok_def)
  then show ?thesis
    unfolding dropSupersededHolds_def
  proof (rule inv_updateRanks)
    fix r assume r: "r \<in> set (in_ranks ?i)"
    have ro: "rank_ok g i r" using inv r by (simp add: inv_def)
    have "rk_plannedGeneration r < st_generation s"
      if "s \<in> set (in_steps i)" "mayRun g (clearPrevious r) s" for s
    proof -
      have "mayRun g r s" using that(2) by (simp add: mayRun_def)
      then show ?thesis using only[of r s] r that(1) ro by (simp add: rank_ok_def)
    qed
    then show "rank_step g ?i r (clearPrevious r)"
      using ro by (auto simp: rank_step_def rank_ok_def)
  qed
qed

end
