(* ===== verification/Spec2Isabelle.thy ===== *)
theory Spec2Isabelle
  imports AdmissionPlanner Lifecycle ClaimOverlap TerminalAttach SerialTask TerminalTickets McpAdmission
    SessionPhase LeaseOwner NodeEventHub NodeCommandTracker RunSafety
begin

text \<open>
  Verification of the ws-model-proxy control plane.
\<close>

end
